(* ===== verification/Prelude.thy ===== *)
theory Prelude
  imports Main "HOL-Library.Word"
begin

text \<open>
  Shared vocabulary of the development: the machine integers of the C sources, the byte-order
  helpers of \<^verbatim>\<open>include/pico_config.h\<close> (little-endian build, the default of the
  Makefile), C strings, and generic lemmas on words, lists and bounded loops that the
  component theories use.
\<close>

unbundle bit_operations_syntax

type_synonym u8 = "8 word"
type_synonym u16 = "16 word"
type_synonym u32 = "32 word"
type_synonym u64 = "64 word"
type_synonym bytes = "8 word list"

named_theorems byte_simps "conversions between bytes and wider words"

section \<open>Byte order\<close>

text \<open>\<^verbatim>\<open>short_be\<close>, the portable branch of \<^verbatim>\<open>pico_config.h\<close>.\<close>

definition short_be :: "u16 \<Rightarrow> u16" where
  "short_be le = (push_bit 8 (le AND 0xFF)) OR (drop_bit 8 le AND 0xFF)"

text \<open>The bytes of a little-endian word in memory order.\<close>

definition bytes_of_u16 :: "u16 \<Rightarrow> bytes" where
  "bytes_of_u16 w = [ucast w, ucast (drop_bit 8 w)]"

definition bytes_of_u32 :: "u32 \<Rightarrow> bytes" where
  "bytes_of_u32 w = [ucast w, ucast (drop_bit 8 w), ucast (drop_bit 16 w), ucast (drop_bit 24 w)]"

fun short_from :: "bytes \<Rightarrow> u16" where
  "short_from (p0 # p1 # _) = push_bit 8 (ucast p1) + ucast p0"
| "short_from _ = 0"

fun long_from :: "bytes \<Rightarrow> u32" where
  "long_from (p0 # p1 # p2 # p3 # _) =
     push_bit 24 (ucast p3) + push_bit 16 (ucast p2) + push_bit 8 (ucast p1) + ucast p0"
| "long_from _ = 0"

text \<open>\<^verbatim>\<open>long_be\<close>: the bytes of the argument, reassembled in the opposite order.\<close>

definition long_be :: "u32 \<Rightarrow> u32" where
  "long_be le = (let b = bytes_of_u32 le in
     ucast (b ! 3) + push_bit 8 (ucast (b ! 2)) + push_bit 16 (ucast (b ! 1)) + push_bit 24 (ucast (b ! 0)))"

lemma mask_FF: "(0xFF :: 'a::len word) = mask 8"
  by (simp add: mask_eq_exp_minus_1)

lemma short_be_involution [simp]: "short_be (short_be w) = w"
  unfolding short_be_def mask_FF by (rule bit_word_eqI) (auto simp: bit_simps)

lemma unat_u8_less [simp]: "unat (b :: u8) < 256"
  using unsigned_less [of b, where 'a = nat] by simp

lemma unat_u16_less [simp]: "unat (w :: u16) < 65536"
  using unsigned_less [of w, where 'a = nat] by simp

lemma unat_u32_less [simp]: "unat (w :: u32) < 4294967296"
  using unsigned_less [of w, where 'a = nat] by simp

lemma unat_ucast_mod: "unat (ucast (w :: 'a::len word) :: 'b::len word) = unat w mod 2 ^ LENGTH('b)"
  by (simp add: unsigned_ucast_eq take_bit_eq_mod)

lemma unat_ucast_u8_16 [byte_simps]: "unat (ucast (b :: u8) :: u16) = unat b"
  using unat_u8_less [of b] by (subst unat_ucast_mod, subst mod_less) (simp_all del: unat_u8_less)

lemma unat_ucast_u8_32 [byte_simps]: "unat (ucast (b :: u8) :: u32) = unat b"
  using unat_u8_less [of b] by (subst unat_ucast_mod, subst mod_less) (simp_all del: unat_u8_less)

lemma unat_ucast_u16_32 [byte_simps]: "unat (ucast (b :: u16) :: u32) = unat b"
  using unat_u16_less [of b] by (subst unat_ucast_mod, subst mod_less) (simp_all del: unat_u16_less)

lemma unat_push_bit [byte_simps]:
  "unat (push_bit k (w :: 'a::len word)) = (unat w * 2 ^ k) mod 2 ^ LENGTH('a)"
  by (metis push_bit_eq_mult take_bit_eq_mod unsigned_push_bit_eq)

lemma unat_drop_bit [byte_simps]: "unat (drop_bit k (w :: 'a::len word)) = unat w div 2 ^ k"
  by (metis drop_bit_eq_div unat_drop_bit_eq)

lemma unat_and_mask [byte_simps]: "unat (w AND mask k :: 'a::len word) = unat w mod 2 ^ k"
  by (metis take_bit_eq_mask take_bit_eq_mod unsigned_take_bit_eq)

lemma unat_short_from [byte_simps]: "unat (short_from [a, b]) = unat a + 256 * unat b"
proof -
  have "unat b * 256 + unat a < 65536"
    using unat_u8_less [of a] unat_u8_less [of b] by linarith
  then show ?thesis by (simp add: unat_word_ariths byte_simps)
qed

lemma unat_long_from [byte_simps]:
  "unat (long_from [a, b, c, d]) = unat a + 256 * unat b + 65536 * unat c + 16777216 * unat d"
proof -
  have "unat d * 16777216 + unat c * 65536 + unat b * 256 + unat a < 4294967296"
    using unat_u8_less [of a] unat_u8_less [of b] unat_u8_less [of c] unat_u8_less [of d] by linarith
  then show ?thesis by (simp add: unat_word_ariths byte_simps)
qed

lemma unat_u16_div [simp]: "unat (w :: u16) div 256 < 256"
  by (rule less_mult_imp_div_less) simp

lemma unat_short_be [byte_simps]: "unat (short_be w) = 256 * (unat w mod 256) + unat w div 256"
proof -
  have "short_be w = push_bit 8 (w AND mask 8) + (drop_bit 8 w AND mask 8)"
    unfolding short_be_def mask_FF
    by (subst disjunctive_add_eq_or) (auto simp: bit_eq_iff bit_simps)
  also have "\<dots> = push_bit 8 (w AND mask 8) + drop_bit 8 w"
    by (simp add: word_unat_eq_iff unat_word_ariths unat_and_mask unat_drop_bit)
  finally have e: "unat (short_be w) =
      (unat (push_bit 8 (w AND mask 8)) + unat w div 256) mod 65536"
    by (simp add: unat_word_ariths unat_drop_bit del: push_bit_and)
  have "unat w mod 256 * 256 < 65536" by simp
  then have "unat (push_bit 8 (w AND mask 8)) = unat w mod 256 * 256"
    by (simp only: unat_push_bit unat_and_mask) simp
  moreover have "unat w mod 256 * 256 + unat w div 256 < 65536"
    using unat_u16_div [of w] by linarith
  ultimately show ?thesis unfolding e by simp
qed

lemma unat_u32_div [simp]: "unat (w :: u32) div 16777216 < 256"
  by (rule less_mult_imp_div_less) simp

lemma short_from_bytes_of_u16 [simp]: "short_from (bytes_of_u16 w) = w"
  by (simp add: bytes_of_u16_def word_unat_eq_iff [where 'a = 16] unat_ucast_mod unat_drop_bit
      unat_short_from del: short_from.simps)

lemma bytes_of_u16_short_from [simp]: "bytes_of_u16 (short_from [a, b]) = [a, b]"
  by (simp add: bytes_of_u16_def word_unat_eq_iff unat_ucast_mod unat_drop_bit unat_short_from
      del: short_from.simps)

lemma split_256:
  fixes x q r :: nat
  assumes "x = 256 * q + r" "r < 256"
  shows "x div 256 = q" "x mod 256 = r"
  using assms by simp_all

lemma digits_256:
  fixes a b c d :: nat
  assumes "a < 256" "b < 256" "c < 256" "d < 256"
  defines "n \<equiv> a + 256 * b + 65536 * c + 16777216 * d"
  shows "n mod 256 = a" "n div 256 mod 256 = b" "n div 65536 mod 256 = c" "n div 16777216 mod 256 = d"
proof -
  have n: "n = a + 256 * (b + 256 * (c + 256 * d))" unfolding n_def by simp
  have m: "n mod 256 = a" unfolding n using assms(1) by (simp only: mod_mult_self2 mod_less)
  have q: "n div 256 = b + 256 * (c + 256 * d)" unfolding n using assms(1) by simp
  have q2: "n div 65536 = c + 256 * d"
    using assms(2) div_mult2_eq [of n 256 256] by (simp add: q)
  have q3: "n div 16777216 = d"
    using assms(3) div_mult2_eq [of n 65536 256] by (simp add: q2)
  show "n mod 256 = a" "n div 256 mod 256 = b" "n div 65536 mod 256 = c" "n div 16777216 mod 256 = d"
    using assms(2-4) m unfolding q q2 q3 by (simp_all only: mod_mult_self2 mod_less)
qed

lemma bytes_of_u32_long_from [simp]: "bytes_of_u32 (long_from [a, b, c, d]) = [a, b, c, d]"
proof -
  note d = digits_256 [OF unat_u8_less [of a] unat_u8_less [of b] unat_u8_less [of c] unat_u8_less [of d]]
  have "unat (long_from [a, b, c, d]) mod 256 = unat a"
    "unat (long_from [a, b, c, d]) div 256 mod 256 = unat b"
    "unat (long_from [a, b, c, d]) div 65536 mod 256 = unat c"
    "unat (long_from [a, b, c, d]) div 16777216 mod 256 = unat d"
    unfolding unat_long_from by (rule d)+
  then show ?thesis
    by (simp add: bytes_of_u32_def word_unat_eq_iff [where 'a = 8] unat_ucast_mod unat_drop_bit
        del: long_from.simps)
qed

lemma long_from_bytes_of_u32 [simp]: "long_from (bytes_of_u32 w) = w"
proof -
  let ?n = "unat w"
  have "?n = ?n mod 256 + 256 * (?n div 256)" by simp
  also have "?n div 256 = ?n div 256 mod 256 + 256 * (?n div 65536)"
    using div_mult2_eq [of ?n 256 256] by simp
  also have "?n div 65536 = ?n div 65536 mod 256 + 256 * (?n div 16777216)"
    using div_mult2_eq [of ?n 65536 256] by simp
  finally have "?n mod 256 + 256 * (?n div 256 mod 256) + 65536 * (?n div 65536 mod 256)
      + 16777216 * (?n div 16777216 mod 256) = ?n"
    by simp
  then show ?thesis
    by (simp add: bytes_of_u32_def word_unat_eq_iff [where 'a = 32] unat_ucast_mod unat_drop_bit
        unat_long_from del: long_from.simps)
qed

lemma length_bytes_of_u32 [simp]: "length (bytes_of_u32 w) = 4"
  by (simp add: bytes_of_u32_def)

lemma long_be_alt: "long_be w = long_from (rev (bytes_of_u32 w))"
  by (simp add: long_be_def bytes_of_u32_def Let_def numeral_3_eq_3 add_ac)

lemma bytes_of_u32_cases:
  obtains a b c d where "w = long_from [a, b, c, d]" "bytes_of_u32 w = [a, b, c, d]"
  using that [of "ucast w" "ucast (drop_bit 8 w)" "ucast (drop_bit 16 w)" "ucast (drop_bit 24 w)"]
    long_from_bytes_of_u32 [of w] by (simp add: bytes_of_u32_def del: long_from.simps)

lemma long_be_long_from: "long_be (long_from [a, b, c, d]) = long_from [d, c, b, a]"
  by (simp add: long_be_alt del: long_from.simps)

lemma long_be_involution [simp]: "long_be (long_be w) = w"
  by (rule bytes_of_u32_cases [of w]) (simp add: long_be_long_from del: long_from.simps)

lemma bytes_of_u32_long_be: "bytes_of_u32 (long_be w) = rev (bytes_of_u32 w)"
  by (rule bytes_of_u32_cases [of w]) (simp add: long_be_long_from del: long_from.simps)

declare short_from.simps [simp del] long_from.simps [simp del]

lemma short_from_append [simp]: "short_from (bytes_of_u16 v @ r) = v"
  using short_from_bytes_of_u16 [of v] by (simp add: bytes_of_u16_def short_from.simps)

lemma long_from_append [simp]: "long_from (bytes_of_u32 x @ r) = x"
  using long_from_bytes_of_u32 [of x] by (simp add: bytes_of_u32_def long_from.simps)

lemma length_bytes_of_u16 [simp]: "length (bytes_of_u16 v) = 2"
  by (simp add: bytes_of_u16_def)

end
