(* ===== verification/PicoChecksum.thy ===== *)
theory PicoChecksum
  imports Prelude
begin

text \<open>
  The Internet checksum of \<^verbatim>\<open>stack/pico_frame.c\<close>: the 32-bit accumulator over 16-bit
  little-endian words, the carry folding loop and the two entry points. The lemmas relate it
  to one's complement arithmetic (sums modulo 65535), which carries the proofs that a header
  whose checksum field was written by \<^verbatim>\<open>pico_ipv4_checksum\<close> passes
  \<^verbatim>\<open>pico_ipv4_crc_check\<close>.
\<close>

section \<open>The code\<close>

text \<open>The \<^verbatim>\<open>while (buf < stop) sm += *buf++\<close> loop, one 16-bit word at a time.\<close>

fun adder_loop :: "u32 \<Rightarrow> bytes \<Rightarrow> u32" where
  "adder_loop sm (p0 # p1 # rest) = adder_loop (sm + ucast (short_from [p0, p1])) rest"
| "adder_loop sm _ = sm"

definition pico_checksum_adder :: "u32 \<Rightarrow> bytes \<Rightarrow> u32" where
  "pico_checksum_adder sm data =
     (let len = length data in
      if odd len then adder_loop (sm + ucast (data ! (len - 1))) (take (len - 1) data)
      else adder_loop sm data)"

text \<open>\<^verbatim>\<open>while (sum >> 16) sm = (sum & 0xFFFF) + (sum >> 16)\<close>.\<close>

lemma fold_step_decreases:
  assumes "drop_bit 16 (sm :: u32) \<noteq> 0"
  shows "unat ((sm AND 0xFFFF) + drop_bit 16 sm) < unat sm"
proof -
  have m: "(0xFFFF :: u32) = mask 16" by (simp add: mask_eq_exp_minus_1)
  have "unat sm div 65536 \<noteq> 0"
    using assms by (simp add: unat_eq_0 [symmetric] unat_drop_bit)
  moreover have "unat sm = 65536 * (unat sm div 65536) + unat sm mod 65536" by simp
  ultimately have "unat sm mod 65536 + unat sm div 65536 < unat sm" by linarith
  moreover have "unat ((sm AND 0xFFFF) + drop_bit 16 sm) \<le> unat sm mod 65536 + unat sm div 65536"
    unfolding m unat_word_ariths unat_and_mask unat_drop_bit by simp
  ultimately show ?thesis by linarith
qed

function fold_carry :: "u32 \<Rightarrow> u32" where
  "fold_carry sm =
     (if drop_bit 16 sm \<noteq> 0 then fold_carry ((sm AND 0xFFFF) + drop_bit 16 sm) else sm)"
  by pat_completeness auto
termination
  by (relation "measure unat") (auto simp: fold_step_decreases)

declare fold_carry.simps [simp del]

definition pico_checksum_finalize :: "u32 \<Rightarrow> u16" where
  "pico_checksum_finalize sm = short_be (NOT (ucast (fold_carry sm)))"

definition pico_checksum :: "bytes \<Rightarrow> u16" where
  "pico_checksum inbuf = pico_checksum_finalize (pico_checksum_adder 0 inbuf)"

definition pico_dualbuffer_checksum :: "bytes \<Rightarrow> bytes \<Rightarrow> u16" where
  "pico_dualbuffer_checksum inbuf1 inbuf2 =
     pico_checksum_finalize (pico_checksum_adder (pico_checksum_adder 0 inbuf1) inbuf2)"

section \<open>One's complement arithmetic\<close>

text \<open>The mathematical sum of the 16-bit little-endian words (a trailing byte is padded).\<close>

fun wsum :: "bytes \<Rightarrow> nat" where
  "wsum [] = 0"
| "wsum [b] = unat b"
| "wsum (a # b # rest) = unat a + 256 * unat b + wsum rest"

text \<open>The same sum over network-order words, as RFC 1071 writes it.\<close>

fun wsum_be :: "bytes \<Rightarrow> nat" where
  "wsum_be [] = 0"
| "wsum_be [b] = 256 * unat b"
| "wsum_be (a # b # rest) = 256 * unat a + unat b + wsum_be rest"

text \<open>The one's complement representative of a sum: 0 only for 0, else in 1..65535.\<close>

definition oc :: "nat \<Rightarrow> nat" where
  "oc n = (if n = 0 then 0 else if n mod 65535 = 0 then 65535 else n mod 65535)"

lemma oc_less [simp]: "oc n < 65536"
  using mod_less_divisor [of 65535 n] by (auto simp: oc_def simp del: mod_less_divisor)

lemma oc_small: "n < 65536 \<Longrightarrow> oc n = n"
  by (cases "n = 65535") (simp_all add: oc_def)

lemma oc_mod: "oc n mod 65535 = n mod 65535"
  by (simp add: oc_def)

lemma oc_cong: "m mod 65535 = n mod 65535 \<Longrightarrow> (m = 0 \<longleftrightarrow> n = 0) \<Longrightarrow> oc m = oc n"
  by (simp add: oc_def)

lemma unat_fold_carry: "unat (fold_carry s) = oc (unat s)"
proof (induction s rule: fold_carry.induct)
  case (1 s)
  show ?case
  proof (cases "drop_bit 16 s \<noteq> 0")
    case True
    have m: "(0xFFFF :: u32) = mask 16" by (simp add: mask_eq_exp_minus_1)
    let ?n = "unat s mod 65536 + unat s div 65536"
    have "?n < 4294967296"
      using unat_u32_less [of s] mod_less_divisor [of 65536 "unat s"] by linarith
    then have u: "unat ((s AND 0xFFFF) + drop_bit 16 s) = ?n"
      unfolding m unat_word_ariths unat_and_mask unat_drop_bit by simp
    have e: "unat s = 65536 * (unat s div 65536) + unat s mod 65536" by simp
    then have "unat s = ?n + 65535 * (unat s div 65536)" by linarith
    then have "?n mod 65535 = unat s mod 65535" by (metis mod_mult_self2)
    moreover have "?n = 0 \<longleftrightarrow> unat s = 0" using e by linarith
    ultimately have "oc ?n = oc (unat s)" by (rule oc_cong)
    with True 1 u show ?thesis by (simp add: fold_carry.simps [of s])
  next
    case False
    then have "unat (drop_bit 16 s) = 0" by simp
    then have "unat s div 65536 = 0" by (simp only: unat_drop_bit) simp
    then show ?thesis using False by (simp add: fold_carry.simps [of s] oc_small div_eq_0_iff)
  qed
qed

lemma wsum_append: "even (length xs) \<Longrightarrow> wsum (xs @ ys) = wsum xs + wsum ys"
  by (induction xs rule: wsum.induct) auto

lemma wsum_le: "wsum d \<le> 65535 * ((length d + 1) div 2)"
proof (induction d rule: wsum.induct)
  case (2 b)
  have "unat b \<le> 65535" using unat_u8_less [of b] by linarith
  then show ?case by simp
next
  case (3 a b rest)
  have "unat a + 256 * unat b \<le> 65535"
    using unat_u8_less [of a] unat_u8_less [of b] by linarith
  with 3 show ?case by simp
qed simp

lemma wsum_bound: "length d \<le> 2 ^ 17 \<Longrightarrow> wsum d < 4294967296"
  using wsum_le [of d] by (simp add: div_le_mono)

lemma unat_add_small: "unat (a :: u32) + unat b < 4294967296 \<Longrightarrow> unat (a + b) = unat a + unat b"
  by (simp add: unat_word_ariths)

lemma unat_adder_loop:
  "even (length d) \<Longrightarrow> unat s + wsum d < 4294967296 \<Longrightarrow> unat (adder_loop s d) = unat s + wsum d"
proof (induction s d rule: adder_loop.induct)
  case (1 s a b rest)
  have "unat (ucast (short_from [a, b]) :: u32) = unat a + 256 * unat b"
    by (simp add: byte_simps)
  moreover from this "1.prems" have
    "unat (s + ucast (short_from [a, b])) = unat s + (unat a + 256 * unat b)"
    by (subst unat_add_small) auto
  ultimately show ?case using 1 by simp
qed auto

lemma unat_pico_checksum_adder:
  assumes "unat s + wsum d < 4294967296"
  shows "unat (pico_checksum_adder s d) = unat s + wsum d"
proof (cases "odd (length d)")
  case True
  then obtain xs b where d: "d = xs @ [b]" by (cases d rule: rev_cases) auto
  with True have ev: "even (length xs)" by simp
  then have w: "wsum d = wsum xs + unat b" unfolding d by (simp add: wsum_append)
  have u: "unat (s + ucast b) = unat s + unat b"
    using assms w by (subst unat_add_small) (simp_all add: unat_ucast_u8_32)
  from True have "pico_checksum_adder s d = adder_loop (s + ucast b) xs"
    by (simp add: pico_checksum_adder_def d Let_def)
  with ev u assms w show ?thesis by (simp add: unat_adder_loop)
next
  case False
  with assms show ?thesis by (simp add: pico_checksum_adder_def unat_adder_loop Let_def)
qed

lemma unat_not_u16: "unat (NOT (w :: u16)) = 65535 - unat w"
proof -
  have m1: "unat (- 1 :: u16) = 65535"
    by (simp add: unsigned_minus_1_eq_mask mask_eq_exp_minus_1)
  have "NOT w = - 1 - w" by (simp add: not_eq_complement)
  then show ?thesis by (simp add: unat_sub m1 word_order.extremum)
qed

lemma unat_finalize: "unat (pico_checksum_finalize s) =
    256 * ((65535 - oc (unat s)) mod 256) + (65535 - oc (unat s)) div 256"
proof -
  have "unat (ucast (fold_carry s) :: u16) = oc (unat s)"
    by (simp add: unat_ucast_mod unat_fold_carry)
  then show ?thesis
    by (simp only: pico_checksum_finalize_def unat_short_be unat_not_u16)
qed

lemma unat_pico_checksum:
  "length d \<le> 2 ^ 17 \<Longrightarrow> unat (pico_checksum d) =
     256 * ((65535 - oc (wsum d)) mod 256) + (65535 - oc (wsum d)) div 256"
  using wsum_bound [of d] by (simp add: pico_checksum_def unat_finalize unat_pico_checksum_adder)

text \<open>
  A buffer verifies (its checksum is zero) exactly when its words sum to a non-zero multiple
  of 65535: the fact every check in the stack relies on.
\<close>

lemma pico_checksum_zero_iff:
  assumes "length d \<le> 2 ^ 17"
  shows "pico_checksum d = 0 \<longleftrightarrow> wsum d \<noteq> 0 \<and> wsum d mod 65535 = 0"
proof -
  have zero_iff: "n mod 256 = 0 \<and> n div 256 = 0 \<longleftrightarrow> n = 0" for n :: nat
    by (metis div_mult_mod_eq mult_0 add_0 div_0 mod_0)
  have "pico_checksum d = 0 \<longleftrightarrow> 65535 - oc (wsum d) = 0"
    using unat_pico_checksum [OF assms] zero_iff [of "65535 - oc (wsum d)"] by (simp flip: unat_eq_0)
  also have "\<dots> \<longleftrightarrow> oc (wsum d) = 65535"
    using oc_less [of "wsum d"] by linarith
  also have "\<dots> \<longleftrightarrow> wsum d \<noteq> 0 \<and> wsum d mod 65535 = 0"
    using mod_less_divisor [of 65535 "wsum d"] by (auto simp: oc_def simp del: mod_less_divisor)
  finally show ?thesis .
qed

lemma short_be_pico_checksum:
  assumes "length d \<le> 2 ^ 17"
  shows "unat (short_be (pico_checksum d)) = 65535 - oc (wsum d)"
proof -
  have "unat (ucast (fold_carry (pico_checksum_adder 0 d)) :: u16) = oc (wsum d)"
    using wsum_bound [OF assms] by (simp add: unat_ucast_mod unat_fold_carry unat_pico_checksum_adder)
  then show ?thesis
    by (simp add: pico_checksum_def pico_checksum_finalize_def unat_not_u16)
qed

lemma wsum_be_mod: "wsum_be d mod 65535 = (256 * wsum d) mod 65535"
proof (induction d rule: wsum_be.induct)
  case (3 a b rest)
  have "(256 * (unat a + 256 * unat b + wsum rest)) =
      (256 * unat a + unat b + 256 * wsum rest) + 65535 * unat b" by simp
  then have "(256 * (unat a + 256 * unat b + wsum rest)) mod 65535 =
      (256 * unat a + unat b + 256 * wsum rest) mod 65535" by (metis mod_mult_self2)
  also have "\<dots> = (256 * unat a + unat b + wsum_be rest) mod 65535"
    by (metis 3 mod_add_right_eq)
  finally show ?case by simp
qed auto

lemma wsum_be_eq_0: "wsum_be d = 0 \<longleftrightarrow> wsum d = 0"
  by (induction d rule: wsum_be.induct) auto

lemma swap16_oc: "r < 65536 \<Longrightarrow> 256 * (r mod 256) + r div 256 = oc (256 * r)"
proof -
  assume r: "r < 65536"
  let ?s = "256 * (r mod 256) + r div 256"
  have q: "r div 256 < 256" using r by (simp add: less_mult_imp_div_less)
  have "256 * r = 65536 * (r div 256) + 256 * (r mod 256)"
    using mult_div_mod_eq [of 256 r] by linarith
  then have "256 * r = ?s + 65535 * (r div 256)" by linarith
  then have "(256 * r) mod 65535 = ?s mod 65535" by (metis mod_mult_self2)
  moreover have "256 * r = 0 \<longleftrightarrow> ?s = 0" using \<open>256 * r = ?s + _\<close> by auto
  ultimately have "oc (256 * r) = oc ?s" by (rule oc_cong)
  moreover have "?s < 65536" using q mod_less_divisor [of 256 r] by linarith
  ultimately show ?thesis by (simp add: oc_small)
qed

lemma swap_complement:
  fixes r :: nat
  assumes "r < 65536"
  shows "256 * ((65535 - r) mod 256) + (65535 - r) div 256 = 65535 - (256 * (r mod 256) + r div 256)"
proof -
  define q m where "q = r div 256" and "m = r mod 256"
  have r: "r = 256 * q + m" by (simp add: q_def m_def)
  have b: "q < 256" "m < 256" using assms by (simp_all add: q_def m_def less_mult_imp_div_less)
  have x: "65535 - r = 256 * (255 - q) + (255 - m)" "255 - m < 256" using r b by linarith+
  show ?thesis
    using b unfolding split_256 [OF x] split_256 [OF r b(2)] by linarith
qed

section \<open>Properties\<close>

text \<open>C10: the network-order value of the checksum is the RFC 1071 one: the complement of the
  one's complement sum of the big-endian words, although the code adds little-endian words
  into a 32-bit accumulator; up to 128 KiB no carry is lost.\<close>

theorem pico_checksum_rfc1071:
  assumes "length d \<le> 2 ^ 17"
  shows "unat (pico_checksum d) = 65535 - oc (wsum_be d)"
proof -
  let ?r = "oc (wsum d)"
  have "oc (256 * ?r) = oc (wsum_be d)"
  proof (rule oc_cong)
    show "256 * ?r mod 65535 = wsum_be d mod 65535"
      by (metis mod_mult_right_eq oc_mod wsum_be_mod)
    show "(256 * ?r = 0) = (wsum_be d = 0)"
      by (simp add: wsum_be_eq_0 oc_def)
  qed
  then show ?thesis
    using unat_pico_checksum [OF assms] swap_complement [of ?r] swap16_oc [of ?r] by simp
qed

theorem pico_checksum_rfc1071_witness:
  "length [0x45, 0x00, 0x00, 0x3c :: u8] \<le> 2 ^ 17 \<and>
   unat (pico_checksum [0x45, 0x00, 0x00, 0x3c]) = 65535 - oc (wsum_be [0x45, 0x00, 0x00, 0x3c])"
  using pico_checksum_rfc1071 [of "[0x45, 0x00, 0x00, 0x3c]"] by simp

lemma adder_loop_add: "adder_loop (s + x) d = adder_loop s d + x"
  by (induction s d rule: adder_loop.induct) (simp_all add: add_ac)

lemma adder_loop_append:
  "even (length xs) \<Longrightarrow> adder_loop s (xs @ ys) = adder_loop (adder_loop s xs) ys"
  by (induction s xs rule: adder_loop.induct) auto

text \<open>the checksum over two buffers is the checksum of their concatenation when the first
  one has even length, the condition of the warning above the function.\<close>

theorem pico_dualbuffer_checksum_append:
  assumes "even (length b1)"
  shows "pico_dualbuffer_checksum b1 b2 = pico_checksum (b1 @ b2)"
proof -
  have "pico_checksum_adder (pico_checksum_adder 0 b1) b2 = pico_checksum_adder 0 (b1 @ b2)"
  proof (cases "odd (length b2)")
    case True
    then obtain ys b where b2: "b2 = ys @ [b]" by (cases b2 rule: rev_cases) auto
    show ?thesis using assms True
      by (simp add: pico_checksum_adder_def Let_def b2 nth_append adder_loop_append adder_loop_add
          adder_loop_add [of 0 "ucast b", simplified])
  qed (use assms in \<open>simp add: pico_checksum_adder_def Let_def adder_loop_append\<close>)
  then show ?thesis by (simp add: pico_dualbuffer_checksum_def pico_checksum_def)
qed

theorem pico_dualbuffer_checksum_append_witness:
  "even (length [1, 2 :: u8]) \<and>
   pico_dualbuffer_checksum [1, 2] [3, 4, 5] = pico_checksum ([1, 2] @ [3, 4, 5])"
  using pico_dualbuffer_checksum_append [of "[1, 2]" "[3, 4, 5]"] by simp

end
