(* ===== verification/PicoHeap.thy ===== *)
theory PicoHeap
  imports Prelude "HOL-Library.Multiset"
begin

text \<open>
  The binary heap of \<^verbatim>\<open>include/heap.h\<close> (macro \<^verbatim>\<open>DECLARE_HEAP\<close>), an array
  that grows on insertion and whose slot 0 is unused. \<open>htop\<close> is the allocated block, so
  \<open>length (htop h)\<close> is what was allocated; the invariant \<open>heap_wf\<close> keeps every index the
  loops use inside it. The locale \<open>priority_queue\<close> is the contract the timer code relies on.
\<close>

section \<open>The code\<close>

record 'a heap =
  hsize :: nat
  hn :: nat
  htop :: "'a list"

definition heap_init :: "'a heap" where
  "heap_init = \<lparr>hsize = 0, hn = 0, htop = []\<rparr>"

text \<open>The sift-up loop of \<^verbatim>\<open>heap_insert\<close> and the store that ends it.\<close>

function sift_up :: "('a \<Rightarrow> 'k::linorder) \<Rightarrow> 'a \<Rightarrow> nat \<Rightarrow> 'a list \<Rightarrow> 'a list" where
  "sift_up orderby el i tp =
     (if i > 1 \<and> orderby (tp ! (i div 2)) > orderby el
      then sift_up orderby el (i div 2) (tp[i := tp ! (i div 2)])
      else tp[i := el])"
  by pat_completeness auto
termination
  by (relation "measure (\<lambda>(_, _, i, _). i)") auto

declare sift_up.simps [simp del]

text \<open>
  \<^verbatim>\<open>heap_insert\<close>: \<open>mem\<close> tells whether \<^verbatim>\<open>PICO_ZALLOC\<close> succeeds, \<open>zero\<close> is the
  zeroed element it fills the block with.
\<close>

definition grow_top :: "'a \<Rightarrow> nat \<Rightarrow> 'a list \<Rightarrow> 'a list" where
  "grow_top zero n tp = take n tp @ replicate (n + 1 - length (take n tp)) zero"

definition heap_insert ::
  "('a \<Rightarrow> 'k::linorder) \<Rightarrow> 'a \<Rightarrow> bool \<Rightarrow> 'a heap \<Rightarrow> 'a \<Rightarrow> int \<times> 'a heap" where
  "heap_insert orderby zero mem heap el =
     (let n = hn heap + 1 in
      if n \<ge> hsize heap \<and> \<not> mem then (- 1, heap)
      else
        let tp = (if n \<ge> hsize heap then grow_top zero n (htop heap) else htop heap);
            size = (if n \<ge> hsize heap then hsize heap + 1 else hsize heap)
        in if n = 1 then (0, \<lparr>hsize = size, hn = n, htop = tp[1 := el]\<rparr>)
           else (0, \<lparr>hsize = size, hn = n, htop = sift_up orderby el n tp\<rparr>))"

text \<open>The sift-down loop of \<^verbatim>\<open>heap_peek\<close>; \<open>n\<close> is the already decremented count.\<close>

definition min_child :: "('a \<Rightarrow> 'k::linorder) \<Rightarrow> nat \<Rightarrow> 'a list \<Rightarrow> nat \<Rightarrow> nat" where
  "min_child orderby n tp i =
     (let child = 2 * i in
      if child \<noteq> n \<and> orderby (tp ! (child + 1)) < orderby (tp ! child) then child + 1 else child)"

lemma min_child_cases: "min_child orderby n tp i = 2 * i \<or> min_child orderby n tp i = 2 * i + 1"
  by (simp add: min_child_def Let_def)

function sift_down :: "('a \<Rightarrow> 'k::linorder) \<Rightarrow> nat \<Rightarrow> 'a \<Rightarrow> nat \<Rightarrow> 'a list \<Rightarrow> 'a list" where
  "sift_down orderby n lst i tp =
     (if 0 < i \<and> i * 2 \<le> n then
        let child = min_child orderby n tp i in
        if orderby lst > orderby (tp ! child)
        then sift_down orderby n lst child (tp[i := tp ! child])
        else tp[i := lst]
      else tp[i := lst])"
  by pat_completeness auto
termination
proof (relation "measure (\<lambda>(_, n, _, i, _). n + 1 - i)", simp, goal_cases)
  case (1 orderby n lst i tp x)
  then show ?case using min_child_cases [of orderby n tp i] by auto
qed

declare sift_down.simps [simp del]

text \<open>\<^verbatim>\<open>heap_peek\<close> copies out the first element and removes it.\<close>

definition heap_peek :: "('a \<Rightarrow> 'k::linorder) \<Rightarrow> 'a heap \<Rightarrow> 'a option \<times> 'a heap" where
  "heap_peek orderby heap =
     (if hn heap = 0 then (None, heap)
      else let first = htop heap ! 1;
               lst = htop heap ! hn heap;
               n = hn heap - 1
           in (Some first, heap\<lparr>hn := n, htop := sift_down orderby n lst 1 (htop heap)\<rparr>))"

definition heap_first :: "'a heap \<Rightarrow> 'a option" where
  "heap_first heap = (if hn heap = 0 then None else Some (htop heap ! 1))"

section \<open>Invariant and abstraction\<close>

definition heap_order :: "('a \<Rightarrow> 'k::linorder) \<Rightarrow> nat \<Rightarrow> 'a list \<Rightarrow> bool" where
  "heap_order orderby n tp \<longleftrightarrow> (\<forall>k\<in>{2..n}. orderby (tp ! (k div 2)) \<le> orderby (tp ! k))"

definition heap_wf :: "('a \<Rightarrow> 'k::linorder) \<Rightarrow> 'a heap \<Rightarrow> bool" where
  "heap_wf orderby h \<longleftrightarrow> hsize h \<le> length (htop h) \<and> (hn h = 0 \<or> hn h < length (htop h)) \<and>
     heap_order orderby (hn h) (htop h)"

definition slots :: "'a list \<Rightarrow> nat set \<Rightarrow> 'a multiset" where
  "slots tp A = image_mset (nth tp) (mset_set A)"

definition heap_elems :: "'a heap \<Rightarrow> 'a multiset" where
  "heap_elems h = slots (htop h) {1..hn h}"

lemma slots_insert: "finite A \<Longrightarrow> i \<in> A \<Longrightarrow> slots tp A = add_mset (tp ! i) (slots tp (A - {i}))"
  by (simp add: slots_def mset_set.remove)

lemma slots_cong: "(\<And>i. i \<in> A \<Longrightarrow> t ! i = u ! i) \<Longrightarrow> slots t A = slots u A"
  unfolding slots_def by (cases "finite A") (auto intro!: image_mset_cong)

lemma slots_update: "i \<notin> A \<Longrightarrow> slots (t[i := x]) A = slots t A"
  by (rule slots_cong) (metis nth_list_update_neq)

text \<open>Moving the hole of an array from slot \<open>i\<close> to slot \<open>j\<close>.\<close>

lemma slots_move_hole:
  assumes "finite A" "i \<in> A" "j \<in> A" "i \<noteq> j" "i < length t"
  shows "slots (t[i := t ! j]) (A - {j}) = slots t (A - {i})"
proof -
  have "slots (t[i := t ! j]) (A - {j}) = add_mset (t ! j) (slots (t[i := t ! j]) (A - {j} - {i}))"
    using assms by (subst slots_insert [of _ i]) auto
  also have "\<dots> = add_mset (t ! j) (slots t (A - {i} - {j}))"
    by (simp add: slots_update Diff_insert [symmetric] insert_commute)
  also have "\<dots> = slots t (A - {i})"
    using assms by (subst (2) slots_insert [of _ j]) auto
  finally show ?thesis .
qed

lemma slots_fill: "finite A \<Longrightarrow> i \<in> A \<Longrightarrow> i < length t \<Longrightarrow> slots (t[i := x]) A = add_mset x (slots t (A - {i}))"
  by (simp add: slots_insert [of A i] slots_update)

section \<open>Sift-up\<close>

lemma length_sift_up [simp]: "length (sift_up orderby el i tp) = length tp"
proof (induction orderby el i tp rule: sift_up.induct)
  case (1 orderby el i tp)
  then show ?case by (subst sift_up.simps) simp
qed

lemma sift_up_step:
  "i > 1 \<and> orderby (tp ! (i div 2)) > orderby el \<Longrightarrow>
   sift_up orderby el i tp = sift_up orderby el (i div 2) (tp[i := tp ! (i div 2)])"
  by (subst sift_up.simps) simp

lemma sift_up_stop:
  "\<not> (i > 1 \<and> orderby (tp ! (i div 2)) > orderby el) \<Longrightarrow> sift_up orderby el i tp = tp[i := el]"
  by (subst sift_up.simps) (rule if_not_P)

lemma slots_sift_up:
  "1 \<le> i \<Longrightarrow> i \<le> n \<Longrightarrow> n < length tp \<Longrightarrow>
     slots (sift_up orderby el i tp) {1..n} = add_mset el (slots tp ({1..n} - {i}))"
proof (induction orderby el i tp rule: sift_up.induct)
  case (1 orderby el i tp)
  show ?case
  proof (cases "i > 1 \<and> orderby (tp ! (i div 2)) > orderby el")
    case True
    then have "slots (sift_up orderby el (i div 2) (tp[i := tp ! (i div 2)])) {1..n} =
        add_mset el (slots (tp[i := tp ! (i div 2)]) ({1..n} - {i div 2}))"
      using "1.prems" by (intro "1.IH") auto
    also have "slots (tp[i := tp ! (i div 2)]) ({1..n} - {i div 2}) = slots tp ({1..n} - {i})"
      using True "1.prems" by (intro slots_move_hole) auto
    finally show ?thesis unfolding sift_up_step [OF True] .
  next
    case False
    show ?thesis unfolding sift_up_stop [OF False] using "1.prems" by (intro slots_fill) auto
  qed
qed

text \<open>Heap order around a hole: the pairs away from it, and its parent below its children.\<close>

definition hole_order :: "('a \<Rightarrow> 'k::linorder) \<Rightarrow> nat \<Rightarrow> 'a list \<Rightarrow> nat \<Rightarrow> bool" where
  "hole_order orderby n tp i \<longleftrightarrow>
     (\<forall>k\<in>{2..n}. k \<noteq> i \<longrightarrow> k div 2 \<noteq> i \<longrightarrow> orderby (tp ! (k div 2)) \<le> orderby (tp ! k)) \<and>
     (1 < i \<longrightarrow> (\<forall>k\<in>{2..n}. k div 2 = i \<longrightarrow> orderby (tp ! (i div 2)) \<le> orderby (tp ! k)))"

lemma hole_orderD:
  "hole_order orderby n tp i \<Longrightarrow> 2 \<le> k \<Longrightarrow> k \<le> n \<Longrightarrow> k \<noteq> i \<Longrightarrow> k div 2 \<noteq> i \<Longrightarrow>
   orderby (tp ! (k div 2)) \<le> orderby (tp ! k)"
  "hole_order orderby n tp i \<Longrightarrow> 1 < i \<Longrightarrow> 2 \<le> k \<Longrightarrow> k \<le> n \<Longrightarrow> k div 2 = i \<Longrightarrow>
   orderby (tp ! (i div 2)) \<le> orderby (tp ! k)"
  by (auto simp: hole_order_def)

text \<open>One step of the loop moves the hole to the parent slot.\<close>

lemma hole_order_up:
  assumes h: "hole_order orderby n tp i" and i: "1 < i" "i \<le> n" "n < length tp"
  shows "hole_order orderby n (tp[i := tp ! (i div 2)]) (i div 2)"
    and "2 \<le> k \<Longrightarrow> k \<le> n \<Longrightarrow> k div 2 = i div 2 \<Longrightarrow>
      orderby (tp ! (i div 2)) \<le> orderby (tp[i := tp ! (i div 2)] ! k)"
proof -
  let ?j = "i div 2" and ?t = "tp[i := tp ! (i div 2)]"
  have ne: "?j \<noteq> i" "?j div 2 \<noteq> i" using i by auto
  have at: "?t ! i = tp ! ?j" "\<And>m. m \<noteq> i \<Longrightarrow> ?t ! m = tp ! m" using i by auto
  have sib: "orderby (tp ! ?j) \<le> orderby (?t ! k)" if "2 \<le> k" "k \<le> n" "k div 2 = ?j" for k
    using that hole_orderD(1) [OF h, of k] ne at by (cases "k = i") auto
  then show "2 \<le> k \<Longrightarrow> k \<le> n \<Longrightarrow> k div 2 = ?j \<Longrightarrow> orderby (tp ! ?j) \<le> orderby (?t ! k)" .
  have "orderby (?t ! (k div 2)) \<le> orderby (?t ! k)"
    if "2 \<le> k" "k \<le> n" "k \<noteq> ?j" "k div 2 \<noteq> ?j" for k
    using that hole_orderD [OF h, of k] at i by (cases "k div 2 = i") auto
  moreover have "orderby (?t ! (?j div 2)) \<le> orderby (?t ! k)"
    if "1 < ?j" "2 \<le> k" "k \<le> n" "k div 2 = ?j" for k
  proof -
    have "orderby (tp ! (?j div 2)) \<le> orderby (tp ! ?j)"
      using that hole_orderD(1) [OF h, of ?j] ne i by auto
    then show ?thesis using sib [OF that(2-4)] at ne by auto
  qed
  ultimately show "hole_order orderby n ?t ?j" by (auto simp: hole_order_def)
qed

lemma heap_order_fill:
  assumes h: "hole_order orderby n tp i" and "1 \<le> i" "i \<le> n" "n < length tp"
    and up: "1 < i \<Longrightarrow> orderby (tp ! (i div 2)) \<le> orderby x"
    and down: "\<And>k. 2 \<le> k \<Longrightarrow> k \<le> n \<Longrightarrow> k div 2 = i \<Longrightarrow> orderby x \<le> orderby (tp ! k)"
  shows "heap_order orderby n (tp[i := x])"
  unfolding heap_order_def
proof
  fix k assume k: "k \<in> {2..n}"
  consider "k = i" | "k \<noteq> i" "k div 2 = i" | "k \<noteq> i" "k div 2 \<noteq> i" by blast
  then show "orderby (tp[i := x] ! (k div 2)) \<le> orderby (tp[i := x] ! k)"
  proof cases
    case 1
    then show ?thesis using k up assms(2-4) by auto
  next
    case 2
    then show ?thesis using k down assms(2-4) by auto
  next
    case 3
    then show ?thesis using k hole_orderD(1) [OF h, of k] by auto
  qed
qed

lemma heap_order_sift_up:
  assumes "1 \<le> i" "i \<le> n" "n < length tp" "hole_order orderby n tp i"
    and "\<And>k. 2 \<le> k \<Longrightarrow> k \<le> n \<Longrightarrow> k div 2 = i \<Longrightarrow> orderby el \<le> orderby (tp ! k)"
  shows "heap_order orderby n (sift_up orderby el i tp)"
  using assms
proof (induction orderby el i tp rule: sift_up.induct)
  case (1 orderby el i tp)
  show ?case
  proof (cases "i > 1 \<and> orderby (tp ! (i div 2)) > orderby el")
    case True
    note up = hole_order_up [OF "1.prems"(4) _ "1.prems"(2,3)]
    show ?thesis
      unfolding sift_up_step [OF True]
    proof (rule "1.IH" [OF True])
      show "1 \<le> i div 2" "i div 2 \<le> n" "n < length (tp[i := tp ! (i div 2)])"
        using True "1.prems" by auto
      show "hole_order orderby n (tp[i := tp ! (i div 2)]) (i div 2)" using True up(1) by simp
      show "orderby el \<le> orderby (tp[i := tp ! (i div 2)] ! k)"
        if "2 \<le> k" "k \<le> n" "k div 2 = i div 2" for k
        using True up(2) [OF _ that] by (auto intro: order_trans [OF less_imp_le])
    qed
  next
    case False
    show ?thesis
      unfolding sift_up_stop [OF False]
      by (rule heap_order_fill [OF "1.prems"(4,1,2,3)]) (use False "1.prems"(5) in auto)
  qed
qed

section \<open>Sift-down\<close>

lemma length_sift_down [simp]: "length (sift_down orderby n lst i tp) = length tp"
proof (induction orderby n lst i tp rule: sift_down.induct)
  case (1 orderby n lst i tp)
  then show ?case by (subst sift_down.simps) (simp add: Let_def)
qed

lemma sift_down_step:
  "0 < i \<Longrightarrow> i * 2 \<le> n \<Longrightarrow> orderby lst > orderby (tp ! min_child orderby n tp i) \<Longrightarrow>
   sift_down orderby n lst i tp =
     sift_down orderby n lst (min_child orderby n tp i) (tp[i := tp ! min_child orderby n tp i])"
  by (subst sift_down.simps) (simp add: Let_def)

lemma sift_down_stop:
  "\<not> (0 < i \<and> i * 2 \<le> n \<and> orderby lst > orderby (tp ! min_child orderby n tp i)) \<Longrightarrow>
   sift_down orderby n lst i tp = tp[i := lst]"
  by (subst sift_down.simps) (auto simp: Let_def)

lemma min_child_range: "0 < i \<Longrightarrow> i * 2 \<le> n \<Longrightarrow> min_child orderby n tp i \<in> {2..n} \<and>
    min_child orderby n tp i div 2 = i \<and> min_child orderby n tp i \<noteq> i"
  by (auto simp: min_child_def Let_def)

lemma min_child_le: "0 < i \<Longrightarrow> 2 \<le> k \<Longrightarrow> k \<le> n \<Longrightarrow> k div 2 = i \<Longrightarrow>
    orderby (tp ! min_child orderby n tp i) \<le> orderby (tp ! k)"
proof -
  assume k: "0 < i" "2 \<le> k" "k \<le> n" "k div 2 = i"
  then have "k = 2 * i \<or> k = 2 * i + 1" by presburger
  with k show ?thesis by (auto simp: min_child_def Let_def)
qed

lemma slots_sift_down:
  "1 \<le> i \<Longrightarrow> i \<le> n \<Longrightarrow> n < length tp \<Longrightarrow>
     slots (sift_down orderby n lst i tp) {1..n} = add_mset lst (slots tp ({1..n} - {i}))"
proof (induction orderby n lst i tp rule: sift_down.induct)
  case (1 orderby n lst i tp)
  let ?c = "min_child orderby n tp i"
  show ?case
  proof (cases "0 < i \<and> i * 2 \<le> n \<and> orderby lst > orderby (tp ! ?c)")
    case True
    then have c: "?c \<in> {2..n}" "?c \<noteq> i" using min_child_range [of i n orderby tp] by auto
    then have "slots (sift_down orderby n lst ?c (tp[i := tp ! ?c])) {1..n} =
        add_mset lst (slots (tp[i := tp ! ?c]) ({1..n} - {?c}))"
      using True "1.prems" by (intro "1.IH") auto
    also have "slots (tp[i := tp ! ?c]) ({1..n} - {?c}) = slots tp ({1..n} - {i})"
      using True c "1.prems" by (intro slots_move_hole) auto
    finally show ?thesis using True by (simp add: sift_down_step)
  next
    case False
    show ?thesis unfolding sift_down_stop [OF False] using "1.prems" by (intro slots_fill) auto
  qed
qed

lemma hole_order_down:
  assumes h: "hole_order orderby n tp i" and i: "0 < i" "i * 2 \<le> n" "n < length tp"
  defines "c \<equiv> min_child orderby n tp i"
  shows "hole_order orderby n (tp[i := tp ! c]) c"
proof -
  let ?t = "tp[i := tp ! c]"
  have c: "2 \<le> c" "c \<le> n" "c div 2 = i" "c \<noteq> i"
    using min_child_range [OF i(1,2), of orderby tp] by (auto simp: c_def)
  have at: "?t ! i = tp ! c" "\<And>m. m \<noteq> i \<Longrightarrow> ?t ! m = tp ! m" using i by auto
  have "orderby (?t ! (k div 2)) \<le> orderby (?t ! k)"
    if k: "2 \<le> k" "k \<le> n" "k \<noteq> c" "k div 2 \<noteq> c" for k
  proof -
    consider "k = i" | "k \<noteq> i" "k div 2 = i" | "k \<noteq> i" "k div 2 \<noteq> i" by blast
    then show ?thesis
    proof cases
      case 1
      then have "k div 2 \<noteq> i" using k by auto
      then show ?thesis using 1 k c hole_orderD(2) [OF h, of c] at by auto
    next
      case 2
      then show ?thesis using k min_child_le [OF i(1) k(1,2), of orderby tp] at by (auto simp: c_def)
    next
      case 3
      then show ?thesis using k hole_orderD(1) [OF h, of k] at by auto
    qed
  qed
  moreover have "orderby (?t ! (c div 2)) \<le> orderby (?t ! k)"
    if k: "2 \<le> k" "k \<le> n" "k div 2 = c" for k
  proof -
    have "k \<noteq> i" using k c by auto
    then show ?thesis using k c hole_orderD(1) [OF h, of k] at by auto
  qed
  ultimately show ?thesis by (auto simp: hole_order_def)
qed

lemma heap_order_sift_down:
  assumes "1 \<le> i" "i \<le> n" "n < length tp" "hole_order orderby n tp i"
    and "1 < i \<Longrightarrow> orderby (tp ! (i div 2)) \<le> orderby lst"
  shows "heap_order orderby n (sift_down orderby n lst i tp)"
  using assms
proof (induction orderby n lst i tp rule: sift_down.induct)
  case (1 orderby n lst i tp)
  let ?c = "min_child orderby n tp i"
  show ?case
  proof (cases "0 < i \<and> i * 2 \<le> n \<and> orderby lst > orderby (tp ! ?c)")
    case True
    then have c: "?c \<in> {2..n}" "?c div 2 = i" using min_child_range [of i n orderby tp] by auto
    have "heap_order orderby n (sift_down orderby n lst ?c (tp[i := tp ! ?c]))"
      using True c "1.prems" hole_order_down [OF "1.prems"(4)]
      by (intro "1.IH") auto
    then show ?thesis using True by (simp add: sift_down_step)
  next
    case False
    have "orderby lst \<le> orderby (tp ! k)" if "2 \<le> k" "k \<le> n" "k div 2 = i" for k
      using False "1.prems"(1) that min_child_le [of i k n orderby tp] by fastforce
    then show ?thesis
      unfolding sift_down_stop [OF False]
      using "1.prems" by (intro heap_order_fill) auto
  qed
qed

section \<open>The operations\<close>

lemma heap_order_mono_n: "heap_order orderby n tp \<Longrightarrow> m \<le> n \<Longrightarrow> heap_order orderby m tp"
  by (auto simp: heap_order_def)

lemma hole_order_new:
  assumes "heap_order orderby n tp" "\<And>k. 1 \<le> k \<Longrightarrow> k \<le> n \<Longrightarrow> tp' ! k = tp ! k"
  shows "hole_order orderby (n + 1) tp' (n + 1)"
  using assms unfolding hole_order_def heap_order_def by auto

lemma hole_order_root: "heap_order orderby n tp \<Longrightarrow> hole_order orderby n tp 1"
  unfolding hole_order_def heap_order_def by auto

definition insert_block :: "'a \<Rightarrow> 'a heap \<Rightarrow> 'a list" where
  "insert_block zero h =
     (if hn h + 1 \<ge> hsize h then grow_top zero (hn h + 1) (htop h) else htop h)"

lemma insert_block:
  assumes "heap_wf orderby h"
  shows "hn h + 1 < length (insert_block zero h)"
    and "1 \<le> k \<Longrightarrow> k \<le> hn h \<Longrightarrow> insert_block zero h ! k = htop h ! k"
    and "(if hn h + 1 \<ge> hsize h then hsize h + 1 else hsize h) \<le> length (insert_block zero h)"
  using assms unfolding insert_block_def heap_wf_def grow_top_def by (auto simp: nth_append)

lemma heap_insert_eq:
  assumes "mem \<or> hn h + 1 < hsize h"
  shows "heap_insert orderby zero mem h el =
    (0, \<lparr>hsize = (if hn h + 1 \<ge> hsize h then hsize h + 1 else hsize h), hn = hn h + 1,
        htop = sift_up orderby el (hn h + 1) (insert_block zero h)\<rparr>)"
  using assms
  by (auto simp: heap_insert_def Let_def insert_block_def sift_up_stop)

lemma heap_insert_nomem:
  "\<not> (mem \<or> hn h + 1 < hsize h) \<Longrightarrow> heap_insert orderby zero mem h el = (- 1, h)"
  by (simp add: heap_insert_def Let_def)

lemma heap_insert_correct:
  assumes wf: "heap_wf orderby h" and mem: "mem \<or> hn h + 1 < hsize h"
    and ins: "heap_insert orderby zero mem h el = (r, h')"
  shows "r = 0" "heap_wf orderby h'" "heap_elems h' = add_mset el (heap_elems h)"
proof -
  note blk = insert_block [OF wf, where zero = zero]
  let ?b = "insert_block zero h" and ?n = "hn h + 1"
  have h': "r = 0" "h' = \<lparr>hsize = (if ?n \<ge> hsize h then hsize h + 1 else hsize h), hn = ?n,
      htop = sift_up orderby el ?n ?b\<rparr>"
    using ins unfolding heap_insert_eq [OF mem] by auto
  show "r = 0" by (fact h')
  have "hole_order orderby ?n ?b ?n"
    using wf blk(2) by (intro hole_order_new) (auto simp: heap_wf_def)
  then have "heap_order orderby ?n (sift_up orderby el ?n ?b)"
    using blk(1) by (intro heap_order_sift_up) auto
  then show "heap_wf orderby h'"
    using blk(1,3) by (auto simp: heap_wf_def h')
  have "slots (sift_up orderby el ?n ?b) {1..?n} = add_mset el (slots ?b ({1..?n} - {?n}))"
    using blk(1) by (intro slots_sift_up) auto
  moreover have "{1..?n} - {?n} = {1..hn h}" by auto
  moreover have "slots ?b {1..hn h} = slots (htop h) {1..hn h}"
    by (rule slots_cong) (use blk(2) in auto)
  ultimately show "heap_elems h' = add_mset el (heap_elems h)"
    by (simp add: heap_elems_def h')
qed

lemma heap_peek_correct:
  assumes wf: "heap_wf orderby h" and peek: "heap_peek orderby h = (Some x, h')"
  shows "heap_wf orderby h'" "heap_elems h = add_mset x (heap_elems h')" "heap_first h = Some x"
proof -
  let ?n = "hn h - 1" and ?l = "htop h ! hn h"
  have n: "hn h > 0" and x: "x = htop h ! 1"
    and h': "h' = h\<lparr>hn := ?n, htop := sift_down orderby ?n ?l 1 (htop h)\<rparr>"
    using peek by (auto simp: heap_peek_def Let_def split: if_splits)
  have len: "hn h < length (htop h)" using wf n by (auto simp: heap_wf_def)
  have "heap_order orderby ?n (sift_down orderby ?n ?l 1 (htop h))"
  proof (cases "?n = 0")
    case False
    have "heap_order orderby ?n (htop h)"
      using wf by (auto simp: heap_wf_def intro: heap_order_mono_n [where n = "hn h"])
    then show ?thesis
      using False len by (intro heap_order_sift_down hole_order_root) auto
  qed (simp add: heap_order_def)
  then show "heap_wf orderby h'" using wf len n by (auto simp: heap_wf_def h')
  show "heap_first h = Some x" using n x by (simp add: heap_first_def)
  have "slots (sift_down orderby ?n ?l 1 (htop h)) {1..?n} = slots (htop h) ({1..hn h} - {1})"
  proof (cases "?n = 0")
    case False
    have "slots (sift_down orderby ?n ?l 1 (htop h)) {1..?n} =
        add_mset ?l (slots (htop h) ({1..?n} - {1}))"
      using False len by (intro slots_sift_down) auto
    also have "{1..?n} - {1} = {1..hn h} - {1} - {hn h}" using n by auto
    also have "add_mset ?l (slots (htop h) ({1..hn h} - {1} - {hn h})) = slots (htop h) ({1..hn h} - {1})"
      using False by (subst (2) slots_insert [of _ "hn h"]) auto
    finally show ?thesis .
  next
    case True
    then have e: "{1..hn h} - {1} = {}" "{1..?n} = {}" using n by auto
    show ?thesis unfolding e slots_def by simp
  qed
  moreover have "slots (htop h) {1..hn h} = add_mset x (slots (htop h) ({1..hn h} - {1}))"
    unfolding x using n by (intro slots_insert) auto
  ultimately show "heap_elems h = add_mset x (heap_elems h')" by (simp add: heap_elems_def h')
qed

lemma heap_root_least:
  assumes "heap_order orderby n tp" "1 \<le> k" "k \<le> n"
  shows "orderby (tp ! 1) \<le> orderby (tp ! k)"
  using assms(2,3)
proof (induction k rule: less_induct)
  case (less k)
  show ?case
  proof (cases "k = 1")
    case False
    with less.prems have k: "2 \<le> k" "k div 2 < k" "1 \<le> k div 2" "k div 2 \<le> n" by auto
    then have "orderby (tp ! 1) \<le> orderby (tp ! (k div 2))" by (intro less.IH)
    also have "\<dots> \<le> orderby (tp ! k)" using assms(1) k less.prems by (auto simp: heap_order_def)
    finally show ?thesis .
  qed simp
qed

lemma heap_first_least:
  assumes "heap_wf orderby h" "heap_first h = Some x" "y \<in># heap_elems h"
  shows "orderby x \<le> orderby y"
proof -
  from assms(3) obtain k where "1 \<le> k" "k \<le> hn h" "y = htop h ! k"
    by (auto simp: heap_elems_def slots_def)
  then show ?thesis using assms heap_root_least [of orderby "hn h" "htop h" k]
    by (auto simp: heap_wf_def heap_first_def split: if_splits)
qed

lemma heap_first_None: "heap_first h = None \<longleftrightarrow> heap_elems h = {#}"
  by (auto simp: heap_first_def heap_elems_def slots_def mset_set_empty_iff)

section \<open>The contract of a priority queue\<close>

text \<open>
  What the timer loop relies on. The last two lemmas are the client's: an undue first element
  means no element is due, and removing a due first element leaves fewer due ones.
\<close>

locale priority_queue =
  fixes qempty :: "'q"
    and qinsert :: "'a \<Rightarrow> 'q \<Rightarrow> 'q"
    and qfirst :: "'q \<Rightarrow> 'a option"
    and qpop :: "'q \<Rightarrow> 'q"
    and qelems :: "'q \<Rightarrow> 'a multiset"
    and qinv :: "'q \<Rightarrow> bool"
    and qkey :: "'a \<Rightarrow> 'k::linorder"
  assumes elems_empty: "qelems qempty = {#}"
    and inv_empty: "qinv qempty"
    and elems_insert: "qinv q \<Longrightarrow> qelems (qinsert x q) = add_mset x (qelems q)"
    and inv_insert: "qinv q \<Longrightarrow> qinv (qinsert x q)"
    and first_None: "qfirst q = None \<longleftrightarrow> qelems q = {#}"
    and first_least: "qinv q \<Longrightarrow> qfirst q = Some x \<Longrightarrow> y \<in># qelems q \<Longrightarrow> qkey x \<le> qkey y"
    and elems_pop: "qinv q \<Longrightarrow> qfirst q = Some x \<Longrightarrow> qelems q = add_mset x (qelems (qpop q))"
    and inv_pop: "qinv q \<Longrightarrow> qfirst q = Some x \<Longrightarrow> qinv (qpop q)"
begin

definition due :: "'k \<Rightarrow> 'q \<Rightarrow> 'a multiset" where
  "due t q = filter_mset (\<lambda>x. qkey x < t) (qelems q)"

lemma none_due:
  assumes "qinv q" "\<And>x. qfirst q = Some x \<Longrightarrow> \<not> qkey x < t"
  shows "due t q = {#}"
proof (cases "qfirst q")
  case None
  then show ?thesis by (simp add: due_def first_None)
next
  case (Some x)
  then have "\<not> qkey y < t" if "y \<in># qelems q" for y
    using first_least [OF assms(1) Some that] assms(2) [OF Some] by (meson le_less_trans)
  then show ?thesis by (auto simp: due_def filter_mset_eq_conv)
qed

lemma due_pop:
  assumes "qinv q" "qfirst q = Some x" "qkey x < t"
  shows "due t q = add_mset x (due t (qpop q))"
  using elems_pop [OF assms(1,2)] assms(3) by (simp add: due_def)

lemma due_insert: "qinv q \<Longrightarrow> \<not> qkey x < t \<Longrightarrow> due t (qinsert x q) = due t q"
  by (simp add: due_def elems_insert)

text \<open>Removing the first element until none is left yields the elements in key order.\<close>

fun pops :: "nat \<Rightarrow> 'q \<Rightarrow> 'a list" where
  "pops 0 q = []"
| "pops (Suc n) q = (case qfirst q of None \<Rightarrow> [] | Some x \<Rightarrow> x # pops n (qpop q))"

lemma mset_pops: "qinv q \<Longrightarrow> size (qelems q) \<le> n \<Longrightarrow> mset (pops n q) = qelems q"
  by (induction n arbitrary: q)
    (auto split: option.splits simp: first_None elems_pop inv_pop)

lemma sorted_pops: "qinv q \<Longrightarrow> size (qelems q) \<le> n \<Longrightarrow> sorted (map qkey (pops n q))"
proof (induction n arbitrary: q)
  case (Suc n)
  show ?case
  proof (cases "qfirst q")
    case (Some x)
    have q: "qinv (qpop q)" "qelems q = add_mset x (qelems (qpop q))"
      using Suc.prems Some by (auto intro: inv_pop elems_pop)
    then have m: "mset (pops n (qpop q)) = qelems (qpop q)" using Suc.prems by (intro mset_pops) auto
    have "qkey x \<le> qkey y" if "y \<in> set (pops n (qpop q))" for y
      using that first_least [OF Suc.prems(1) Some, of y] q(2) by (simp flip: m)
    then show ?thesis using Some Suc q by auto
  qed simp
qed simp

end

definition hinsert :: "('a \<Rightarrow> 'k::linorder) \<Rightarrow> 'a \<Rightarrow> 'a \<Rightarrow> 'a heap \<Rightarrow> 'a heap" where
  "hinsert orderby zero x h = snd (heap_insert orderby zero True h x)"

definition hpop :: "('a \<Rightarrow> 'k::linorder) \<Rightarrow> 'a heap \<Rightarrow> 'a heap" where
  "hpop orderby h = snd (heap_peek orderby h)"

lemma heap_peek_some: "heap_first h = Some x \<Longrightarrow> heap_peek orderby h = (Some x, hpop orderby h)"
  by (auto simp: heap_first_def heap_peek_def hpop_def Let_def split: if_splits)

interpretation hq: priority_queue heap_init "hinsert orderby zero" heap_first "hpop orderby"
  heap_elems "heap_wf orderby" orderby for orderby :: "'a \<Rightarrow> 'k::linorder" and zero :: 'a
proof (unfold_locales, goal_cases)
  case 1
  show ?case by (simp add: heap_init_def heap_elems_def slots_def)
next
  case 2
  show ?case by (simp add: heap_init_def heap_wf_def heap_order_def)
next
  case (3 q x)
  then show ?case using heap_insert_correct(3) [of orderby q True zero x]
    by (simp add: hinsert_def prod_eq_iff)
next
  case (4 q x)
  then show ?case using heap_insert_correct(2) [of orderby q True zero x]
    by (simp add: hinsert_def prod_eq_iff)
next
  case (5 q)
  show ?case by (rule heap_first_None)
next
  case (6 q x y)
  then show ?case by (rule heap_first_least)
next
  case (7 q x)
  then show ?case using heap_peek_some heap_peek_correct(2) by fast
next
  case (8 q x)
  then show ?case using heap_peek_some heap_peek_correct(1) by fast
qed

end
