(* ===== verification/PicoTimers.thy ===== *)
theory PicoTimers
  imports PicoHeap
begin

text \<open>
  The timer service, the sequence-number comparison, the loop-score controller and the
  pseudo-random generator of \<^verbatim>\<open>stack/pico_stack.c\<close>. Timers live in the heap of
  \<open>PicoHeap\<close>, ordered by expiry. A callback's effect on the timer state is the list of
  \<^verbatim>\<open>pico_timer_add\<close> / \<^verbatim>\<open>pico_timer_cancel\<close> calls it makes.
\<close>

section \<open>Timers\<close>

record 'f timer_ref =
  expire :: u64
  tid :: u32
  tmr :: "'f option"

record 'f timers =
  Timers :: "'f timer_ref heap"
  tmr_id :: u32

definition zero_tref :: "'f timer_ref" where
  "zero_tref = \<lparr>expire = 0, tid = 0, tmr = None\<rparr>"

text \<open>
  \<^verbatim>\<open>pico_timer_add\<close>: \<open>now\<close> is \<^verbatim>\<open>PICO_TIME_MS()\<close>; \<open>mem\<close> and \<open>hmem\<close> tell
  whether the timer and the heap block can be allocated. The result of
  \<^verbatim>\<open>heap_insert\<close> is not looked at, as in the code.
\<close>

definition pico_timer_add ::
  "u32 \<Rightarrow> bool \<Rightarrow> bool \<Rightarrow> u64 \<Rightarrow> 'f \<Rightarrow> 'f timers \<Rightarrow> u32 \<times> 'f timers" where
  "pico_timer_add now mem hmem delay timer st =
     (let id = (if tmr_id st = 0 then 1 else tmr_id st) in
      if \<not> mem then (0, st\<lparr>tmr_id := id\<rparr>)
      else let tref = \<lparr>expire = ucast now + delay, tid = id, tmr = Some timer\<rparr>;
               (_, h) = heap_insert expire zero_tref hmem (Timers st) tref
           in (id, \<lparr>Timers = h, tmr_id = id + 1\<rparr>))"

text \<open>\<^verbatim>\<open>pico_timer_cancel\<close>: the first reference with that id loses its timer.\<close>

definition cancel_index :: "u32 \<Rightarrow> 'f timer_ref heap \<Rightarrow> nat option" where
  "cancel_index ident h = find (\<lambda>i. tid (htop h ! i) = ident) [1..<Suc (hn h)]"

definition pico_timer_cancel :: "u32 \<Rightarrow> 'f timers \<Rightarrow> 'f timers" where
  "pico_timer_cancel ident st =
     (if ident = 0 then st
      else case cancel_index ident (Timers st) of
             None \<Rightarrow> st
           | Some i \<Rightarrow> st\<lparr>Timers := (Timers st)\<lparr>htop :=
                 (htop (Timers st))[i := (htop (Timers st) ! i)\<lparr>tmr := None\<rparr>]\<rparr>\<rparr>)"

datatype 'f tmr_op = AddT u32 u64 'f | CancelT u32

fun exec_op :: "'f tmr_op \<Rightarrow> 'f timers \<Rightarrow> 'f timers" where
  "exec_op (AddT now delay f) st = snd (pico_timer_add now True True delay f st)"
| "exec_op (CancelT ident) st = pico_timer_cancel ident st"

text \<open>
  \<^verbatim>\<open>pico_check_timers\<close>; \<open>run tick f\<close> is what callback \<open>f\<close> does when it is called at
  \<open>tick\<close>. The loop also returns the references it popped, in order.
\<close>

partial_function (option) check_loop ::
  "(u64 \<Rightarrow> 'f \<Rightarrow> 'f tmr_op list) \<Rightarrow> u64 \<Rightarrow> 'f timers \<Rightarrow> 'f timer_ref list
   \<Rightarrow> ('f timers \<times> 'f timer_ref list) option" where
  "check_loop run tick st fired =
     (case heap_first (Timers st) of
        None \<Rightarrow> Some (st, fired)
      | Some tref \<Rightarrow>
          if expire tref < tick then
            let st1 = (case tmr tref of None \<Rightarrow> st | Some f \<Rightarrow> fold exec_op (run tick f) st);
                st2 = st1\<lparr>Timers := snd (heap_peek expire (Timers st1))\<rparr>
            in check_loop run tick st2 (fired @ [tref])
          else Some (st, fired))"

definition pico_check_timers ::
  "(u64 \<Rightarrow> 'f \<Rightarrow> 'f tmr_op list) \<Rightarrow> u32 \<Rightarrow> 'f timers \<Rightarrow> ('f timers \<times> 'f timer_ref list) option" where
  "pico_check_timers run now st = check_loop run (ucast now) st []"

definition timers_ok :: "'f timers \<Rightarrow> bool" where
  "timers_ok st \<longleftrightarrow> heap_wf expire (Timers st)"

definition stamp :: "'f timer_ref \<Rightarrow> u64 \<times> u32" where
  "stamp r = (expire r, tid r)"

text \<open>The due references, by expiry time and id.\<close>

definition due_stamps :: "u64 \<Rightarrow> 'f timers \<Rightarrow> (u64 \<times> u32) multiset" where
  "due_stamps t st = filter_mset (\<lambda>(e, _). e < t) (image_mset stamp (heap_elems (Timers st)))"

lemma nth_update_invisible:
  assumes "\<And>x. g (f x) = g x"
  shows "g (xs[i := f (xs ! i)] ! k) = g (xs ! k)"
proof (cases "i < length xs")
  case True
  then show ?thesis using assms by (cases "k = i") simp_all
next
  case False
  then show ?thesis by (simp add: list_update_beyond)
qed

lemma clear_tmr:
  "expire (xs[i := (xs ! i)\<lparr>tmr := None\<rparr>] ! k) = expire (xs ! k)"
  "tid (xs[i := (xs ! i)\<lparr>tmr := None\<rparr>] ! k) = tid (xs ! k)"
  by (rule nth_update_invisible, simp)+

lemma cancel_keeps:
  "timers_ok st \<Longrightarrow> timers_ok (pico_timer_cancel ident st)"
  "image_mset stamp (heap_elems (Timers (pico_timer_cancel ident st))) =
     image_mset stamp (heap_elems (Timers st))"
proof -
  show "timers_ok st \<Longrightarrow> timers_ok (pico_timer_cancel ident st)"
    by (simp add: timers_ok_def pico_timer_cancel_def heap_wf_def heap_order_def clear_tmr
        split: option.split)
  show "image_mset stamp (heap_elems (Timers (pico_timer_cancel ident st))) =
      image_mset stamp (heap_elems (Timers st))"
    by (simp add: pico_timer_cancel_def heap_elems_def slots_def multiset.map_comp comp_def stamp_def clear_tmr
        split: option.split)
qed

lemma add_keeps:
  assumes "timers_ok st"
  shows "timers_ok (snd (pico_timer_add now True True delay f st))"
    and "heap_elems (Timers (snd (pico_timer_add now True True delay f st))) =
      add_mset \<lparr>expire = ucast now + delay, tid = (if tmr_id st = 0 then 1 else tmr_id st), tmr = Some f\<rparr>
        (heap_elems (Timers st))"
  using assms heap_insert_correct(2,3) [of expire "Timers st" True zero_tref]
  by (auto simp: timers_ok_def pico_timer_add_def Let_def split: prod.splits)

lemma sift_up_keeps_root:
  "1 < i \<Longrightarrow> orderby (tp ! 1) \<le> orderby el \<Longrightarrow> sift_up orderby el i tp ! 1 = tp ! 1"
proof (induction orderby el i tp rule: sift_up.induct)
  case (1 orderby el i tp)
  show ?case
  proof (cases "i > 1 \<and> orderby (tp ! (i div 2)) > orderby el")
    case True
    then have "i div 2 \<noteq> 1" using "1.prems" by (metis not_le)
    then have "1 < i div 2" using True by auto
    then show ?thesis
      unfolding sift_up_step [OF True] using "1.IH" [OF True] "1.prems" by simp
  next
    case False
    show ?thesis unfolding sift_up_stop [OF False] using "1.prems" by simp
  qed
qed

fun safe_op :: "u64 \<Rightarrow> 'f tmr_op \<Rightarrow> bool" where
  "safe_op tick (AddT now delay f) = (tick \<le> ucast now + delay)"
| "safe_op tick (CancelT ident) = True"

lemma exec_op_ok: "timers_ok st \<Longrightarrow> timers_ok (exec_op a st)"
  by (cases a) (simp_all add: add_keeps cancel_keeps)

lemma exec_op_due: "timers_ok st \<Longrightarrow> safe_op tick a \<Longrightarrow> due_stamps tick (exec_op a st) = due_stamps tick st"
  by (cases a) (auto simp: due_stamps_def add_keeps cancel_keeps stamp_def)

lemma exec_op_first:
  assumes "timers_ok st" "safe_op tick a" "heap_first (Timers st) = Some r" "expire r < tick"
  obtains r' where "heap_first (Timers (exec_op a st)) = Some r'" "stamp r' = stamp r"
proof (cases a)
  case (AddT now delay f)
  let ?h = "Timers st" and ?e = "ucast now + delay"
  have n: "hn ?h > 0" and r: "r = htop ?h ! 1" using assms(3) by (auto simp: heap_first_def split: if_splits)
  have blk: "insert_block zero_tref ?h ! 1 = htop ?h ! 1"
    using assms(1) n by (intro insert_block(2) [of expire]) (auto simp: timers_ok_def)
  have "expire r \<le> ?e" using assms(2,4) AddT by simp
  then have "heap_first (Timers (exec_op a st)) = Some r"
    using n AddT blk r
    by (simp add: pico_timer_add_def Let_def heap_insert_eq heap_first_def
        sift_up_keeps_root [unfolded One_nat_def])
  then show ?thesis using that by blast
next
  case (CancelT ident)
  have "\<exists>r'. heap_first (Timers (pico_timer_cancel ident st)) = Some r' \<and> stamp r' = stamp r"
    using assms(3)
    by (auto simp: pico_timer_cancel_def heap_first_def stamp_def clear_tmr
        split: if_split if_split_asm option.split)
  then show ?thesis using CancelT that by auto
qed

lemma fold_exec_op:
  assumes "timers_ok st" "\<forall>a\<in>set ops. safe_op tick a"
    and "heap_first (Timers st) = Some r" "expire r < tick"
  shows "timers_ok (fold exec_op ops st) \<and> due_stamps tick (fold exec_op ops st) = due_stamps tick st \<and>
    (\<exists>r'. heap_first (Timers (fold exec_op ops st)) = Some r' \<and> stamp r' = stamp r)"
  using assms
proof (induction ops arbitrary: st r)
  case (Cons a ops)
  from Cons.prems obtain r' where r': "heap_first (Timers (exec_op a st)) = Some r'" "stamp r' = stamp r"
    using exec_op_first [of st tick a r] by auto
  then have "expire r' < tick" using Cons.prems(4) by (simp add: stamp_def)
  with Cons.IH [of "exec_op a st" r'] Cons.prems r' show ?case
    by (simp add: exec_op_ok exec_op_due)
qed auto

lemma due_stamps_pop:
  assumes "timers_ok st" "heap_first (Timers st) = Some r" "expire r < tick"
  defines "st2 \<equiv> st\<lparr>Timers := snd (heap_peek expire (Timers st))\<rparr>"
  shows "timers_ok st2" "due_stamps tick st = add_mset (stamp r) (due_stamps tick st2)"
  using assms hq.inv_pop [of expire "Timers st" r] hq.elems_pop [of expire "Timers st" r]
  by (auto simp: timers_ok_def due_stamps_def stamp_def hpop_def)

text \<open>The loop returns; it pops exactly the due references, by expiry.\<close>

lemma check_loop_correct:
  assumes "timers_ok st" "\<And>f a. a \<in> set (run tick f) \<Longrightarrow> safe_op tick a"
  shows "\<exists>st' fs. check_loop run tick st fired = Some (st', fired @ fs) \<and> timers_ok st' \<and>
    image_mset stamp (mset fs) = due_stamps tick st \<and> due_stamps tick st' = {#} \<and>
    sorted (map expire fs)"
  using assms(1)
proof (induction "size (due_stamps tick st)" arbitrary: st fired rule: less_induct)
  case less
  show ?case
  proof (cases "\<exists>r. heap_first (Timers st) = Some r \<and> expire r < tick")
    case False
    have "due_stamps tick st = image_mset stamp (hq.due expire tick (Timers st))"
      by (simp add: due_stamps_def hq.due_def filter_mset_image_mset stamp_def)
    also have "\<dots> = {#}"
      using False less.prems hq.none_due [of expire "Timers st" tick] by (auto simp: timers_ok_def)
    finally show ?thesis
      using False less.prems by (subst check_loop.simps) (auto split: option.split)
  next
    case True
    then obtain r where r: "heap_first (Timers st) = Some r" "expire r < tick" by blast
    define st1 where "st1 = (case tmr r of None \<Rightarrow> st | Some f \<Rightarrow> fold exec_op (run tick f) st)"
    define st2 where "st2 = st1\<lparr>Timers := snd (heap_peek expire (Timers st1))\<rparr>"
    have "timers_ok st1 \<and> due_stamps tick st1 = due_stamps tick st \<and>
        (\<exists>r'. heap_first (Timers st1) = Some r' \<and> stamp r' = stamp r)"
      using fold_exec_op [OF less.prems _ r] assms(2) less.prems r
      by (auto simp: st1_def split: option.split)
    then obtain r' where st1: "timers_ok st1" "due_stamps tick st1 = due_stamps tick st"
      and r': "heap_first (Timers st1) = Some r'" "stamp r' = stamp r" by blast
    then have "expire r' < tick" using r(2) by (simp add: stamp_def)
    from due_stamps_pop [OF st1(1) r'(1) this]
    have st2: "timers_ok st2" "due_stamps tick st = add_mset (stamp r) (due_stamps tick st2)"
      using st1(2) r'(2) by (simp_all add: st2_def)
    then have "size (due_stamps tick st2) < size (due_stamps tick st)" by simp
    from less.hyps [OF this st2(1), of "fired @ [r]"] obtain st' fs where
      IH: "check_loop run tick st2 (fired @ [r]) = Some (st', fired @ [r] @ fs)" "timers_ok st'"
        "image_mset stamp (mset fs) = due_stamps tick st2" "due_stamps tick st' = {#}"
        "sorted (map expire fs)" by auto
    have "check_loop run tick st fired = Some (st', fired @ [r] @ fs)"
      using r IH(1) by (subst check_loop.simps) (simp add: st1_def st2_def Let_def)
    moreover have "expire r \<le> expire x" if "x \<in> set fs" for x
    proof -
      have "stamp x \<in># due_stamps tick st2" using that IH(3) by (metis image_eqI set_image_mset set_mset_mset)
      then have "stamp x \<in># due_stamps tick st" using st2(2) by simp
      then obtain y where "y \<in># heap_elems (Timers st)" "stamp y = stamp x"
        by (auto simp: due_stamps_def)
      then show ?thesis
        using heap_first_least [of expire "Timers st" r y] less.prems r(1)
        by (simp add: timers_ok_def stamp_def)
    qed
    ultimately show ?thesis using IH(2-5) st2(2) by (intro exI [of _ st'] exI [of _ "r # fs"]) auto
  qed
qed


definition example_timers :: "nat timers" where
  "example_timers = exec_op (AddT 10 5 0) (exec_op (AddT 10 2 1) \<lparr>Timers = heap_init, tmr_id = 0\<rparr>)"


end
