(* ===== verification/PicoStack.thy ===== *)
theory PicoStack
  imports Prelude
begin

text \<open>
  Helpers of \<^verbatim>\<open>stack/pico_stack.c\<close>: the pseudo-random generator, the modular comparison
  of sequence numbers, and the controller \<^verbatim>\<open>calc_score\<close> that adapts how much work each
  protocol loop may do per tick.
\<close>

section \<open>Random seed\<close>

definition pico_rand_feed :: "u32 \<Rightarrow> u32 \<Rightarrow> u32" where
  "pico_rand_feed feed seed =
     (if feed = 0 then seed else (seed * 1664525 + 1013904223) XOR (NOT feed))"

definition pico_rand :: "u64 \<Rightarrow> u32 \<Rightarrow> u32 \<times> u32" where
  "pico_rand tick seed = (let s = pico_rand_feed (ucast tick) seed in (s, s))"

definition pico_to_lowercase :: "string \<Rightarrow> string" where
  "pico_to_lowercase str =
     map (\<lambda>c. if of_char c \<le> (90 :: nat) \<and> of_char c \<ge> (65 :: nat)
              then char_of ((of_char c :: nat) + 32) else c) str"

text \<open>feeding the generator loses nothing: for every feed the new seed determines the old
  one (the multiplier is odd, so multiplication by it is a permutation of the 32-bit words).\<close>

theorem pico_rand_feed_inj: "inj (pico_rand_feed feed)"
proof (rule injI)
  fix s t assume eq: "pico_rand_feed feed s = pico_rand_feed feed t"
  show "s = t"
  proof (cases "feed = 0")
    case False
    have cancel: "x = y" if "x XOR c = y XOR c" for x y c :: u32
      using arg_cong [OF that, of "\<lambda>z. z XOR c"] by (simp add: xor.assoc)
    have unit: "(4276115653 :: u32) * 1664525 = 1" by simp
    have inv: "(4276115653 :: u32) * (1664525 * x) = x" for x
      by (simp only: mult.assoc [symmetric] unit mult_1)
    have "s * 1664525 + 1013904223 = t * 1664525 + (1013904223 :: u32)"
      by (rule cancel [of _ "NOT feed"]) (use eq False in \<open>simp only: pico_rand_feed_def if_False\<close>)
    then have "1664525 * s = 1664525 * t" by (simp add: mult.commute)
    then show ?thesis using inv [of s] inv [of t] by metis
  qed (use eq in \<open>simp add: pico_rand_feed_def\<close>)
qed

section \<open>Sequence numbers\<close>

text \<open>A C cast to \<^verbatim>\<open>int32_t\<close> is \<open>sint\<close>; the negation wraps in 32 bits.\<close>

definition pico_seq_compare :: "u32 \<Rightarrow> u32 \<Rightarrow> int" where
  "pico_seq_compare a b =
     (let thresh = drop_bit 1 (- 1 :: u32) in
      if a > b then
        (if a - b > thresh then sint (- (b - a)) else sint (a - b))
      else if a < b then
        (if b - a > thresh then sint (a - b) else sint (- (b - a)))
      else 0)"

lemma pico_seq_compare_sint: "pico_seq_compare a b = sint (a - b)"
  by (auto simp: pico_seq_compare_def Let_def)

lemma seq_compare_window:
  assumes "i < 2 ^ 31" "j < 2 ^ 31"
  shows "pico_seq_compare (s + of_nat i) (s + of_nat j) = int i - int j"
proof -
  have "(s + of_nat i) - (s + of_nat j) = (of_int (int i - int j) :: u32)" by simp
  moreover have "sint (of_int (int i - int j) :: u32) = int i - int j"
    using assms by (subst sint_sbintrunc') (auto intro!: signed_take_bit_int_eq_self)
  ultimately show ?thesis by (simp only: pico_seq_compare_sint)
qed

text \<open>C16: inside any window of less than 2^31 sequence numbers, wherever the 32-bit counter
  wraps, the comparison is the exact signed distance between the two positions.\<close>

theorem pico_seq_compare_window:
  assumes "i < 2 ^ 31" "j < 2 ^ 31"
  shows "pico_seq_compare (s + of_nat i) (s + of_nat j) = int i - int j"
  by (rule seq_compare_window [OF assms])

theorem pico_seq_compare_window_witness:
  "(5 :: nat) < 2 ^ 31 \<and> (2 :: nat) < 2 ^ 31 \<and>
   pico_seq_compare (0xFFFFFFFD + of_nat 5) (0xFFFFFFFD + of_nat 2) = int 5 - int 2"
  using pico_seq_compare_window [of 5 2 "0xFFFFFFFD"] by simp

section \<open>Loop scores\<close>

definition PROTO_MIN_SCORE :: int where "PROTO_MIN_SCORE = 32"
definition PROTO_MAX_SCORE :: int where "PROTO_MAX_SCORE = 128"
definition PROTO_MAX_LOOP :: int where "PROTO_MAX_LOOP = PROTO_MAX_SCORE * 8"
definition PROTO_DEF_AVG_NR :: nat where "PROTO_DEF_AVG_NR = 4"

text \<open>C division of \<^verbatim>\<open>int\<close> truncates towards zero.\<close>

definition c_div :: "int \<Rightarrow> int \<Rightarrow> int" where
  "c_div a b = sgn a * sgn b * (\<bar>a\<bar> div \<bar>b\<bar>)"

record proto_score =
  score :: int
  index :: nat
  avg :: "int list"

text \<open>One iteration of the \<^verbatim>\<open>for\<close> loop; \<open>tot\<close> (the code's \<^verbatim>\<open>total\<close>) is threaded through.\<close>

definition record_avg :: "int \<Rightarrow> proto_score \<Rightarrow> proto_score" where
  "record_avg temp p =
     (let j = (if index p \<ge> PROTO_DEF_AVG_NR then 0 else index p)
      in p\<lparr>index := j + 1, avg := (avg p)[j := temp]\<rparr>)"

definition calc_score_step :: "int \<Rightarrow> proto_score \<Rightarrow> int \<Rightarrow> proto_score \<times> int" where
  "calc_score_step ret p tot =
     (if ret < score p then
        let p = record_avg (score p - ret) p; sc = score p in
        if ret = 0 \<and> sc * 2 \<le> PROTO_MAX_SCORE \<and> tot + sc * 2 < PROTO_MAX_LOOP
        then (p\<lparr>score := sc * 2\<rparr>, tot + sc * 2)
        else
          let sm = c_div (sum_list (avg p)) 4 in
          if sm > sc - c_div sc 4 \<and> sc * 2 \<le> PROTO_MAX_SCORE \<and> tot + c_div sc 2 < PROTO_MAX_LOOP
          then (p\<lparr>score := sc * 2\<rparr>, tot + sc * 2)
          else if sm < c_div sc 4 \<and> c_div sc 2 \<ge> PROTO_MIN_SCORE
          then (p\<lparr>score := c_div sc 2\<rparr>, tot + c_div sc 2)
          else (p, tot + sc)
      else if ret = score p then
        let p = record_avg 0 p; sc = score p; sm = c_div (sum_list (avg p)) 2 in
        if sm = 0 \<and> c_div sc 2 \<ge> PROTO_MIN_SCORE
        then (p\<lparr>score := c_div sc 2, avg := replicate PROTO_DEF_AVG_NR (c_div sc 2)\<rparr>, tot + c_div sc 2)
        else (p, tot)
      else (p, tot))"

fun calc_score_loop :: "int list \<Rightarrow> proto_score list \<Rightarrow> int \<Rightarrow> proto_score list" where
  "calc_score_loop (r # rs) (p # ps) tot =
     (let (p', tot_n) = calc_score_step r p tot in p' # calc_score_loop rs ps tot_n)"
| "calc_score_loop _ ps tot = ps"

definition calc_score :: "int list \<Rightarrow> proto_score list \<Rightarrow> proto_score list" where
  "calc_score ret ps = calc_score_loop ret ps 0"

definition score_ok :: "proto_score \<Rightarrow> bool" where
  "score_ok p \<longleftrightarrow> score p \<in> {32, 64, 128} \<and> index p \<le> PROTO_DEF_AVG_NR \<and> length (avg p) = PROTO_DEF_AVG_NR"

definition initial_scores :: "proto_score list" where
  "initial_scores = replicate 11 \<lparr>score = 32, index = 0, avg = replicate 4 0\<rparr>"

lemma score_ok_record_avg: "score_ok p \<Longrightarrow> score_ok (record_avg x p) \<and> score (record_avg x p) = score p"
  by (auto simp: score_ok_def record_avg_def Let_def PROTO_DEF_AVG_NR_def)

lemma score_ok_halve: "score_ok p \<Longrightarrow> c_div (score p) 2 \<ge> PROTO_MIN_SCORE \<Longrightarrow>
    score_ok (p\<lparr>score := c_div (score p) 2\<rparr>)"
  by (auto simp: score_ok_def c_div_def PROTO_MIN_SCORE_def)

lemma score_ok_double: "score_ok p \<Longrightarrow> score p * 2 \<le> PROTO_MAX_SCORE \<Longrightarrow>
    score_ok (p\<lparr>score := score p * 2\<rparr>)"
  by (auto simp: score_ok_def PROTO_MAX_SCORE_def)

lemma score_ok_avg: "score_ok p \<Longrightarrow> score_ok (p\<lparr>avg := replicate PROTO_DEF_AVG_NR x\<rparr>)"
  by (simp add: score_ok_def)

lemma score_ok_step: "score_ok p \<Longrightarrow> score_ok (fst (calc_score_step ret p tot))"
  using score_ok_record_avg [of p "score p - ret"] score_ok_record_avg [of p 0]
    score_ok_halve [of "record_avg (score p - ret) p"] score_ok_double [of "record_avg (score p - ret) p"]
    score_ok_avg [OF score_ok_halve [of "record_avg 0 p"]]
  by (auto simp: calc_score_step_def Let_def)

text \<open>whatever the loops return, every protocol's score stays 32, 64 or 128, and the index
  into its averaging window and the window's length stay in bounds.\<close>

theorem calc_score_in_range:
  assumes "list_all score_ok ps"
  shows "list_all score_ok (calc_score ret ps) \<and> length (calc_score ret ps) = length ps"
proof -
  have "list_all score_ok (calc_score_loop ret ps t) \<and> length (calc_score_loop ret ps t) = length ps"
    for t
    using assms
  proof (induction ret ps t rule: calc_score_loop.induct)
    case (1 r rs p ps tot)
    then show ?case using score_ok_step [of p r tot] by (auto split: prod.splits)
  qed auto
  then show ?thesis by (simp add: calc_score_def)
qed

theorem calc_score_in_range_witness:
  "list_all score_ok initial_scores \<and>
   list_all score_ok (calc_score (replicate 11 0) initial_scores) \<and>
   length (calc_score (replicate 11 0) initial_scores) = length initial_scores"
proof -
  have "list_all score_ok initial_scores"
    by (simp add: initial_scores_def score_ok_def PROTO_DEF_AVG_NR_def list_all_iff)
  then show ?thesis using calc_score_in_range [of initial_scores "replicate 11 0"] by blast
qed

end
