(* ===== verification/PicoStrings.thy ===== *)
theory PicoStrings
  imports Prelude
begin

text \<open>
  The string helpers of \<^verbatim>\<open>modules/pico_strings.c\<close> and the character tests of
  \<^verbatim>\<open>include/pico_frame.h\<close>. A NUL-terminated C string is its list of characters, the
  terminator being read at the position after the last one; a buffer is a list of fixed length.
\<close>

abbreviation NUL :: char where "NUL \<equiv> CHR 0x00"

definition cget :: "string \<Rightarrow> nat \<Rightarrow> char" where
  "cget s i = (if i < length s then s ! i else NUL)"

definition no_nul :: "string \<Rightarrow> bool" where
  "no_nul s \<longleftrightarrow> NUL \<notin> set s"

section \<open>Characters\<close>

definition ch :: "char \<Rightarrow> nat" where
  "ch c = of_char c"

lemma ch_inject [simp]: "ch c = ch d \<longleftrightarrow> c = d"
  by (simp add: ch_def)

lemma ch_less [simp]: "ch c < 256"
  by (simp add: ch_def)

lemma ch_NUL [simp]: "ch NUL = 0"
  by (simp add: ch_def)

lemma ch_0_iff [simp]: "ch c = 0 \<longleftrightarrow> c = NUL"
  by (metis ch_NUL ch_inject)

text \<open>\<^verbatim>\<open>char\<close> is signed on the target: the bytes above 127 are negative, so not digits.\<close>

definition pico_is_digit :: "char \<Rightarrow> bool" where
  "pico_is_digit c \<longleftrightarrow> ch c \<ge> 48 \<and> ch c \<le> 57"

definition pico_is_hex :: "char \<Rightarrow> bool" where
  "pico_is_hex c \<longleftrightarrow> (ch c \<ge> 48 \<and> ch c \<le> 57) \<or> (ch c \<ge> 97 \<and> ch c \<le> 102) \<or> (ch c \<ge> 65 \<and> ch c \<le> 70)"

text \<open>\<^verbatim>\<open>toupper\<close> of the C locale.\<close>

definition c_toupper :: "char \<Rightarrow> nat" where
  "c_toupper c = (if ch c \<ge> 97 \<and> ch c \<le> 122 then ch c - 32 else ch c)"

lemma c_toupper_NUL [simp]: "c_toupper NUL = 0"
  by (simp add: c_toupper_def)

lemma c_toupper_0 [simp]: "c_toupper c = 0 \<longleftrightarrow> c = NUL"
  by (auto simp: c_toupper_def)

section \<open>Lengths and comparison\<close>

fun strnlen_loop :: "string \<Rightarrow> nat \<Rightarrow> nat \<Rightarrow> nat" where
  "strnlen_loop str len 0 = len"
| "strnlen_loop str len (Suc k) = (if cget str len \<noteq> NUL then strnlen_loop str (len + 1) k else len)"

definition pico_strnlen :: "string option \<Rightarrow> nat \<Rightarrow> nat" where
  "pico_strnlen str n = (case str of None \<Rightarrow> 0 | Some s \<Rightarrow> strnlen_loop s 0 n)"

definition get_string_terminator_position :: "string \<Rightarrow> nat \<Rightarrow> nat option" where
  "get_string_terminator_position block len =
     (let n = pico_strnlen (Some block) len in if len \<noteq> n then Some n else None)"

fun strncasecmp_loop :: "string \<Rightarrow> string \<Rightarrow> nat \<Rightarrow> nat \<Rightarrow> int" where
  "strncasecmp_loop str1 str2 i 0 = 1"
| "strncasecmp_loop str1 str2 i (Suc k) =
     (let ch1 = c_toupper (cget str1 i); ch2 = c_toupper (cget str2 i) in
      if ch1 < ch2 then - 1
      else if ch1 > ch2 then 1
      else if ch1 = 0 \<and> ch2 = 0 then 0
      else strncasecmp_loop str1 str2 (i + 1) k)"

definition pico_strncasecmp :: "string \<Rightarrow> string \<Rightarrow> nat \<Rightarrow> int" where
  "pico_strncasecmp str1 str2 n = strncasecmp_loop str1 str2 0 n"

lemma strnlen_loop_eq:
  "no_nul s \<Longrightarrow> len \<le> length s \<Longrightarrow> strnlen_loop s len k = min (length s) (len + k)"
proof (induction s len k rule: strnlen_loop.induct)
  case (2 str len k)
  then show ?case by (cases "len < length str") (auto simp: cget_def no_nul_def in_set_conv_nth)
qed simp

lemma pico_strnlen_eq: "no_nul s \<Longrightarrow> pico_strnlen (Some s) n = min (length s) n"
  by (simp add: pico_strnlen_def strnlen_loop_eq)

lemma cget_eq_NUL: "no_nul s \<Longrightarrow> cget s i = NUL \<longleftrightarrow> length s \<le> i"
  by (auto simp: cget_def no_nul_def in_set_conv_nth)

text \<open>The loop from position \<open>i\<close> as a comparison of the remaining suffixes.\<close>

fun up0 :: "string \<Rightarrow> nat" where
  "up0 [] = 0"
| "up0 (c # _) = c_toupper c"

fun suffix_cmp :: "string \<Rightarrow> string \<Rightarrow> nat \<Rightarrow> int" where
  "suffix_cmp s t 0 = 1"
| "suffix_cmp s t (Suc k) =
     (if up0 s < up0 t then - 1 else if up0 s > up0 t then 1 else if up0 s = 0 then 0
      else suffix_cmp (tl s) (tl t) k)"

lemma up0_drop: "c_toupper (cget s i) = up0 (drop i s)"
  by (cases "i < length s") (simp_all add: cget_def Cons_nth_drop_Suc [symmetric])

lemma strncasecmp_loop_suffix: "strncasecmp_loop s t i k = suffix_cmp (drop i s) (drop i t) k"
  by (induction k arbitrary: i) (simp_all add: Let_def up0_drop tl_drop drop_Suc)

lemma suffix_cmp_0:
  "no_nul s \<Longrightarrow> no_nul t \<Longrightarrow>
   suffix_cmp s t k = 0 \<longleftrightarrow> map c_toupper s = map c_toupper t \<and> length s < k"
proof (induction k arbitrary: s t)
  case (Suc k)
  then show ?case
    by (cases s; cases t) (auto simp: no_nul_def)
qed simp

text \<open>C17: the comparison is zero exactly when the two strings are equal up to case and end
  before position \<open>n\<close>: equal strings that fill all \<open>n\<close> characters compare as different.\<close>

theorem pico_strncasecmp_zero_iff:
  assumes "no_nul s" "no_nul t"
  shows "pico_strncasecmp s t n = 0 \<longleftrightarrow> map c_toupper s = map c_toupper t \<and> length s < n"
  using suffix_cmp_0 [OF assms, of n] by (simp add: pico_strncasecmp_def strncasecmp_loop_suffix)

theorem pico_strncasecmp_zero_iff_witness:
  "no_nul ''Ab'' \<and> no_nul ''aB'' \<and>
   (pico_strncasecmp ''Ab'' ''aB'' 2 = 0 \<longleftrightarrow>
     map c_toupper ''Ab'' = map c_toupper ''aB'' \<and> length ''Ab'' < 2)"
  using pico_strncasecmp_zero_iff [of "''Ab''" "''aB''" 2] by (simp add: no_nul_def)

section \<open>Decimal output\<close>

definition digit_char :: "nat \<Rightarrow> char" where
  "digit_char d = char_of (d + 48)"

definition num2string_validate :: "int \<Rightarrow> char list option \<Rightarrow> int \<Rightarrow> int" where
  "num2string_validate num buf len =
     (if num < 0 then - 1 else if buf = None then - 2 else if len < 2 then - 3 else 0)"

text \<open>The copy loop of \<^verbatim>\<open>revert_and_shift\<close>, position after position.\<close>

definition revert_and_shift :: "char list \<Rightarrow> nat \<Rightarrow> nat \<Rightarrow> int \<times> char list" where
  "revert_and_shift buf len pos =
     (int (len - pos), fold (\<lambda>i b. b[i := b ! (i + pos)]) [0..<len - pos] buf)"

text \<open>The \<^verbatim>\<open>do ... while (res.quot)\<close> loop: \<open>Inl\<close> is the \<^verbatim>\<open>return -3\<close>.\<close>

fun digit_loop :: "nat \<Rightarrow> nat \<Rightarrow> char list \<Rightarrow> char list + nat \<times> char list" where
  "digit_loop quot 0 buf = Inl buf"
| "digit_loop quot (Suc pos) buf =
     (let buf' = buf[pos := digit_char (quot mod 10)] in
      if quot div 10 \<noteq> 0 then digit_loop (quot div 10) pos buf' else Inr (pos, buf'))"

definition num2string :: "int \<Rightarrow> char list option \<Rightarrow> int \<Rightarrow> int \<times> char list" where
  "num2string num buf len =
     (case buf of
        None \<Rightarrow> (- 1, [])
      | Some b \<Rightarrow>
          if num2string_validate num buf len \<noteq> 0 then (- 1, b)
          else let pos = nat len - 1 in
               case digit_loop (nat num) pos (b[pos := NUL]) of
                 Inl b' \<Rightarrow> (- 3, b')
               | Inr (p, b') \<Rightarrow> revert_and_shift b' (nat len) p)"

fun decimal :: "nat \<Rightarrow> string" where
  "decimal n = (if n < 10 then [digit_char n] else decimal (n div 10) @ [digit_char (n mod 10)])"

declare decimal.simps [simp del]

lemma decimal_nonempty [simp]: "decimal n \<noteq> []"
  by (subst decimal.simps) simp

lemma digit_loop_correct:
  "pos < length buf \<Longrightarrow>
     (if length (decimal q) \<le> pos
      then digit_loop q pos buf = Inr (pos - length (decimal q),
              take (pos - length (decimal q)) buf @ decimal q @ drop pos buf)
      else \<exists>buf'. digit_loop q pos buf = Inl buf')"
proof (induction q pos buf rule: digit_loop.induct)
  case (2 q pos buf)
  have upd: "take k (buf[pos := x]) = take k buf" "drop pos (buf[pos := x]) = x # drop (Suc pos) buf"
    if "k \<le> pos" for k x
    using that "2.prems" by (simp_all add: Cons_nth_drop_Suc [symmetric])
  show ?case
  proof (cases "q div 10 = 0")
    case True
    then have "q < 10" by (simp add: div_eq_0_iff)
    then show ?thesis using True "2.prems" by (simp add: decimal.simps [of q] upd Let_def)
      (simp add: upd_conv_take_nth_drop)
  next
    case False
    then have d: "decimal q = decimal (q div 10) @ [digit_char (q mod 10)]"
      by (subst decimal.simps) (auto simp: div_eq_0_iff)
    show ?thesis using False "2.IH" [OF refl False] "2.prems" by (simp add: d upd Let_def)
  qed
qed simp

lemma fold_shift:
  "m + pos \<le> length buf \<Longrightarrow>
   fold (\<lambda>i b. b[i := b ! (i + pos)]) [0..<m] buf = take m (drop pos buf) @ drop m buf"
proof (induction m)
  case (Suc m)
  let ?b = "take m (drop pos buf) @ drop m buf"
  have "?b ! (m + pos) = buf ! (m + pos)" using Suc.prems by (simp add: nth_append add.commute)
  moreover have "?b[m := x] = take m (drop pos buf) @ x # drop (Suc m) buf" for x
    using Suc.prems by (simp add: list_update_append Cons_nth_drop_Suc [symmetric])
  moreover have "take (Suc m) (drop pos buf) = take m (drop pos buf) @ [buf ! (m + pos)]"
    using Suc.prems by (simp add: take_Suc_conv_app_nth add.commute)
  ultimately show ?case using Suc by simp
qed simp

text \<open>\<^verbatim>\<open>num2string\<close> writes the decimal digits and a terminator at the start of the
  buffer and returns how many characters it wrote; when they do not fit it returns -3.\<close>

theorem num2string_decimal:
  assumes "0 \<le> num" "2 \<le> len" "length buf = nat len"
  shows "if length (decimal (nat num)) < nat len
    then \<exists>buf'. num2string num (Some buf) len = (int (length (decimal (nat num))) + 1, buf') \<and>
      length buf' = nat len \<and>
      take (length (decimal (nat num)) + 1) buf' = decimal (nat num) @ [NUL]
    else \<exists>buf'. num2string num (Some buf) len = (- 3, buf')"
proof -
  let ?d = "decimal (nat num)" and ?pos = "nat len - 1"
  have v: "num2string_validate num (Some buf) len = 0" using assms by (simp add: num2string_validate_def)
  have len: "?pos < length buf" using assms by simp
  note dl = digit_loop_correct [of ?pos "buf[?pos := NUL]" "nat num"]
  show ?thesis
  proof (cases "length ?d < nat len")
    case True
    define p where "p = ?pos - length ?d"
    have le: "length ?d \<le> ?pos" using True by simp
    let ?b = "take p (buf[?pos := NUL]) @ ?d @ [NUL]"
    have "drop ?pos (buf[?pos := NUL]) = [NUL]"
      using len assms by (simp add: Cons_nth_drop_Suc [symmetric])
    moreover have "digit_loop (nat num) ?pos (buf[?pos := NUL]) =
        Inr (p, take p (buf[?pos := NUL]) @ ?d @ drop ?pos (buf[?pos := NUL]))"
      using dl len le unfolding p_def by (simp only: if_True length_list_update)
    ultimately have l: "digit_loop (nat num) ?pos (buf[?pos := NUL]) = Inr (p, ?b)"
      by (simp only:)
    have lp: "length (take p (buf[?pos := NUL])) = p" using assms by (simp add: p_def)
    have n: "nat len - p = length ?d + 1" using True by (simp add: p_def)
    have "fold (\<lambda>i b. b[i := b ! (i + p)]) [0..<nat len - p] ?b =
        take (nat len - p) (drop p ?b) @ drop (nat len - p) ?b"
      using lp True by (intro fold_shift) (simp add: p_def)
    also have "drop p ?b = ?d @ [NUL]" using lp by simp
    finally have f: "fold (\<lambda>i b. b[i := b ! (i + p)]) [0..<nat len - p] ?b =
        (?d @ [NUL]) @ drop (nat len - p) ?b" using n by simp
    have "num2string num (Some buf) len = (int (nat len - p), (?d @ [NUL]) @ drop (nat len - p) ?b)"
      by (simp only: num2string_def option.case v Let_def l sum.case prod.case revert_and_shift_def f
          simp_thms if_False)
    moreover have pl: "p + length ?d + 1 = nat len" using True by (simp add: p_def)
    then have "length (drop (nat len - p) ?b) = p" unfolding length_drop length_append lp n by simp
    ultimately obtain t where t: "length t = p"
      "num2string num (Some buf) len = (int (nat len - p), (?d @ [NUL]) @ t)" by blast
    then show ?thesis using True n pl by simp
  next
    case False
    then have "\<not> length ?d \<le> ?pos" using assms(2) by linarith
    then obtain b' where "digit_loop (nat num) ?pos (buf[?pos := NUL]) = Inl b'"
      using dl len by auto
    then show ?thesis using False v by (simp add: num2string_def Let_def)
  qed
qed

theorem num2string_decimal_witness:
  "(0 :: int) \<le> 42 \<and> (2 :: int) \<le> 4 \<and> length ''....'' = nat 4 \<and>
   (\<exists>buf'. num2string 42 (Some ''....'') 4 = (3, buf') \<and> take 3 buf' = decimal 42 @ [NUL])"
proof -
  have "length (decimal 42) = 2" by (simp add: decimal.simps)
  then show ?thesis using num2string_decimal [of 42 4 "''....''"] by auto
qed

end
