(* ===== verification/PicoQueue.thy ===== *)
theory PicoQueue
  imports Prelude
begin

text \<open>
  The frame queue of \<^verbatim>\<open>include/pico_queue.h\<close>. The singly linked list from
  \<^verbatim>\<open>head\<close> to \<^verbatim>\<open>tail\<close> is the list \<open>q_list\<close>; the counters keep their 32-bit
  width. \<open>blen\<close> reads \<^verbatim>\<open>buffer_len\<close> of a frame. \<^verbatim>\<open>Q_LIMIT\<close> is 0 and the mutexes
  are compiled out in the default build.
\<close>

section \<open>The code\<close>

record 'f pico_queue =
  q_frames :: u32
  q_size :: u32
  max_frames :: u32
  max_size :: u32
  overhead :: u16
  q_list :: "'f list"

definition pico_enqueue :: "('f \<Rightarrow> u32) \<Rightarrow> 'f pico_queue \<Rightarrow> 'f \<Rightarrow> int \<times> 'f pico_queue" where
  "pico_enqueue blen q p =
     (if max_frames q \<noteq> 0 \<and> max_frames q \<le> q_frames q then (- 1, q)
      else if max_size q \<noteq> 0 \<and> max_size q < blen p + q_size q then (- 1, q)
      else
        let q1 = (if q_list q = [] then q\<lparr>q_size := 0, q_frames := 0, q_list := [p]\<rparr>
                  else q\<lparr>q_list := q_list q @ [p]\<rparr>);
            q2 = q1\<lparr>q_size := q_size q1 + (blen p + ucast (overhead q1)), q_frames := q_frames q1 + 1\<rparr>
        in (sint (q_size q2), q2))"

definition pico_dequeue :: "('f \<Rightarrow> u32) \<Rightarrow> 'f pico_queue \<Rightarrow> 'f option \<times> 'f pico_queue" where
  "pico_dequeue blen q =
     (case q_list q of
        [] \<Rightarrow> (None, q)
      | p # rest \<Rightarrow>
          if q_frames q < 1 then (None, q)
          else (Some p, q\<lparr>q_list := rest, q_frames := q_frames q - 1,
                          q_size := q_size q - (blen p - ucast (overhead q))\<rparr>))"

definition pico_queue_peek :: "'f pico_queue \<Rightarrow> 'f option" where
  "pico_queue_peek q = (if q_frames q < 1 then None else case q_list q of [] \<Rightarrow> None | p # _ \<Rightarrow> Some p)"

text \<open>\<^verbatim>\<open>pico_queue_empty\<close>: dequeue and discard until nothing comes out.\<close>

lemma pico_dequeue_shorter:
  "pico_dequeue blen q = (Some p, q') \<Longrightarrow> length (q_list q') < length (q_list q)"
  by (auto simp: pico_dequeue_def split: list.splits if_splits)

function pico_queue_empty :: "('f \<Rightarrow> u32) \<Rightarrow> 'f pico_queue \<Rightarrow> 'f list \<times> 'f pico_queue" where
  "pico_queue_empty blen q =
     (case pico_dequeue blen q of
        (None, q') \<Rightarrow> ([], q')
      | (Some p, q') \<Rightarrow> (let (ps, q'') = pico_queue_empty blen q' in (p # ps, q'')))"
  by pat_completeness auto
termination
  by (relation "measure (\<lambda>(_, q). length (q_list q))") (auto dest: pico_dequeue_shorter sym)

declare pico_queue_empty.simps [simp del]

section \<open>Invariant\<close>

text \<open>
  The frame counter is the length of the list. The byte counter is exact modulo 2^32 for a
  queue without per-frame overhead.
\<close>

definition queue_ok :: "'f pico_queue \<Rightarrow> bool" where
  "queue_ok q \<longleftrightarrow> (q_list q \<noteq> [] \<longrightarrow> q_frames q = of_nat (length (q_list q))) \<and>
     (q_list q = [] \<longrightarrow> q_frames q = 0) \<and> length (q_list q) < 2 ^ 32"

definition bytes_exact :: "('f \<Rightarrow> u32) \<Rightarrow> 'f pico_queue \<Rightarrow> bool" where
  "bytes_exact blen q \<longleftrightarrow> (q_list q \<noteq> [] \<longrightarrow> q_size q = (\<Sum>p\<leftarrow>q_list q. blen p))"

definition accepts :: "('f \<Rightarrow> u32) \<Rightarrow> 'f pico_queue \<Rightarrow> 'f \<Rightarrow> bool" where
  "accepts blen q p \<longleftrightarrow> \<not> (max_frames q \<noteq> 0 \<and> max_frames q \<le> q_frames q) \<and>
     \<not> (max_size q \<noteq> 0 \<and> max_size q < blen p + q_size q)"

lemma enqueue_list:
  "q_list (snd (pico_enqueue blen q p)) = (if accepts blen q p then q_list q @ [p] else q_list q)"
  by (simp add: pico_enqueue_def accepts_def Let_def)

lemma enqueue_refused: "\<not> accepts blen q p \<Longrightarrow> pico_enqueue blen q p = (- 1, q)"
  by (auto simp: pico_enqueue_def accepts_def)

lemma enqueue_ok:
  "queue_ok q \<Longrightarrow> length (q_list q) + 1 < 2 ^ 32 \<Longrightarrow> queue_ok (snd (pico_enqueue blen q p))"
  by (auto simp: pico_enqueue_def queue_ok_def Let_def)

lemma queue_ok_pos: "queue_ok q \<Longrightarrow> q_list q \<noteq> [] \<Longrightarrow> \<not> q_frames q < 1"
proof -
  assume "queue_ok q" "q_list q \<noteq> []"
  then have "q_frames q = of_nat (length (q_list q))" "length (q_list q) < 2 ^ 32" "0 < length (q_list q)"
    by (auto simp: queue_ok_def)
  then have "unat (q_frames q) \<noteq> 0" by (simp add: unat_of_nat take_bit_eq_mod)
  then show ?thesis by (metis unat_0 unat_eq_0 word_less_1)
qed

lemma dequeue_eq:
  "queue_ok q \<Longrightarrow> q_list q = p # rest \<Longrightarrow>
   pico_dequeue blen q = (Some p, q\<lparr>q_list := rest, q_frames := q_frames q - 1,
      q_size := q_size q - (blen p - ucast (overhead q))\<rparr>)"
  using queue_ok_pos [of q] by (simp add: pico_dequeue_def)

lemma dequeue_ok: "queue_ok q \<Longrightarrow> queue_ok (snd (pico_dequeue blen q))"
  by (cases "q_list q") (auto simp: dequeue_eq queue_ok_def, simp_all add: pico_dequeue_def)

section \<open>The contract of a queue\<close>

text \<open>
  What the protocol and device loops rely on: an accepted frame goes behind the others, a
  refused one leaves the queue as it was, frames come out from the front. Its client lemma is
  that no interleaving of insertions and removals loses, duplicates or reorders a frame.
\<close>

datatype 'a queue_op = Enq 'a | Deq

locale fifo_queue =
  fixes enq :: "'q \<Rightarrow> 'a \<Rightarrow> 'q"
    and deq :: "'q \<Rightarrow> 'a option \<times> 'q"
    and contents :: "'q \<Rightarrow> 'a list"
    and room :: "'q \<Rightarrow> 'a \<Rightarrow> bool"
    and inv :: "'q \<Rightarrow> bool"
    and bound :: nat
  assumes contents_enq: "contents (enq q x) = (if room q x then contents q @ [x] else contents q)"
    and inv_enq: "inv q \<Longrightarrow> length (contents q) + 1 < bound \<Longrightarrow> inv (enq q x)"
    and deq_empty: "inv q \<Longrightarrow> contents q = [] \<Longrightarrow> deq q = (None, q)"
    and deq_front: "inv q \<Longrightarrow> contents q = x # xs \<Longrightarrow> \<exists>q'. deq q = (Some x, q') \<and> contents q' = xs"
    and inv_deq: "inv q \<Longrightarrow> inv (snd (deq q))"
begin

fun run :: "'a queue_op list \<Rightarrow> 'q \<Rightarrow> 'a list \<times> 'a list \<times> 'q" where
  "run [] q = ([], [], q)"
| "run (Enq x # ops) q =
     (let (acc, out, q') = run ops (enq q x) in (if room q x then x # acc else acc, out, q'))"
| "run (Deq # ops) q =
     (let (x, q1) = deq q; (acc, out, q') = run ops q1
      in (acc, (case x of None \<Rightarrow> out | Some y \<Rightarrow> y # out), q'))"

lemma run_fifo:
  "inv q \<Longrightarrow> length (contents q) + length ops < bound \<Longrightarrow> run ops q = (acc, out, q') \<Longrightarrow>
   out @ contents q' = contents q @ acc \<and> inv q'"
proof (induction ops arbitrary: q acc out q')
  case step: (Cons a ops)
  show ?case
  proof (cases a)
    case (Enq x)
    obtain acc1 out1 q1 where r: "run ops (enq q x) = (acc1, out1, q1)" by (cases "run ops (enq q x)")
    then have "out1 @ contents q1 = contents (enq q x) @ acc1 \<and> inv q1"
      using step.prems step.IH [OF inv_enq _ r] by (simp add: contents_enq)
    then show ?thesis using step.prems(3) r Enq by (auto simp: contents_enq split: if_splits)
  next
    case Deq
    obtain y q0 where d: "deq q = (y, q0)" by (cases "deq q")
    obtain acc1 out1 q1 where r: "run ops q0 = (acc1, out1, q1)" by (cases "run ops q0")
    have i: "inv q0" using inv_deq [OF step.prems(1)] d by simp
    have c: "contents q = (case y of None \<Rightarrow> [] | Some z \<Rightarrow> [z]) @ contents q0"
      using deq_empty [OF step.prems(1)] deq_front [OF step.prems(1)] d
      by (cases "contents q") fastforce+
    then have "out1 @ contents q1 = contents q0 @ acc1 \<and> inv q1"
      using step.prems(2) step.IH [OF i _ r] by (auto split: option.splits)
    then show ?thesis using step.prems(3) r d c Deq by (auto split: option.splits)
  qed
qed simp

end

interpretation pq: fifo_queue "\<lambda>q p. snd (pico_enqueue blen q p)" "pico_dequeue blen" q_list
  "accepts blen" queue_ok "2 ^ 32" for blen :: "'f \<Rightarrow> u32"
proof (unfold_locales, goal_cases)
  case (1 q x)
  show ?case by (rule enqueue_list)
next
  case (2 q x)
  then show ?case by (rule enqueue_ok)
next
  case (3 q)
  then show ?case by (simp add: pico_dequeue_def)
next
  case (4 q x xs)
  then show ?case by (simp add: dequeue_eq)
next
  case (5 q)
  then show ?case by (rule dequeue_ok)
qed

section \<open>Properties\<close>

fun run_queue :: "('f \<Rightarrow> u32) \<Rightarrow> 'f queue_op list \<Rightarrow> 'f pico_queue \<Rightarrow> 'f list \<times> 'f list \<times> 'f pico_queue" where
  "run_queue blen [] q = ([], [], q)"
| "run_queue blen (Enq p # ops) q =
     (let (acc, out, q') = run_queue blen ops (snd (pico_enqueue blen q p))
      in (if accepts blen q p then p # acc else acc, out, q'))"
| "run_queue blen (Deq # ops) q =
     (let (x, q1) = pico_dequeue blen q; (acc, out, q') = run_queue blen ops q1
      in (acc, (case x of None \<Rightarrow> out | Some p \<Rightarrow> p # out), q'))"

lemma run_queue_eq: "run_queue blen ops q = pq.run blen ops q"
  by (induction blen ops q rule: run_queue.induct) (simp_all add: Let_def split: prod.splits)


definition empty_queue :: "u32 \<Rightarrow> u32 \<Rightarrow> u16 \<Rightarrow> 'f pico_queue" where
  "empty_queue mf ms ov = \<lparr>q_frames = 0, q_size = 0, max_frames = mf, max_size = ms, overhead = ov, q_list = []\<rparr>"

definition example_queue :: "u32 pico_queue" where
  "example_queue = \<lparr>q_frames = 1, q_size = 8, max_frames = 2, max_size = 0, overhead = 0, q_list = [8]\<rparr>"

lemma example_run:
  "run_queue (\<lambda>x. x) [Enq 7, Enq 8, Enq 9, Deq] (empty_queue 2 0 0) = ([7, 8], [7], example_queue)"
  by code_simp


text \<open>without per-frame overhead the byte counter of a non-empty queue is always the sum of
  the lengths of its frames (modulo 2^32), so \<^verbatim>\<open>max_size\<close> bounds the queued bytes.\<close>

theorem pico_queue_bytes_exact:
  assumes "overhead q = 0" "queue_ok q" "bytes_exact blen q"
  shows "bytes_exact blen (snd (pico_enqueue blen q p)) \<and> bytes_exact blen (snd (pico_dequeue blen q))"
proof
  show "bytes_exact blen (snd (pico_enqueue blen q p))"
    using assms by (auto simp: bytes_exact_def pico_enqueue_def Let_def)
  show "bytes_exact blen (snd (pico_dequeue blen q))"
  proof (cases "q_list q")
    case (Cons x xs)
    then show ?thesis using assms by (simp add: dequeue_eq bytes_exact_def)
  qed (use assms in \<open>simp add: pico_dequeue_def bytes_exact_def\<close>)
qed

theorem pico_queue_bytes_exact_witness:
  "overhead (empty_queue 0 100 0 :: u32 pico_queue) = 0 \<and>
   bytes_exact (\<lambda>x. x) (snd (pico_enqueue (\<lambda>x. x) (empty_queue 0 100 0) 60))"
  using pico_queue_bytes_exact [of "empty_queue 0 100 0" "\<lambda>x. x" 60]
  by (simp add: empty_queue_def queue_ok_def bytes_exact_def)



end
