(* ===== verification/PicoFrame.thy ===== *)
theory PicoFrame
  imports Prelude
begin

text \<open>
  Frame allocation, sharing and release of \<^verbatim>\<open>stack/pico_frame.c\<close> in an explicit store:
  frame structs, data buffers, usage counters and \<^verbatim>\<open>info\<close> blocks live in maps from
  addresses. Reading or writing through a released pointer is undefined behaviour, the value
  \<open>None\<close>. Pointers into a buffer are offsets from its start, so that
  \<^verbatim>\<open>p += addr_diff\<close> after moving to another buffer keeps the offset.
\<close>

section \<open>The store\<close>

text \<open>The usage counter sits behind the data in the buffer, or in a block of its own.\<close>

datatype counter = InBuffer nat | Separate nat

record frame =
  buffer :: "nat option"
  buffer_len :: nat
  start :: int
  flen :: nat
  usage_count :: counter
  datalink_hdr :: int
  net_hdr :: int
  transport_hdr :: int
  app_hdr :: int
  payload :: int
  fflags :: u8
  info :: "nat option"
  notify_free :: bool

record store =
  frames :: "nat \<rightharpoonup> frame"
  bufs :: "nat \<rightharpoonup> bytes"
  counts :: "counter \<rightharpoonup> nat"
  infos :: "nat set"
  notified :: "nat list"
  fresh :: nat

definition EXT_BUFFER :: u8 where "EXT_BUFFER = 0x02"
definition EXT_USAGE_COUNTER :: u8 where "EXT_USAGE_COUNTER = 0x04"

definition has_flag :: "frame \<Rightarrow> u8 \<Rightarrow> bool" where
  "has_flag f b \<longleftrightarrow> fflags f AND b \<noteq> 0"

section \<open>Allocation\<close>

definition aligned :: "nat \<Rightarrow> nat" where
  "aligned sz = (let align = sz mod 4 in if align \<noteq> 0 then sz + (4 - align) else sz)"

definition zero_frame :: frame where
  "zero_frame = \<lparr>buffer = None, buffer_len = 0, start = 0, flen = 0, usage_count = Separate 0,
     datalink_hdr = 0, net_hdr = 0, transport_hdr = 0, app_hdr = 0, payload = 0,
     fflags = 0, info = None, notify_free = False\<rparr>"

text \<open>
  \<open>mem\<close> and \<open>mem2\<close> tell whether the two allocations succeed; a failed one releases what was
  allocated before, so the store is unchanged.
\<close>

definition pico_frame_do_alloc ::
  "bool \<Rightarrow> bool \<Rightarrow> nat \<Rightarrow> bool \<Rightarrow> bool \<Rightarrow> store \<Rightarrow> nat option \<times> store" where
  "pico_frame_do_alloc mem mem2 sz zerocopy ext_buffer m =
     (if \<not> mem then (None, m)
      else if ext_buffer \<and> \<not> zerocopy then (None, m)
      else if \<not> mem2 then (None, m)
      else
        let p = fresh m;
            f0 = zero_frame\<lparr>buffer_len := sz, flen := sz\<rparr>
        in if \<not> zerocopy then
             let b = p + 1 in
             (Some p, m\<lparr>frames := (frames m)(p \<mapsto> f0\<lparr>buffer := Some b, usage_count := InBuffer b\<rparr>),
                        bufs := (bufs m)(b \<mapsto> replicate (aligned sz) 0),
                        counts := (counts m)(InBuffer b \<mapsto> 1),
                        fresh := p + 2\<rparr>)
           else
             let c = p + 1;
                 fl = (if ext_buffer then EXT_USAGE_COUNTER OR EXT_BUFFER else EXT_USAGE_COUNTER)
             in (Some p, m\<lparr>frames := (frames m)(p \<mapsto> f0\<lparr>usage_count := Separate c, fflags := fl\<rparr>),
                           counts := (counts m)(Separate c \<mapsto> 1),
                           fresh := p + 2\<rparr>))"

definition pico_frame_alloc :: "bool \<Rightarrow> bool \<Rightarrow> nat \<Rightarrow> store \<Rightarrow> nat option \<times> store" where
  "pico_frame_alloc mem mem2 sz m = pico_frame_do_alloc mem mem2 sz False False m"

definition pico_frame_alloc_skeleton :: "bool \<Rightarrow> bool \<Rightarrow> nat \<Rightarrow> bool \<Rightarrow> store \<Rightarrow> nat option \<times> store" where
  "pico_frame_alloc_skeleton mem mem2 sz ext_buffer m = pico_frame_do_alloc mem mem2 sz True ext_buffer m"

definition pico_frame_skeleton_set_buffer :: "nat \<Rightarrow> nat option \<Rightarrow> store \<Rightarrow> (int \<times> store) option" where
  "pico_frame_skeleton_set_buffer p buf m =
     (case buf of
        None \<Rightarrow> Some (- 1, m)
      | Some b \<Rightarrow> (case frames m p of
            None \<Rightarrow> None
          | Some f \<Rightarrow> Some (0, m\<lparr>frames := (frames m)(p \<mapsto> f\<lparr>buffer := Some b, start := 0\<rparr>)\<rparr>)))"

section \<open>Copies\<close>

definition pico_frame_copy :: "bool \<Rightarrow> nat \<Rightarrow> store \<Rightarrow> (nat option \<times> store) option" where
  "pico_frame_copy mem p m =
     (if \<not> mem then Some (None, m)
      else case frames m p of
        None \<Rightarrow> None
      | Some f \<Rightarrow> (case counts m (usage_count f) of
            None \<Rightarrow> None
          | Some n \<Rightarrow> Some (Some (fresh m),
              m\<lparr>frames := (frames m)(fresh m \<mapsto> f), counts := (counts m)(usage_count f \<mapsto> n + 1),
                fresh := fresh m + 1\<rparr>)))"

text \<open>\<^verbatim>\<open>pico_frame_deepcopy\<close>: the struct is copied, then the buffer and counter are restored.\<close>

definition pico_frame_deepcopy :: "bool \<Rightarrow> bool \<Rightarrow> nat \<Rightarrow> store \<Rightarrow> (nat option \<times> store) option" where
  "pico_frame_deepcopy mem mem2 p m =
     (case frames m p of
        None \<Rightarrow> None
      | Some f \<Rightarrow>
          (case pico_frame_alloc mem mem2 (buffer_len f) m of
             (None, m1) \<Rightarrow> Some (None, m1)
           | (Some n, m1) \<Rightarrow>
               (case frames m1 n of
                  None \<Rightarrow> None
                | Some new \<Rightarrow> Some (Some n, m1\<lparr>frames := (frames m1)(n \<mapsto>
                    f\<lparr>buffer := buffer new, usage_count := usage_count new\<rparr>)\<rparr>))))"

section \<open>Release\<close>

definition free_buffer :: "nat option \<Rightarrow> store \<Rightarrow> store option" where
  "free_buffer b m = (case b of
       None \<Rightarrow> Some m
     | Some x \<Rightarrow> if bufs m x = None then None
                 else Some (m\<lparr>bufs := (bufs m)(x := None), counts := (counts m)(InBuffer x := None)\<rparr>))"

definition free_counter :: "counter \<Rightarrow> store \<Rightarrow> store option" where
  "free_counter c m = (case c of
       InBuffer _ \<Rightarrow> None
     | Separate x \<Rightarrow> if counts m c = None then None else Some (m\<lparr>counts := (counts m)(c := None)\<rparr>))"

definition free_info :: "nat option \<Rightarrow> store \<Rightarrow> store option" where
  "free_info i m = (case i of
       None \<Rightarrow> Some m
     | Some x \<Rightarrow> if x \<notin> infos m then None else Some (m\<lparr>infos := infos m - {x}\<rparr>))"

definition release_data :: "frame \<Rightarrow> store \<Rightarrow> store option" where
  "release_data f m =
     Option.bind (if has_flag f EXT_USAGE_COUNTER then free_counter (usage_count f) m else Some m)
       (\<lambda>m1. Option.bind
          (if \<not> has_flag f EXT_BUFFER then free_buffer (buffer f) m1
           else if notify_free f then (case buffer f of None \<Rightarrow> Some m1 | Some b \<Rightarrow> Some (m1\<lparr>notified := b # notified m1\<rparr>))
           else Some m1)
       (free_info (info f)))"

definition pico_frame_discard :: "nat option \<Rightarrow> store \<Rightarrow> store option" where
  "pico_frame_discard fp m =
     (case fp of
        None \<Rightarrow> Some m
      | Some p \<Rightarrow> (case frames m p of
            None \<Rightarrow> None
          | Some f \<Rightarrow> (case counts m (usage_count f) of
                None \<Rightarrow> None
              | Some n \<Rightarrow>
                  let m1 = m\<lparr>counts := (counts m)(usage_count f \<mapsto> n - 1)\<rparr> in
                  Option.bind (if n - 1 = 0 then release_data f m1 else Some m1)
                    (\<lambda>m2. Some (m2\<lparr>frames := (frames m2)(p := None)\<rparr>)))))"

section \<open>Growing\<close>

definition pico_frame_grow :: "bool \<Rightarrow> nat option \<Rightarrow> nat \<Rightarrow> store \<Rightarrow> (int \<times> store) option" where
  "pico_frame_grow mem fp sz m =
     (case fp of
        None \<Rightarrow> Some (- 1, m)
      | Some p \<Rightarrow> (case frames m p of
            None \<Rightarrow> None
          | Some f \<Rightarrow>
              if sz < buffer_len f then Some (- 1, m)
              else (case (counts m (usage_count f), Option.bind (buffer f) (bufs m)) of
                  (Some n, Some old) \<Rightarrow>
                    if \<not> mem then Some (- 1, m)
                    else
                      let b = fresh m;
                          content = take (buffer_len f) old @ replicate (aligned sz - buffer_len f) 0;
                          f' = f\<lparr>buffer := Some b, buffer_len := sz, usage_count := InBuffer b, fflags := 0\<rparr>;
                          m1 = m\<lparr>bufs := (bufs m)(b \<mapsto> content), counts := (counts m)(InBuffer b \<mapsto> n),
                                 fresh := b + 1\<rparr>
                      in Option.bind (if has_flag f EXT_USAGE_COUNTER then free_counter (usage_count f) m1 else Some m1)
                           (\<lambda>m2. Option.bind
                              (if \<not> has_flag f EXT_BUFFER then free_buffer (buffer f) m2
                               else if notify_free f then (case buffer f of None \<Rightarrow> Some m2 | Some x \<Rightarrow> Some (m2\<lparr>notified := x # notified m2\<rparr>))
                               else Some m2)
                              (\<lambda>m3. Some (0, m3\<lparr>frames := (frames m3)(p \<mapsto> f')\<rparr>)))
                | _ \<Rightarrow> None)))"

section \<open>Invariant: counters count the sharers\<close>

definition sharers :: "store \<Rightarrow> counter \<Rightarrow> nat set" where
  "sharers m c = {p. \<exists>f. frames m p = Some f \<and> usage_count f = c}"

text \<open>
  \<open>frame_ok m f\<close>: the counter of \<open>f\<close> is live and counts its sharers; the data it releases is
  live; its flags say where the counter is.
\<close>

definition frame_ok :: "store \<Rightarrow> frame \<Rightarrow> bool" where
  "frame_ok m f \<longleftrightarrow> counts m (usage_count f) = Some (card (sharers m (usage_count f))) \<and>
     (\<forall>b. buffer f = Some b \<longrightarrow> bufs m b \<noteq> None) \<and>
     (\<forall>x. info f = Some x \<longrightarrow> x \<in> infos m) \<and>
     (has_flag f EXT_USAGE_COUNTER \<longleftrightarrow> (\<exists>c. usage_count f = Separate c)) \<and>
     (\<forall>b. usage_count f = InBuffer b \<longrightarrow> buffer f = Some b)"

text \<open>Two frames share their counter exactly when they share data, and then all of it.\<close>

definition share_ok :: "frame \<Rightarrow> frame \<Rightarrow> bool" where
  "share_ok f g \<longleftrightarrow>
     (usage_count f = usage_count g \<longrightarrow> buffer f = buffer g \<and> info f = info g \<and>
        has_flag f EXT_BUFFER = has_flag g EXT_BUFFER) \<and>
     (buffer f \<noteq> None \<and> buffer f = buffer g \<longrightarrow> usage_count f = usage_count g) \<and>
     (info f \<noteq> None \<and> info f = info g \<longrightarrow> usage_count f = usage_count g)"

definition store_ok :: "store \<Rightarrow> bool" where
  "store_ok m \<longleftrightarrow> finite (dom (frames m)) \<and>
     (\<forall>p f. frames m p = Some f \<longrightarrow> frame_ok m f) \<and>
     (\<forall>p q f g. frames m p = Some f \<longrightarrow> frames m q = Some g \<longrightarrow> share_ok f g) \<and>
     (\<forall>p. p \<ge> fresh m \<longrightarrow> frames m p = None \<and> bufs m p = None \<and>
        counts m (InBuffer p) = None \<and> counts m (Separate p) = None)"

lemma share_ok_refl [simp]: "share_ok f f"
  by (simp add: share_ok_def)

lemma store_okD:
  assumes "store_ok m"
  shows "finite (dom (frames m))" "frames m p = Some f \<Longrightarrow> frame_ok m f"
    "frames m p = Some f \<Longrightarrow> frames m q = Some g \<Longrightarrow> share_ok f g"
    "fresh m \<le> x \<Longrightarrow> frames m x = None" "fresh m \<le> x \<Longrightarrow> bufs m x = None"
    "fresh m \<le> x \<Longrightarrow> counts m (InBuffer x) = None" "fresh m \<le> x \<Longrightarrow> counts m (Separate x) = None"
  using assms unfolding store_ok_def by blast+

lemma finite_sharers [simp]: "store_ok m \<Longrightarrow> finite (sharers m c)"
  by (rule finite_subset [of _ "dom (frames m)"]) (auto simp: sharers_def store_ok_def)

lemma sharers_self: "frames m p = Some f \<Longrightarrow> p \<in> sharers m (usage_count f)"
  by (auto simp: sharers_def)

lemma sharers_remove: "sharers (m\<lparr>frames := (frames m)(p := None)\<rparr>) c = sharers m c - {p}"
  by (auto simp: sharers_def split: if_splits)

lemma sharers_cong: "frames m' = frames m \<Longrightarrow> sharers m' c = sharers m c"
  by (simp add: sharers_def)

lemma card_sharers_other:
  "frames m p = Some f \<Longrightarrow> c \<noteq> usage_count f \<Longrightarrow> sharers m c - {p} = sharers m c"
  by (auto simp: sharers_def)

text \<open>What the release of the last sharer's data leaves in the store.\<close>

definition released :: "frame \<Rightarrow> store \<Rightarrow> store \<Rightarrow> bool" where
  "released f m m' \<longleftrightarrow> frames m' = frames m \<and> fresh m' = fresh m \<and>
     (\<forall>c. c \<noteq> usage_count f \<longrightarrow> (\<forall>b. buffer f = Some b \<longrightarrow> c \<noteq> InBuffer b) \<longrightarrow> counts m' c = counts m c) \<and>
     (\<forall>c. counts m' c \<noteq> None \<longrightarrow> counts m c \<noteq> None) \<and>
     (\<forall>b. Some b \<noteq> buffer f \<longrightarrow> bufs m' b = bufs m b) \<and>
     (\<forall>b. bufs m' b \<noteq> None \<longrightarrow> bufs m b \<noteq> None) \<and>
     (\<not> has_flag f EXT_BUFFER \<longrightarrow> (\<forall>b. buffer f = Some b \<longrightarrow> bufs m' b = None)) \<and>
     (has_flag f EXT_BUFFER \<longrightarrow> bufs m' = bufs m) \<and>
     infos m' = infos m - set_option (info f)"

lemma release_data_ok:
  assumes "counts m (usage_count f) \<noteq> None" "\<And>b. buffer f = Some b \<Longrightarrow> bufs m b \<noteq> None"
    and "\<And>x. info f = Some x \<Longrightarrow> x \<in> infos m"
    and "has_flag f EXT_USAGE_COUNTER \<longleftrightarrow> (\<exists>c. usage_count f = Separate c)"
  shows "\<exists>m'. release_data f m = Some m' \<and> released f m m'"
  using assms
  unfolding release_data_def free_counter_def free_buffer_def free_info_def released_def
  by (auto split: option.splits counter.splits simp: fun_upd_apply)

lemma discard_shared:
  assumes ok: "store_ok m" and f: "frames m p = Some f" and n: "card (sharers m (usage_count f)) \<noteq> 1"
  defines "m' \<equiv> m\<lparr>frames := (frames m)(p := None),
      counts := (counts m)(usage_count f \<mapsto> card (sharers m (usage_count f)) - 1)\<rparr>"
  shows "pico_frame_discard (Some p) m = Some m'" "store_ok m'"
proof -
  let ?u = "usage_count f"
  note d = store_okD [OF ok]
  have c: "counts m ?u = Some (card (sharers m ?u))" using d(2) [OF f] by (simp add: frame_ok_def)
  have pos: "card (sharers m ?u) > 0" using sharers_self [OF f] ok by (auto simp: card_gt_0_iff)
  show "pico_frame_discard (Some p) m = Some m'"
    using f c n pos by (simp add: pico_frame_discard_def Let_def m'_def)
  have sh: "sharers m' x = sharers m x - {p}" for x
    unfolding m'_def by (auto simp: sharers_def split: if_splits)
  have "frame_ok m' g" if "frames m' q = Some g" for q g
  proof -
    have g: "frames m q = Some g" using that by (auto simp: m'_def split: if_splits)
    have "counts m' (usage_count g) = Some (card (sharers m' (usage_count g)))"
    proof (cases "usage_count g = ?u")
      case True
      have "card (sharers m ?u - {p}) = card (sharers m ?u) - 1"
        using sharers_self [OF f] ok by (simp add: card_Diff_singleton)
      then show ?thesis unfolding sh True by (simp add: m'_def)
    next
      case False
      then have "counts m' (usage_count g) = counts m (usage_count g)" by (simp add: m'_def)
      then show ?thesis
        unfolding sh using d(2) [OF g] card_sharers_other [OF f False] by (simp add: frame_ok_def)
    qed
    then show ?thesis using d(2) [OF g] by (simp add: frame_ok_def m'_def)
  qed
  moreover have "share_ok g h" if "frames m' q = Some g" "frames m' r = Some h" for q r g h
    using that d(3) by (auto simp: m'_def split: if_splits)
  ultimately show "store_ok m'"
    using d(1,4-7) c unfolding store_ok_def
    by (auto simp: m'_def dom_fun_upd) (metis option.distinct(1))+
qed

lemma discard_last:
  assumes ok: "store_ok m" and f: "frames m p = Some f" and n: "card (sharers m (usage_count f)) = 1"
  shows "\<exists>m'. pico_frame_discard (Some p) m = Some m' \<and> store_ok m' \<and>
    frames m' = (frames m)(p := None) \<and> infos m' = infos m - set_option (info f) \<and>
    (if has_flag f EXT_BUFFER then bufs m' = bufs m
     else \<forall>b. bufs m' b = (if Some b = buffer f then None else bufs m b))"
proof -
  let ?u = "usage_count f"
  note d = store_okD [OF ok]
  have fo: "frame_ok m f" using d(2) [OF f] .
  then have c: "counts m ?u = Some 1" using n by (simp add: frame_ok_def)
  let ?m1 = "m\<lparr>counts := (counts m)(?u \<mapsto> 0)\<rparr>"
  obtain m2 where m2: "release_data f ?m1 = Some m2" "released f ?m1 m2"
    using release_data_ok [of ?m1 f] fo by (auto simp: frame_ok_def)
  let ?m' = "m2\<lparr>frames := (frames m2)(p := None)\<rparr>"
  note r = m2(2) [unfolded released_def]
  have only: "usage_count g \<noteq> ?u" if "frames m q = Some g" "q \<noteq> p" for q g
  proof
    assume "usage_count g = ?u"
    then have "{p, q} \<subseteq> sharers m ?u" using that f by (auto simp: sharers_def)
    then have "card {p, q} \<le> 1" using n ok by (metis card_mono finite_sharers)
    then show False using that by simp
  qed
  have sh: "sharers ?m' x = sharers m x - {p}" for x
    using r by (auto simp: sharers_def split: if_splits)
  have other: "frame_ok ?m' g" if "frames ?m' q = Some g" for q g
  proof -
    have g: "frames m q = Some g" "q \<noteq> p" using that r by (auto split: if_splits)
    then have u: "usage_count g \<noteq> ?u" by (intro only)
    have so: "share_ok g f" using d(3) [OF g(1) f] .
    have go: "frame_ok m g" using d(2) [OF g(1)] .
    have nb: "buffer g \<noteq> buffer f \<or> buffer g = None" "info g \<noteq> info f \<or> info g = None"
      using so u by (auto simp: share_ok_def)
    then have "usage_count g \<noteq> InBuffer b" if "buffer f = Some b" for b
      using go that by (auto simp: frame_ok_def)
    then have "counts ?m' (usage_count g) = counts m (usage_count g)" using r u by simp
    then show ?thesis
      using go nb r card_sharers_other [OF f u] unfolding frame_ok_def sh by auto
  qed
  have "store_ok ?m'"
    unfolding store_ok_def
  proof (intro conjI allI impI)
    show "finite (dom (frames ?m'))" using d(1) r by (simp add: dom_fun_upd)
    show "share_ok g h" if "frames ?m' q = Some g" "frames ?m' t = Some h" for q t g h
      using that d(3) r by (auto split: if_splits)
    fix x assume x: "fresh ?m' \<le> x"
    then have fx: "fresh m \<le> x" using r by simp
    show "frames ?m' x = None" using r d(4) [OF fx] by simp
    show "bufs ?m' x = None" using r d(5) [OF fx] by (metis (no_types, lifting) store.select_convs(2) store.surjective store.update_convs(1) store.update_convs(3))
    have gone: "counts ?m' k = None" if "counts m k = None" for k
    proof -
      have "k \<noteq> ?u" using that c by auto
      then have "counts ?m1 k = None" using that by simp
      then have "counts m2 k = None" using r by metis
      then show ?thesis by simp
    qed
    show "counts ?m' (InBuffer x) = None" "counts ?m' (Separate x) = None"
      using gone d(6,7) [OF fx] by blast+
  qed (use other in blast)
  moreover have "pico_frame_discard (Some p) m = Some ?m'"
    using f c m2(1) by (simp add: pico_frame_discard_def Let_def)
  moreover have "if has_flag f EXT_BUFFER then bufs ?m' = bufs m
     else \<forall>b. bufs ?m' b = (if Some b = buffer f then None else bufs m b)"
    using r by auto
  ultimately show ?thesis using r by auto
qed

section \<open>Allocation and copying keep the invariant\<close>

lemma do_alloc_ok:
  assumes ok: "store_ok m" and r: "pico_frame_do_alloc mem mem2 sz z e m = (r, m')"
  shows "store_ok m'"
proof (cases "mem \<and> mem2 \<and> \<not> (e \<and> \<not> z)")
  case False
  then show ?thesis using r ok by (auto simp: pico_frame_do_alloc_def split: if_splits)
next
  case True
  note d = store_okD [OF ok]
  define p where "p = fresh m"
  define u where "u = (if z then Separate (p + 1) else InBuffer (p + 1))"
  define f where "f = the (frames m' p)"
  have m': "frames m' = (frames m)(p \<mapsto> f)" "counts m' = (counts m)(u \<mapsto> 1)"
      "bufs m' = (if z then bufs m else (bufs m)(p + 1 \<mapsto> replicate (aligned sz) 0))"
      "infos m' = infos m" "fresh m' = p + 2"
    and f: "usage_count f = u" "buffer f = (if z then None else Some (p + 1))" "info f = None"
      "has_flag f EXT_USAGE_COUNTER = z"
    using r True unfolding f_def
    by (cases z; cases e; clarsimp simp: pico_frame_do_alloc_def p_def u_def Let_def zero_frame_def
        has_flag_def EXT_USAGE_COUNTER_def EXT_BUFFER_def)+
  have old: "usage_count g \<noteq> u \<and> buffer g \<noteq> Some (p + 1) \<and> q \<noteq> p" if "frames m q = Some g" for q g
    using d(2) [OF that] d(4-7) that unfolding frame_ok_def u_def p_def
    by (metis le_add1 option.distinct(1) order_refl)
  have new: "share_ok f g" "share_ok g f" if "frames m q = Some g" for q g
    using old [OF that] f by (auto simp: share_ok_def split: if_splits)
  have sh: "sharers m' u = {p}" "c \<noteq> u \<Longrightarrow> sharers m' c = sharers m c" for c
    using m' f old by (auto simp: sharers_def split: if_splits)
  show ?thesis
    unfolding store_ok_def
  proof (intro conjI allI impI)
    show "finite (dom (frames m'))" using d(1) m' by simp
    show "frame_ok m' g" if "frames m' q = Some g" for q g
    proof (cases "q = p")
      case True
      then show ?thesis using that m' f sh(1) by (auto simp: frame_ok_def u_def)
    next
      case False
      then have g: "frames m q = Some g" using that m' by simp
      show ?thesis using d(2) [OF g] old [OF g] m' sh(2) by (auto simp: frame_ok_def)
    qed
    show "share_ok g h" if "frames m' q = Some g" "frames m' t = Some h" for q t g h
      using that m' d(3) new by (auto split: if_splits)
    fix x assume "fresh m' \<le> x"
    then have x: "p + 2 \<le> x" using m' by simp
    then have "fresh m \<le> x" by (simp add: p_def)
    then show "frames m' x = None" "bufs m' x = None" "counts m' (InBuffer x) = None"
      "counts m' (Separate x) = None"
      using x m' d(4-7) by (auto simp: u_def)
  qed
qed

lemma copy_result:
  assumes ok: "store_ok m" and f: "frames m p = Some f"
  shows "pico_frame_copy True p m = Some (Some (fresh m),
    m\<lparr>frames := (frames m)(fresh m \<mapsto> f),
      counts := (counts m)(usage_count f \<mapsto> card (sharers m (usage_count f)) + 1), fresh := fresh m + 1\<rparr>)"
  using store_okD(2) [OF ok f] f by (simp add: pico_frame_copy_def frame_ok_def)

lemma copy_ok:
  assumes ok: "store_ok m" and r: "pico_frame_copy mem p m = Some (r, m')"
  shows "store_ok m'"
proof (cases mem)
  case False
  then show ?thesis using r ok by (simp add: pico_frame_copy_def)
next
  case True
  note d = store_okD [OF ok]
  obtain f where f: "frames m p = Some f"
    using r True by (auto simp: pico_frame_copy_def split: option.splits)
  let ?u = "usage_count f" and ?q = "fresh m"
  have m': "frames m' = (frames m)(?q \<mapsto> f)" "counts m' = (counts m)(?u \<mapsto> card (sharers m ?u) + 1)"
    "bufs m' = bufs m" "infos m' = infos m" "fresh m' = ?q + 1"
    using copy_result [OF ok f] r True by auto
  have nq: "frames m ?q = None" using d(4) by simp
  have sh: "sharers m' ?u = insert ?q (sharers m ?u)" "c \<noteq> ?u \<Longrightarrow> sharers m' c = sharers m c" for c
    using m' nq by (auto simp: sharers_def split: if_splits)
  have fin: "?q \<notin> sharers m ?u" using nq by (simp add: sharers_def)
  have fo: "frame_ok m' g" if "frames m q = Some g" for q g
    using d(2) [OF that] m' sh fin ok by (cases "usage_count g = ?u") (auto simp: frame_ok_def)
  have used: "counts m ?u \<noteq> None" using d(2) [OF f] by (simp add: frame_ok_def)
  show ?thesis
    unfolding store_ok_def
  proof (intro conjI allI impI)
    show "finite (dom (frames m'))" using d(1) m' by simp
    show "frame_ok m' g" if "frames m' q = Some g" for q g
      using that fo [OF f] fo m' by (auto split: if_splits)
    show "share_ok g h" if "frames m' q = Some g" "frames m' t = Some h" for q t g h
      using that f d(3) m' by (auto split: if_splits)
    fix x assume "fresh m' \<le> x"
    then have x: "?q < x" using m' by simp
    then have "?u \<noteq> InBuffer x" "?u \<noteq> Separate x"
      using used d(6,7) [of x] by (metis less_imp_le)+
    then show "frames m' x = None" "bufs m' x = None" "counts m' (InBuffer x) = None"
      "counts m' (Separate x) = None"
      using x m' d(4-7) [of x] by auto
  qed
qed

section \<open>Programs over frames\<close>

text \<open>
  The calls the stack makes on frames: allocating, copying (retransmission and forwarding
  share the data this way) and discarding a frame that is still live. Each either returns or
  is undefined.
\<close>

datatype frame_call = Alloc bool bool nat bool bool | Copy bool nat | Discard nat

fun do_call :: "frame_call \<Rightarrow> store \<Rightarrow> store option" where
  "do_call (Alloc mem mem2 sz z e) m = Some (snd (pico_frame_do_alloc mem mem2 sz z e m))"
| "do_call (Copy mem p) m = map_option snd (pico_frame_copy mem p m)"
| "do_call (Discard p) m = pico_frame_discard (Some p) m"

fun target :: "frame_call \<Rightarrow> nat option" where
  "target (Copy _ p) = Some p"
| "target (Discard p) = Some p"
| "target (Alloc _ _ _ _ _) = None"

definition call_ok :: "frame_call \<Rightarrow> store \<Rightarrow> bool" where
  "call_ok c m \<longleftrightarrow> (case target c of None \<Rightarrow> True | Some p \<Rightarrow> frames m p \<noteq> None)"

inductive frame_run :: "store \<Rightarrow> frame_call list \<Rightarrow> store option \<Rightarrow> bool" where
  run_nil: "frame_run m [] (Some m)"
| run_undefined: "call_ok c m \<Longrightarrow> do_call c m = None \<Longrightarrow> frame_run m (c # cs) None"
| run_call: "call_ok c m \<Longrightarrow> do_call c m = Some m1 \<Longrightarrow> frame_run m1 cs r \<Longrightarrow> frame_run m (c # cs) r"

definition empty_store :: store where
  "empty_store = \<lparr>frames = Map.empty, bufs = Map.empty, counts = Map.empty, infos = {}, notified = [], fresh = 0\<rparr>"

lemma empty_store_ok: "store_ok empty_store"
  by (simp add: store_ok_def empty_store_def)

lemma discard_ok:
  assumes "store_ok m" "frames m p = Some f"
  shows "\<exists>m'. pico_frame_discard (Some p) m = Some m' \<and> store_ok m'"
  using discard_shared [OF assms] discard_last [OF assms] by blast

lemma do_call_ok:
  assumes ok: "store_ok m" and c: "call_ok c m"
  shows "\<exists>m'. do_call c m = Some m' \<and> store_ok m'"
proof (cases c)
  case (Alloc mem mem2 sz z e)
  then show ?thesis using do_alloc_ok [OF ok] by (metis do_call.simps(1) prod.collapse)
next
  case (Copy mem p)
  then obtain f where f: "frames m p = Some f" using c by (auto simp: call_ok_def)
  obtain r m' where r: "pico_frame_copy mem p m = Some (r, m')"
    using copy_result [OF ok f] by (cases mem) (auto simp: pico_frame_copy_def)
  then show ?thesis using copy_ok [OF ok r] Copy by simp
next
  case (Discard p)
  then show ?thesis using discard_ok [OF ok] c by (auto simp: call_ok_def)
qed

lemma run_ok: "frame_run m cs r \<Longrightarrow> store_ok m \<Longrightarrow> \<exists>m'. r = Some m' \<and> store_ok m'"
  by (induction rule: frame_run.induct) (use do_call_ok in fastforce)+

section \<open>Properties\<close>


text \<open>Discarding a live frame never fails; it removes that frame only, and releases the data buffer exactly
  when the frame was the last that shares it and the buffer is not the caller's.\<close>

theorem pico_frame_discard_releases_last:
  assumes ok: "store_ok m" and f: "frames m p = Some f"
  shows "\<exists>m'. pico_frame_discard (Some p) m = Some m' \<and> store_ok m' \<and> frames m' = (frames m)(p := None) \<and>
    (\<forall>b. bufs m' b = (if Some b = buffer f \<and> sharers m (usage_count f) = {p} \<and> \<not> has_flag f EXT_BUFFER
                      then None else bufs m b))"
proof (cases "card (sharers m (usage_count f)) = 1")
  case True
  then have "sharers m (usage_count f) = {p}"
    using sharers_self [OF f] by (metis card_1_singletonE singletonD)
  then show ?thesis using discard_last [OF ok f True] by (auto split: if_splits)
next
  case False
  then have "sharers m (usage_count f) \<noteq> {p}" by auto
  then show ?thesis using discard_shared [OF ok f False] by simp
qed


definition one_frame :: store where
  "one_frame = snd (pico_frame_alloc True True 5 empty_store)"

lemma one_frame_ok: "store_ok one_frame"
  unfolding one_frame_def pico_frame_alloc_def
  by (rule do_alloc_ok [OF empty_store_ok]) (rule surjective_pairing)

lemma one_frame_frame: "frames one_frame 0 =
    Some (zero_frame\<lparr>buffer_len := 5, flen := 5, buffer := Some 1, usage_count := InBuffer 1\<rparr>)"
  by (simp add: one_frame_def pico_frame_alloc_def pico_frame_do_alloc_def empty_store_def Let_def)

theorem pico_frame_discard_releases_last_witness:
  "\<exists>m'. pico_frame_discard (Some 0) one_frame = Some m' \<and> frames m' 0 = None"
  using pico_frame_discard_releases_last [OF one_frame_ok one_frame_frame] by auto

text \<open>Growing a frame that does not share its data returns 0, keeps the frame's bytes as a prefix of the
  new, zero-padded buffer and the offsets of all header pointers, releases the old buffer unless it is the
  caller's, and leaves every other frame's data alone.\<close>

theorem pico_frame_grow_unshared:
  assumes ok: "store_ok m" and f: "frames m p = Some f" "sharers m (usage_count f) = {p}"
    and b: "buffer f = Some b" "bufs m b = Some old" "buffer_len f \<le> length old" "buffer_len f \<le> sz"
  shows "\<exists>m' f' new. pico_frame_grow True (Some p) sz m = Some (0, m') \<and>
    frames m' = (frames m)(p \<mapsto> f') \<and> bufs m' (fresh m) = Some new \<and> buffer f' = Some (fresh m) \<and>
    buffer_len f' = sz \<and> take (buffer_len f) new = take (buffer_len f) old \<and> length new = aligned sz \<and>
    (net_hdr f', transport_hdr f', payload f', start f') = (net_hdr f, transport_hdr f, payload f, start f) \<and>
    (\<forall>x. x \<noteq> fresh m \<longrightarrow> bufs m' x = (if x = b \<and> \<not> has_flag f EXT_BUFFER then None else bufs m x))"
proof -
  have fo: "frame_ok m f" using store_okD(2) [OF ok f(1)] .
  then have c: "counts m (usage_count f) = Some 1" using f by (simp add: frame_ok_def)
  have nb: "b \<noteq> fresh m" using b store_okD(5) [OF ok, of "fresh m"] by auto
  have nu: "usage_count f \<noteq> InBuffer (fresh m)" using c store_okD(6) [OF ok, of "fresh m"] by auto
  have al: "sz \<le> aligned sz"
    using mod_less_divisor [of 4 sz] unfolding aligned_def Let_def by auto
  show ?thesis
    using f c b nb nu al fo unfolding frame_ok_def
    by (cases "usage_count f")
      (auto simp: pico_frame_grow_def Let_def free_counter_def free_buffer_def bind_eq_Some_conv
        split: option.splits if_splits)
qed

text \<open>C20: Growing a frame that shares its data releases the buffer the other sharers still point to.\<close>

theorem pico_frame_grow_shared_dangles:
  assumes ok: "store_ok m" and f: "frames m p = Some f" and g: "frames m q = Some g" "q \<noteq> p"
    and sh: "usage_count g = usage_count f" "usage_count f = InBuffer b" "bufs m b = Some old"
    and fl: "\<not> has_flag f EXT_BUFFER" and sz: "buffer_len f \<le> sz"
  shows "\<exists>m'. pico_frame_grow True (Some p) sz m = Some (0, m') \<and> frames m' q = Some g \<and>
    buffer g = Some b \<and> bufs m' b = None \<and> counts m' (usage_count g) = None"
proof -
  have fo: "frame_ok m f" "frame_ok m g" using store_okD(2) [OF ok] f g by blast+
  then have bb: "buffer f = Some b" "buffer g = Some b" using sh by (auto simp: frame_ok_def)
  have nb: "b \<noteq> fresh m" using sh store_okD(5) [OF ok, of "fresh m"] by auto
  show ?thesis
    using f g sh fl sz fo bb nb unfolding frame_ok_def
    by (auto simp: pico_frame_grow_def Let_def free_buffer_def)
qed

text \<open>A deep copy has a buffer of the right size but none of the original's bytes: they are all zero,
  whatever the original holds.\<close>

theorem pico_frame_deepcopy_all_zero:
  assumes "store_ok m" "frames m p = Some f"
  shows "\<exists>m' g b. pico_frame_deepcopy True True p m = Some (Some (fresh m), m') \<and>
    frames m' (fresh m) = Some g \<and> buffer g = Some b \<and> b \<noteq> fresh m \<and> buffer_len g = buffer_len f \<and>
    bufs m' b = Some (replicate (aligned (buffer_len f)) 0)"
  using assms by (auto simp: pico_frame_deepcopy_def pico_frame_alloc_def pico_frame_do_alloc_def Let_def)

theorem pico_frame_grow_unshared_witness:
  "\<exists>m' f' new. pico_frame_grow True (Some 0) 9 one_frame = Some (0, m') \<and>
     frames m' 0 = Some f' \<and> bufs m' (fresh one_frame) = Some new \<and> length new = 12"
proof -
  let ?f = "zero_frame\<lparr>buffer_len := 5, flen := 5, buffer := Some 1, usage_count := InBuffer 1\<rparr>"
  have "sharers one_frame (usage_count ?f) = {0}"
    by (auto simp: sharers_def one_frame_def pico_frame_alloc_def pico_frame_do_alloc_def empty_store_def Let_def
        split: if_splits)
  moreover have "bufs one_frame 1 = Some (replicate 8 0)"
    by (simp add: one_frame_def pico_frame_alloc_def pico_frame_do_alloc_def empty_store_def Let_def aligned_def)
  ultimately show ?thesis
    using pico_frame_grow_unshared [OF one_frame_ok one_frame_frame, of 1 "replicate 8 0" 9]
    by (auto simp: aligned_def)
qed

definition two_frames :: store where
  "two_frames = snd (the (pico_frame_copy True 0 one_frame))"

theorem pico_frame_grow_shared_dangles_witness:
  "\<exists>m'. pico_frame_grow True (Some 0) 9 two_frames = Some (0, m') \<and> bufs m' 1 = None \<and> frames m' 2 \<noteq> None"
proof -
  have c: "pico_frame_copy True 0 one_frame = Some (Some 2, two_frames)"
    by (simp add: two_frames_def one_frame_def pico_frame_alloc_def pico_frame_do_alloc_def empty_store_def
        pico_frame_copy_def Let_def)
  let ?f = "zero_frame\<lparr>buffer_len := 5, flen := 5, buffer := Some 1, usage_count := InBuffer 1\<rparr>"
  have "frames two_frames 0 = Some ?f" "frames two_frames 2 = Some ?f" "bufs two_frames 1 = Some (replicate 8 0)"
    by (simp_all add: two_frames_def one_frame_def pico_frame_alloc_def pico_frame_do_alloc_def empty_store_def
        pico_frame_copy_def Let_def aligned_def)
  moreover have "\<not> has_flag ?f EXT_BUFFER" by (simp add: has_flag_def zero_frame_def)
  ultimately show ?thesis
    using pico_frame_grow_shared_dangles [OF copy_ok [OF one_frame_ok c], of 0 ?f 2 ?f 1 "replicate 8 0" 9] by auto
qed

theorem pico_frame_deepcopy_all_zero_witness:
  "\<exists>m' g b. pico_frame_deepcopy True True 0 one_frame = Some (Some 2, m') \<and> frames m' 2 = Some g \<and>
     buffer g = Some b \<and> bufs m' b = Some (replicate 8 0)"
proof -
  have "fresh one_frame = 2"
    by (simp add: one_frame_def pico_frame_alloc_def pico_frame_do_alloc_def empty_store_def Let_def)
  then show ?thesis
    using pico_frame_deepcopy_all_zero [OF one_frame_ok one_frame_frame] by (auto simp: aligned_def)
qed

end
