(* ===== verification/PicoTree.thy ===== *)
theory PicoTree
  imports Prelude "HOL-Library.Tree"
begin

text \<open>
  The red-black tree of \<^verbatim>\<open>stack/pico_tree.c\<close>, on which routes, links, sockets, ports, fragments
  and timeouts are kept. Nodes are addresses; each field of \<^verbatim>\<open>struct pico_tree_node\<close> is a
  function from addresses, and address 0 is the sentinel \<^verbatim>\<open>LEAF\<close>, whose colour is a field like any
  other because the code writes it. The loops follow pointers, so they are partial functions;
  that they return on a well-formed tree is part of what is proved.
\<close>

section \<open>Nodes and trees\<close>

datatype colour = RED | BLACK

record 'k pico_tree =
  root :: nat
  keyValue :: "nat \<Rightarrow> 'k"
  parent :: "nat \<Rightarrow> nat"
  leftChild :: "nat \<Rightarrow> nat"
  rightChild :: "nat \<Rightarrow> nat"
  color :: "nat \<Rightarrow> colour"

abbreviation (input) LEAF :: nat where "LEAF \<equiv> 0"

definition set_parent :: "nat \<Rightarrow> nat \<Rightarrow> 'k pico_tree \<Rightarrow> 'k pico_tree" where
  "set_parent x v m = m\<lparr>parent := (parent m)(x := v)\<rparr>"

definition set_left :: "nat \<Rightarrow> nat \<Rightarrow> 'k pico_tree \<Rightarrow> 'k pico_tree" where
  "set_left x v m = m\<lparr>leftChild := (leftChild m)(x := v)\<rparr>"

definition set_right :: "nat \<Rightarrow> nat \<Rightarrow> 'k pico_tree \<Rightarrow> 'k pico_tree" where
  "set_right x v m = m\<lparr>rightChild := (rightChild m)(x := v)\<rparr>"

definition set_color :: "nat \<Rightarrow> colour \<Rightarrow> 'k pico_tree \<Rightarrow> 'k pico_tree" where
  "set_color x v m = m\<lparr>color := (color m)(x := v)\<rparr>"

definition set_root :: "nat \<Rightarrow> 'k pico_tree \<Rightarrow> 'k pico_tree" where
  "set_root v m = m\<lparr>root := v\<rparr>"

definition AM_I_LEFT_CHILD :: "'k pico_tree \<Rightarrow> nat \<Rightarrow> bool" where
  "AM_I_LEFT_CHILD m x \<longleftrightarrow> x = leftChild m (parent m x)"

definition AM_I_RIGHT_CHILD :: "'k pico_tree \<Rightarrow> nat \<Rightarrow> bool" where
  "AM_I_RIGHT_CHILD m x \<longleftrightarrow> x = rightChild m (parent m x)"

definition GRANPA :: "'k pico_tree \<Rightarrow> nat \<Rightarrow> nat" where
  "GRANPA m x = parent m (parent m x)"

section \<open>Traversal\<close>

partial_function (option) pico_tree_firstNode :: "'k pico_tree \<Rightarrow> nat \<Rightarrow> nat option" where
  [code]: "pico_tree_firstNode m node =
     (if leftChild m node \<noteq> LEAF then pico_tree_firstNode m (leftChild m node) else Some node)"

partial_function (option) pico_tree_lastNode :: "'k pico_tree \<Rightarrow> nat \<Rightarrow> nat option" where
  [code]: "pico_tree_lastNode m node =
     (if rightChild m node \<noteq> LEAF then pico_tree_lastNode m (rightChild m node) else Some node)"

partial_function (option) next_up :: "'k pico_tree \<Rightarrow> nat \<Rightarrow> nat option" where
  [code]: "next_up m node =
     (if parent m node \<noteq> LEAF \<and> AM_I_RIGHT_CHILD m node then next_up m (parent m node)
      else Some (parent m node))"

definition pico_tree_next :: "'k pico_tree \<Rightarrow> nat \<Rightarrow> nat option" where
  "pico_tree_next m node =
     (if rightChild m node \<noteq> LEAF then pico_tree_firstNode m (rightChild m node)
      else if parent m node \<noteq> LEAF \<and> AM_I_LEFT_CHILD m node then Some (parent m node)
      else next_up m node)"

partial_function (option) prev_up :: "'k pico_tree \<Rightarrow> nat \<Rightarrow> nat option" where
  [code]: "prev_up m node =
     (if node \<noteq> LEAF \<and> AM_I_LEFT_CHILD m node then prev_up m (parent m node)
      else Some (parent m node))"

definition pico_tree_prev :: "'k pico_tree \<Rightarrow> nat \<Rightarrow> nat option" where
  "pico_tree_prev m node =
     (if leftChild m node \<noteq> LEAF then pico_tree_lastNode m (leftChild m node)
      else if parent m node \<noteq> LEAF \<and> AM_I_RIGHT_CHILD m node then Some (parent m node)
      else prev_up m node)"

text \<open>The nodes a \<^verbatim>\<open>pico_tree_foreach\<close> and a \<^verbatim>\<open>pico_tree_foreach_reverse\<close> visit, from a node on.\<close>

partial_function (option) foreach_from :: "'k pico_tree \<Rightarrow> nat \<Rightarrow> nat list option" where
  [code]: "foreach_from m idx =
     (if idx = LEAF then Some []
      else Option.bind (pico_tree_next m idx)
        (\<lambda>nxt. Option.bind (foreach_from m nxt) (\<lambda>xs. Some (idx # xs))))"

definition pico_tree_foreach :: "'k pico_tree \<Rightarrow> nat list option" where
  "pico_tree_foreach m = Option.bind (pico_tree_firstNode m (root m)) (foreach_from m)"

partial_function (option) foreach_reverse_from :: "'k pico_tree \<Rightarrow> nat \<Rightarrow> nat list option" where
  [code]: "foreach_reverse_from m idx =
     (if idx = LEAF then Some []
      else Option.bind (pico_tree_prev m idx)
        (\<lambda>prv. Option.bind (foreach_reverse_from m prv) (\<lambda>xs. Some (idx # xs))))"

definition pico_tree_foreach_reverse :: "'k pico_tree \<Rightarrow> nat list option" where
  "pico_tree_foreach_reverse m = Option.bind (pico_tree_lastNode m (root m)) (foreach_reverse_from m)"

section \<open>Search\<close>

partial_function (option) find_loop :: "('k \<Rightarrow> 'k \<Rightarrow> int) \<Rightarrow> 'k pico_tree \<Rightarrow> 'k \<Rightarrow> nat \<Rightarrow> nat option option" where
  [code]: "find_loop cmp m key found =
     (if found = LEAF then Some None
      else let result = cmp (keyValue m found) key in
        if result = 0 then Some (Some found)
        else if result < 0 then find_loop cmp m key (rightChild m found)
        else find_loop cmp m key (leftChild m found))"

definition pico_tree_findNode :: "('k \<Rightarrow> 'k \<Rightarrow> int) \<Rightarrow> 'k pico_tree \<Rightarrow> 'k \<Rightarrow> nat option option" where
  "pico_tree_findNode cmp m key = find_loop cmp m key (root m)"

definition pico_tree_findKey :: "('k \<Rightarrow> 'k \<Rightarrow> int) \<Rightarrow> 'k pico_tree \<Rightarrow> 'k \<Rightarrow> 'k option option" where
  "pico_tree_findKey cmp m key = map_option (map_option (keyValue m)) (find_loop cmp m key (root m))"

definition pico_tree_first :: "'k pico_tree \<Rightarrow> 'k option" where
  "pico_tree_first m = map_option (keyValue m) (pico_tree_firstNode m (root m))"

definition pico_tree_last :: "'k pico_tree \<Rightarrow> 'k option" where
  "pico_tree_last m = map_option (keyValue m) (pico_tree_lastNode m (root m))"

definition pico_tree_empty :: "'k pico_tree \<Rightarrow> bool" where
  "pico_tree_empty m \<longleftrightarrow> root m = LEAF"

section \<open>Rotations\<close>

text \<open>\<open>old\<close> is replaced by \<open>new\<close> in the root or in the child pointer of its parent \<open>p\<close>; the left
  rotation tests the left child first, the right rotation the right one.\<close>

definition relink :: "nat \<Rightarrow> nat \<Rightarrow> nat \<Rightarrow> 'k pico_tree \<Rightarrow> 'k pico_tree" where
  "relink p old new m =
     (if p = LEAF then set_root new m else if old = leftChild m p then set_left p new m else set_right p new m)"

definition relink_r :: "nat \<Rightarrow> nat \<Rightarrow> nat \<Rightarrow> 'k pico_tree \<Rightarrow> 'k pico_tree" where
  "relink_r p old new m =
     (if p = LEAF then set_root new m else if old = rightChild m p then set_right p new m else set_left p new m)"

definition rotateToLeft :: "nat \<Rightarrow> 'k pico_tree \<Rightarrow> 'k pico_tree" where
  "rotateToLeft node m =
     (let temp = rightChild m node in
      if temp = LEAF then m
      else
        let m1 = set_right node (leftChild m temp) m;
            m2 = (if leftChild m1 temp \<noteq> LEAF then set_parent (leftChild m1 temp) node m1 else m1);
            m3 = set_parent temp (parent m2 node) m2;
            m4 = relink (parent m3 node) node temp m3;
            m5 = set_left temp node m4
        in set_parent node temp m5)"

definition rotateToRight :: "nat \<Rightarrow> 'k pico_tree \<Rightarrow> 'k pico_tree" where
  "rotateToRight node m =
     (let temp = leftChild m node;
          m1 = set_left node (rightChild m temp) m
      in if temp = LEAF then m1
      else
        let m2 = (if rightChild m1 temp \<noteq> LEAF then set_parent (rightChild m1 temp) node m1 else m1);
            m3 = set_parent temp (parent m2 node) m2;
            m4 = relink_r (parent m3 node) node temp m3;
            m5 = set_right temp node m4
        in set_parent node temp m5)"

section \<open>Insertion\<close>

definition create_node :: "nat option \<Rightarrow> 'k \<Rightarrow> 'k pico_tree \<Rightarrow> nat option \<times> 'k pico_tree" where
  "create_node mem key m =
     (case mem of
        None \<Rightarrow> (None, m)
      | Some n \<Rightarrow> (Some n, m\<lparr>keyValue := (keyValue m)(n := key), parent := (parent m)(n := LEAF),
          leftChild := (leftChild m)(n := LEAF), rightChild := (rightChild m)(n := LEAF),
          color := (color m)(n := RED)\<rparr>))"

text \<open>One turn of the loop of \<^verbatim>\<open>fix_insert_collisions\<close>: the node to go on with and the tree.\<close>

definition fix_insert_right :: "nat \<Rightarrow> 'k pico_tree \<Rightarrow> nat \<times> 'k pico_tree" where
  "fix_insert_right node m =
     (let temp = leftChild m (GRANPA m node) in
      if color m temp = RED then
        let m1 = set_color (parent m node) BLACK m;
            m2 = set_color temp BLACK m1;
            m3 = set_color (GRANPA m2 node) RED m2
        in (GRANPA m3 node, m3)
      else
        let (node, m) = (if node = leftChild m (parent m node)
                         then (parent m node, rotateToRight (parent m node) m) else (node, m));
            m1 = set_color (parent m node) BLACK m;
            m2 = set_color (GRANPA m1 node) RED m1
        in (node, rotateToLeft (GRANPA m2 node) m2))"

definition fix_insert_left :: "nat \<Rightarrow> 'k pico_tree \<Rightarrow> nat \<times> 'k pico_tree" where
  "fix_insert_left node m =
     (let temp = rightChild m (GRANPA m node) in
      if color m temp = RED then
        let m1 = set_color (parent m node) BLACK m;
            m2 = set_color temp BLACK m1;
            m3 = set_color (GRANPA m2 node) RED m2
        in (GRANPA m3 node, m3)
      else
        let (node, m) = (if AM_I_RIGHT_CHILD m node
                         then (parent m node, rotateToLeft (parent m node) m) else (node, m));
            m1 = set_color (parent m node) BLACK m;
            m2 = set_color (GRANPA m1 node) RED m1
        in (node, rotateToRight (GRANPA m2 node) m2))"

text \<open>A node that is neither child of its parent leaves the loop body without effect: the loop spins.\<close>

definition fix_insert_step :: "nat \<Rightarrow> 'k pico_tree \<Rightarrow> nat \<times> 'k pico_tree" where
  "fix_insert_step node m =
     (if AM_I_RIGHT_CHILD m (parent m node) then fix_insert_right node m
      else if AM_I_LEFT_CHILD m (parent m node) then fix_insert_left node m
      else (node, m))"

partial_function (option) fix_insert_loop :: "nat \<Rightarrow> 'k pico_tree \<Rightarrow> 'k pico_tree option" where
  [code]: "fix_insert_loop node m =
     (if color m (parent m node) = RED \<and> GRANPA m node \<noteq> LEAF
      then (case fix_insert_step node m of (node', m') \<Rightarrow> fix_insert_loop node' m')
      else Some m)"

definition fix_insert_collisions :: "nat \<Rightarrow> 'k pico_tree \<Rightarrow> 'k pico_tree option" where
  "fix_insert_collisions node m = map_option (\<lambda>m'. set_color (root m') BLACK m') (fix_insert_loop node m)"

partial_function (option) insert_place ::
  "('k \<Rightarrow> 'k \<Rightarrow> int) \<Rightarrow> 'k pico_tree \<Rightarrow> nat \<Rightarrow> nat \<Rightarrow> nat \<Rightarrow> nat option" where
  [code]: "insert_place cmp m new last_node temp =
     (if temp = LEAF then Some last_node
      else insert_place cmp m new temp
        (if cmp (keyValue m new) (keyValue m temp) < 0 then leftChild m temp else rightChild m temp))"

text \<open>What \<^verbatim>\<open>pico_tree_insert\<close> returns: the key found, \<^verbatim>\<open>&LEAF\<close> when out of memory, or \<^verbatim>\<open>NULL\<close>.\<close>

datatype 'k insert_result = AlreadyIn 'k | NoMemory | Inserted

definition pico_tree_insert ::
  "('k \<Rightarrow> 'k \<Rightarrow> int) \<Rightarrow> nat option \<Rightarrow> 'k \<Rightarrow> 'k pico_tree \<Rightarrow> ('k insert_result \<times> 'k pico_tree) option" where
  "pico_tree_insert cmp mem key m =
     Option.bind (if root m \<noteq> LEAF then pico_tree_findKey cmp m key else Some None)
       (\<lambda>LocalKey. case LocalKey of
          Some k \<Rightarrow> Some (AlreadyIn k, m)
        | None \<Rightarrow>
            (case create_node mem key m of
               (None, m1) \<Rightarrow> Some (NoMemory, m1)
             | (Some new, m1) \<Rightarrow>
                 Option.bind (insert_place cmp m1 new LEAF (root m1))
                   (\<lambda>last_node.
                      let m2 = set_parent new last_node m1;
                          m3 = (if last_node = LEAF then set_root new m2
                                else if cmp (keyValue m2 new) (keyValue m2 last_node) < 0
                                then set_left last_node new m2 else set_right last_node new m2)
                      in map_option (Pair Inserted) (fix_insert_collisions new m3))))"

section \<open>Deletion\<close>

definition switchNodes :: "nat \<Rightarrow> nat \<Rightarrow> 'k pico_tree \<Rightarrow> 'k pico_tree" where
  "switchNodes nodeA nodeB m =
     (let m1 = (if parent m nodeA = LEAF then set_root nodeB m
                else if nodeA \<noteq> LEAF then
                  (if AM_I_LEFT_CHILD m nodeA then set_left (parent m nodeA) nodeB m
                   else set_right (parent m nodeA) nodeB m)
                else m)
      in if nodeB \<noteq> LEAF then set_parent nodeB (parent m1 nodeA) m1 else m1)"

text \<open>The result is the colour removed, the node that took the place, and the tree.\<close>

definition pico_tree_delete_node :: "nat \<Rightarrow> 'k pico_tree \<Rightarrow> (colour \<times> nat \<times> 'k pico_tree) option" where
  "pico_tree_delete_node d m =
     Option.bind (pico_tree_firstNode m (rightChild m d))
       (\<lambda>mn.
          let nodeColor = color m mn;
              temp = rightChild m mn;
              m1 = (if parent m mn = d \<and> temp \<noteq> LEAF then set_parent temp mn m
                    else
                      let a = switchNodes mn (rightChild m mn) m;
                          b = set_right mn (rightChild a d) a
                      in if rightChild b mn \<noteq> LEAF then set_parent (rightChild b mn) mn b else b);
              m2 = switchNodes d mn m1;
              m3 = set_left mn (leftChild m2 d) m2;
              m4 = (if leftChild m3 mn \<noteq> LEAF then set_parent (leftChild m3 mn) mn m3 else m3);
              m5 = set_color mn (color m4 d) m4
          in Some (nodeColor, temp, m5))"

definition pico_tree_delete_check_switch :: "nat \<Rightarrow> 'k pico_tree \<Rightarrow> (colour \<times> nat \<times> 'k pico_tree) option" where
  "pico_tree_delete_check_switch d m =
     (if leftChild m d = LEAF then
        Some (color m d, rightChild m d, switchNodes d (rightChild m d) m)
      else if rightChild m d = LEAF then
        Some (color m d, leftChild m d, switchNodes d (leftChild m d) m)
      else pico_tree_delete_node d m)"

definition fix_delete_left :: "nat \<Rightarrow> 'k pico_tree \<Rightarrow> nat \<times> 'k pico_tree" where
  "fix_delete_left node m =
     (let temp = rightChild m (parent m node);
          (temp, m) =
            (if color m temp = RED then
               let m1 = set_color temp BLACK m;
                   m2 = set_color (parent m1 node) RED m1;
                   m3 = rotateToLeft (parent m2 node) m2
               in (rightChild m3 (parent m3 node), m3)
             else (temp, m))
      in if color m (leftChild m temp) = BLACK \<and> color m (rightChild m temp) = BLACK
         then let m1 = set_color temp RED m in (parent m1 node, m1)
         else
           let (temp, m) =
                 (if color m (rightChild m temp) = BLACK then
                    let m1 = set_color (leftChild m temp) BLACK m;
                        m2 = set_color temp RED m1;
                        m3 = rotateToRight temp m2
                    in (rightChild m3 (parent m3 temp), m3)
                  else (temp, m));
               m1 = set_color temp (color m (parent m node)) m;
               m2 = set_color (parent m1 node) BLACK m1;
               m3 = set_color (rightChild m2 temp) BLACK m2;
               m4 = rotateToLeft (parent m3 node) m3
           in (root m4, m4))"

definition fix_delete_right :: "nat \<Rightarrow> 'k pico_tree \<Rightarrow> nat \<times> 'k pico_tree" where
  "fix_delete_right node m =
     (let temp = leftChild m (parent m node);
          (temp, m) =
            (if color m temp = RED then
               let m1 = set_color temp BLACK m;
                   m2 = set_color (parent m1 node) RED m1;
                   m3 = rotateToRight (parent m2 node) m2
               in (leftChild m3 (parent m3 node), m3)
             else (temp, m))
      in if color m (rightChild m temp) = BLACK \<and> color m (leftChild m temp) = BLACK
         then let m1 = set_color temp RED m in (parent m1 node, m1)
         else
           let (temp, m) =
                 (if color m (leftChild m temp) = BLACK then
                    let m1 = set_color (rightChild m temp) BLACK m;
                        m2 = set_color temp RED m1;
                        m3 = rotateToLeft temp m2
                    in (leftChild m3 (parent m3 temp), m3)
                  else (temp, m));
               m1 = set_color temp (color m (parent m node)) m;
               m2 = set_color (parent m1 node) BLACK m1;
               m3 = set_color (leftChild m2 temp) BLACK m2;
               m4 = rotateToRight (parent m3 node) m3
           in (root m4, m4))"

partial_function (option) fix_delete_loop :: "nat \<Rightarrow> 'k pico_tree \<Rightarrow> (nat \<times> 'k pico_tree) option" where
  [code]: "fix_delete_loop node m =
     (if node \<noteq> root m \<and> color m node = BLACK \<and> node \<noteq> LEAF
      then (case (if AM_I_LEFT_CHILD m node then fix_delete_left node m else fix_delete_right node m) of
              (node', m') \<Rightarrow> fix_delete_loop node' m')
      else Some (node, m))"

definition fix_delete_collisions :: "nat \<Rightarrow> 'k pico_tree \<Rightarrow> 'k pico_tree option" where
  "fix_delete_collisions node m = map_option (\<lambda>(n, m'). set_color n BLACK m') (fix_delete_loop node m)"

definition if_nodecolor_black_fix_collisions :: "nat \<Rightarrow> colour \<Rightarrow> 'k pico_tree \<Rightarrow> 'k pico_tree option" where
  "if_nodecolor_black_fix_collisions temp nodeColor m =
     (if nodeColor = BLACK then fix_delete_collisions temp m else Some m)"

text \<open>The second component is the address that is released.\<close>

definition pico_tree_delete ::
  "('k \<Rightarrow> 'k \<Rightarrow> int) \<Rightarrow> 'k \<Rightarrow> 'k pico_tree \<Rightarrow> (('k \<times> nat) option \<times> 'k pico_tree) option" where
  "pico_tree_delete cmp key m =
     Option.bind (pico_tree_findNode cmp m key)
       (\<lambda>fnd. case fnd of
          None \<Rightarrow> Some (None, m)
        | Some d \<Rightarrow>
            Option.bind (pico_tree_delete_check_switch d m)
              (\<lambda>(nodeColor, temp, m1).
                 map_option (Pair (Some (keyValue m d, d)))
                   (if_nodecolor_black_fix_collisions temp nodeColor m1)))"

section \<open>Abstraction: the tree of addresses a structure represents\<close>

lemmas set_defs = set_parent_def set_left_def set_right_def set_color_def set_root_def

lemma set_sel [simp]:
  "parent (set_parent x v m) = (parent m)(x := v)" "leftChild (set_parent x v m) = leftChild m"
  "rightChild (set_parent x v m) = rightChild m" "root (set_parent x v m) = root m"
  "keyValue (set_parent x v m) = keyValue m" "color (set_parent x v m) = color m"
  "parent (set_left x v m) = parent m" "leftChild (set_left x v m) = (leftChild m)(x := v)"
  "rightChild (set_left x v m) = rightChild m" "root (set_left x v m) = root m"
  "keyValue (set_left x v m) = keyValue m" "color (set_left x v m) = color m"
  "parent (set_right x v m) = parent m" "leftChild (set_right x v m) = leftChild m"
  "rightChild (set_right x v m) = (rightChild m)(x := v)" "root (set_right x v m) = root m"
  "keyValue (set_right x v m) = keyValue m" "color (set_right x v m) = color m"
  "parent (set_root v m) = parent m" "leftChild (set_root v m) = leftChild m"
  "rightChild (set_root v m) = rightChild m" "root (set_root v m) = v"
  "keyValue (set_root v m) = keyValue m" "color (set_root v m) = color m"
  "parent (set_color x k m) = parent m" "leftChild (set_color x k m) = leftChild m"
  "rightChild (set_color x k m) = rightChild m" "root (set_color x k m) = root m"
  "keyValue (set_color x k m) = keyValue m" "color (set_color x k m) = (color m)(x := k)"
  by (simp_all add: set_defs)

fun repr :: "'k pico_tree \<Rightarrow> nat \<Rightarrow> nat \<Rightarrow> nat tree \<Rightarrow> bool" where
  "repr m p a Leaf \<longleftrightarrow> a = LEAF"
| "repr m p a (Node l x r) \<longleftrightarrow> a = x \<and> x \<noteq> LEAF \<and> parent m x = p \<and>
     repr m x (leftChild m x) l \<and> repr m x (rightChild m x) r"

definition leaf_ok :: "'k pico_tree \<Rightarrow> bool" where
  "leaf_ok m \<longleftrightarrow> parent m LEAF = LEAF \<and> leftChild m LEAF = LEAF \<and> rightChild m LEAF = LEAF"

definition is_tree :: "'k pico_tree \<Rightarrow> nat tree \<Rightarrow> bool" where
  "is_tree m t \<longleftrightarrow> leaf_ok m \<and> repr m LEAF (root m) t \<and> distinct (inorder t)"

definition keys :: "'k pico_tree \<Rightarrow> nat tree \<Rightarrow> 'k list" where
  "keys m t = map (keyValue m) (inorder t)"

lemma repr_nonzero: "repr m p a t \<Longrightarrow> LEAF \<notin> set_tree t"
  by (induction t arbitrary: p a) auto

lemma repr_root: "repr m p a t \<Longrightarrow> a \<noteq> LEAF \<longleftrightarrow> t \<noteq> Leaf"
  by (cases t) auto

lemma repr_in: "repr m p a t \<Longrightarrow> a \<noteq> LEAF \<Longrightarrow> a \<in> set_tree t \<and> parent m a = p"
  by (cases t) auto

lemma repr_reparent:
  assumes "repr m p a t" "distinct (inorder t)"
    and "\<And>x. x \<in> set_tree t \<Longrightarrow> leftChild m' x = leftChild m x \<and> rightChild m' x = rightChild m x"
    and "\<And>x. x \<in> set_tree t \<Longrightarrow> x \<noteq> a \<Longrightarrow> parent m' x = parent m x"
    and "t \<noteq> Leaf \<Longrightarrow> parent m' a = p'"
  shows "repr m' p' a t"
  using assms
proof (induction t arbitrary: p a p')
  case (Node l x r)
  have a: "a = x" "x \<noteq> LEAF" and l: "repr m x (leftChild m x) l" and r: "repr m x (rightChild m x) r"
    using Node.prems(1) by auto
  have xl: "x \<notin> set_tree l" "x \<notin> set_tree r" using Node.prems(2) by auto
  have par: "parent m' y = parent m y" if "y \<in> set_tree l \<union> set_tree r" for y
    using that Node.prems(4) [of y] a xl by auto
  have "repr m' x (leftChild m x) l"
    using Node.IH(1) [OF l, of x] Node.prems(2,3) par repr_in [OF l] repr_root [OF l] by auto
  moreover have "repr m' x (rightChild m x) r"
    using Node.IH(2) [OF r, of x] Node.prems(2,3) par repr_in [OF r] repr_root [OF r] by auto
  ultimately show ?case using a Node.prems(3) [of x] Node.prems(5) by simp
qed simp

lemma repr_cong:
  assumes "repr m p a t"
    and "\<And>x. x \<in> set_tree t \<Longrightarrow>
      leftChild m' x = leftChild m x \<and> rightChild m' x = rightChild m x \<and> parent m' x = parent m x"
  shows "repr m' p a t"
  using assms by (induction t arbitrary: p a) auto

subsection \<open>Contexts\<close>

text \<open>The path from a subtree up to the root: the side the subtree is on, the ancestor, its other subtree.\<close>

datatype dir = LeftOf | RightOf

type_synonym path = "(dir \<times> nat \<times> nat tree) list"

fun plug1 :: "dir \<times> nat \<times> nat tree \<Rightarrow> nat tree \<Rightarrow> nat tree" where
  "plug1 (LeftOf, x, r) s = Node s x r"
| "plug1 (RightOf, x, l) s = Node l x s"

fun plug :: "path \<Rightarrow> nat tree \<Rightarrow> nat tree" where
  "plug [] s = s"
| "plug (e # c) s = plug c (plug1 e s)"

fun up :: "path \<Rightarrow> nat" where
  "up [] = LEAF"
| "up ((d, x, t) # c) = x"

text \<open>\<open>path_repr m c a\<close>: the structure around the hole \<open>a\<close> is the path \<open>c\<close>.\<close>

fun path_repr :: "'k pico_tree \<Rightarrow> path \<Rightarrow> nat \<Rightarrow> bool" where
  "path_repr m [] a \<longleftrightarrow> root m = a"
| "path_repr m ((LeftOf, x, r) # c) a \<longleftrightarrow> x \<noteq> LEAF \<and> parent m x = up c \<and> leftChild m x = a \<and>
     repr m x (rightChild m x) r \<and> path_repr m c x"
| "path_repr m ((RightOf, x, l) # c) a \<longleftrightarrow> x \<noteq> LEAF \<and> parent m x = up c \<and> rightChild m x = a \<and>
     repr m x (leftChild m x) l \<and> path_repr m c x"

fun path_set :: "path \<Rightarrow> nat set" where
  "path_set [] = {}"
| "path_set ((d, x, t) # c) = insert x (set_tree t \<union> path_set c)"

lemma repr_plug: "repr m LEAF (root m) (plug c s) \<longleftrightarrow> (\<exists>a. path_repr m c a \<and> repr m (up c) a s)"
proof (induction c arbitrary: s)
  case (Cons e c)
  obtain d x t where e: "e = (d, x, t)" by (cases e)
  show ?case
    by (cases d) (auto simp: Cons e)
qed simp

lemma set_plug: "set_tree (plug c s) = path_set c \<union> set_tree s"
proof (induction c arbitrary: s)
  case (Cons e c)
  obtain d x t where e: "e = (d, x, t)" by (cases e)
  show ?case by (cases d) (auto simp: Cons e)
qed simp

lemma inorder_plug: "\<exists>xs ys. (\<forall>s. inorder (plug c s) = xs @ inorder s @ ys) \<and> path_set c = set xs \<union> set ys"
proof (induction c)
  case (Cons e c)
  obtain d x t where e: "e = (d, x, t)" by (cases e)
  obtain xs ys where IH: "\<And>s. inorder (plug c s) = xs @ inorder s @ ys" "path_set c = set xs \<union> set ys"
    using Cons.IH by auto
  show ?case
  proof (cases d)
    case LeftOf
    then have "(\<forall>s. inorder (plug (e # c) s) = xs @ inorder s @ (x # inorder t @ ys)) \<and>
      path_set (e # c) = set xs \<union> set (x # inorder t @ ys)" using IH e by auto
    then show ?thesis by blast
  next
    case RightOf
    then have "(\<forall>s. inorder (plug (e # c) s) = (xs @ inorder t @ [x]) @ inorder s @ ys) \<and>
      path_set (e # c) = set (xs @ inorder t @ [x]) \<union> set ys" using IH e by auto
    then show ?thesis by blast
  qed
qed simp

lemma inorder_plug_cong: "inorder s = inorder s' \<Longrightarrow> inorder (plug c s) = inorder (plug c s')"
  using inorder_plug [of c] by metis

lemma distinct_plug:
  "distinct (inorder (plug c s)) \<Longrightarrow> distinct (inorder s) \<and> path_set c \<inter> set_tree s = {}"
proof -
  assume d: "distinct (inorder (plug c s))"
  obtain xs ys where x: "\<And>s. inorder (plug c s) = xs @ inorder s @ ys" "path_set c = set xs \<union> set ys"
    using inorder_plug [of c] by auto
  then show ?thesis using d by (auto simp flip: set_inorder)
qed

lemma plug_append: "plug (c @ d) s = plug d (plug c s)"
  by (induction c arbitrary: s) auto

text \<open>Every address of a tree is the root of a subtree.\<close>

lemma in_tree_plug: "x \<in> set_tree t \<Longrightarrow> \<exists>c l r. t = plug c (Node l x r)"
proof (induction t)
  case (Node l y r)
  consider "x = y" | "x \<in> set_tree l" | "x \<in> set_tree r" using Node.prems by auto
  then show ?case
  proof cases
    case 1
    then have "Node l y r = plug [] (Node l x r)" by simp
    then show ?thesis by blast
  next
    case 2
    then obtain c l' r' where "l = plug c (Node l' x r')" using Node.IH by blast
    then have "Node l y r = plug (c @ [(LeftOf, y, r)]) (Node l' x r')" by (simp add: plug_append)
    then show ?thesis by blast
  next
    case 3
    then obtain c l' r' where "r = plug c (Node l' x r')" using Node.IH by blast
    then have "Node l y r = plug (c @ [(RightOf, y, l)]) (Node l' x r')" by (simp add: plug_append)
    then show ?thesis by blast
  qed
qed simp

lemma path_repr_cong:
  assumes "path_repr m c a" "root m' = root m"
    and "\<And>x. x \<in> path_set c \<Longrightarrow>
      leftChild m' x = leftChild m x \<and> rightChild m' x = rightChild m x \<and> parent m' x = parent m x"
  shows "path_repr m' c a"
  using assms
proof (induction c arbitrary: a)
  case (Cons e c)
  obtain d x t where e: "e = (d, x, t)" by (cases e)
  show ?case
    using Cons.prems Cons.IH [of x] by (cases d) (auto simp: e intro: repr_cong)
qed simp

section \<open>Rotations keep the sequence of nodes\<close>

lemma path_distinct:
  assumes "distinct (inorder (plug ((d, x, t) # c) s))"
  shows "x \<notin> set_tree t" "x \<notin> path_set c" "set_tree t \<inter> path_set c = {}" "distinct (inorder t)"
    "x \<notin> set_tree s" "set_tree s \<inter> set_tree t = {}"
  using distinct_plug [of c "plug1 (d, x, t) s"] assms by (cases d; auto)+

lemma up_notin: "LEAF \<notin> S \<Longrightarrow> path_set c \<inter> S = {} \<Longrightarrow> up c \<notin> S"
  by (cases c rule: up.cases) auto

lemma relink_path:
  assumes d: "distinct (inorder (plug c s))" and p: "path_repr m c old" and old: "old \<in> set_tree s" "old \<noteq> LEAF"
  shows "path_repr (relink (up c) old new m) c new"
proof (cases c)
  case Nil
  then show ?thesis by (simp add: relink_def set_defs)
next
  case (Cons e c')
  obtain dr x t where e: "e = (dr, x, t)" by (cases e)
  note pd = path_distinct [OF d [unfolded Cons e]]
  let ?m = "relink x old new m"
  have other: "old \<notin> set_tree t" using pd old by auto
  have upx: "up c = x" "x \<noteq> LEAF" using p Cons e by (cases dr; auto)+
  have frame: "leftChild ?m y = leftChild m y \<and> rightChild ?m y = rightChild m y \<and> parent ?m y = parent m y"
    if "y \<noteq> x" for y using that upx by (simp add: relink_def set_defs)
  have pc: "path_repr m c' x" "repr m x (if dr = LeftOf then rightChild m x else leftChild m x) t"
    using p Cons e by (cases dr; simp)+
  have p': "path_repr ?m c' x"
    using pc(1) by (rule path_repr_cong) (use frame pd upx in \<open>auto simp: relink_def set_defs\<close>)
  have t': "repr ?m x (if dr = LeftOf then rightChild m x else leftChild m x) t"
    using pc(2) by (rule repr_cong) (rule frame, use pd in blast)
  show ?thesis
  proof (cases dr)
    case LeftOf
    then show ?thesis using p p' t' Cons e upx by (simp add: relink_def set_defs)
  next
    case RightOf
    then have "leftChild m x \<noteq> old"
      using pc(2) repr_in other old(2) by force
    then show ?thesis using p p' t' Cons e upx RightOf
      by (auto simp: relink_def set_defs)
  qed
qed

lemma rotateToLeft_tree:
  assumes t: "is_tree m (plug c (Node a n (Node b y d)))"
  defines "m' \<equiv> rotateToLeft n m"
  shows "is_tree m' (plug c (Node (Node a n b) y d))" "keyValue m' = keyValue m" "color m' = color m"
proof -
  let ?s = "Node a n (Node b y d)" and ?s' = "Node (Node a n b) y d"
  have dist: "distinct (inorder (plug c ?s))" using t by (simp add: is_tree_def)
  obtain h where h: "path_repr m c h" "repr m (up c) h ?s" using t by (auto simp: is_tree_def repr_plug)
  have hn: "h = n" "n \<noteq> LEAF" "y \<noteq> LEAF" "parent m n = up c" "rightChild m n = y" using h by auto
  have ra: "repr m n (leftChild m n) a" and rb: "repr m y (leftChild m y) b" and rd: "repr m y (rightChild m y) d"
    using h by auto
  have ds: "distinct (inorder ?s)" "path_set c \<inter> set_tree ?s = {}" using distinct_plug [OF dist] by auto
  have upc: "up c \<notin> set_tree ?s"
    using repr_nonzero [OF h(2)] ds(2) by (rule up_notin)
  let ?b = "leftChild m y"
  have bset: "?b \<noteq> LEAF \<Longrightarrow> ?b \<in> set_tree b" using repr_in [OF rb] by simp
  have b0: "?b = LEAF \<longleftrightarrow> b = Leaf" using repr_root [OF rb] by blast
  have ne: "?b \<noteq> n" "?b \<noteq> y" "n \<noteq> y" "up c \<noteq> n" "up c \<noteq> y"
    and nin: "n \<notin> set_tree a" "n \<notin> set_tree b" "n \<notin> set_tree d" "y \<notin> set_tree a" "y \<notin> set_tree b" "y \<notin> set_tree d"
    using ds(1) upc bset hn by auto
  have bo: "?b \<notin> set_tree a" "?b \<notin> set_tree d" "distinct (inorder b)"
    using ds(1) bset repr_nonzero [OF ra] repr_nonzero [OF rd] by (cases "?b = LEAF"; auto)+
  have uo: "up c \<notin> set_tree a" "up c \<notin> set_tree b" "up c \<notin> set_tree d" using upc by auto
  have pn: "n \<notin> path_set c" "y \<notin> path_set c" "?b \<noteq> LEAF \<Longrightarrow> ?b \<notin> path_set c" using ds(2) bset by auto
  have m': "m' = set_parent n y (set_left y n (relink (up c) n y
      (set_parent y (up c) ((if ?b \<noteq> LEAF then set_parent ?b n else id) (set_right n ?b m)))))"
    using hn ne unfolding m'_def rotateToLeft_def Let_def by (cases "?b = LEAF") simp_all
  let ?m3 = "set_parent y (up c) ((if ?b \<noteq> LEAF then set_parent ?b n else id) (set_right n ?b m))"
  have m3: "leftChild ?m3 = leftChild m" "rightChild ?m3 = (rightChild m)(n := ?b)" "root ?m3 = root m"
    "parent ?m3 = (if ?b \<noteq> LEAF then (parent m)(?b := n, y := up c) else (parent m)(y := up c))"
    by auto
  have "path_repr ?m3 c n"
    using h(1) [unfolded hn(1)] by (rule path_repr_cong) (use m3 pn in auto)
  then have p4: "path_repr (relink (up c) n y ?m3) c y"
    by (rule relink_path [OF dist]) (use hn in auto)
  have lf: "leftChild m' x = ((leftChild m)(y := n)) x" "rightChild m' x = ((rightChild m)(n := ?b)) x"
      "parent m' x = ((parent ?m3)(n := y)) x" if "x \<noteq> up c" for x
    unfolding m' using that by (auto simp: relink_def)
  have lfa: "leftChild m' x = leftChild m x" "rightChild m' x = rightChild m x"
      "x \<noteq> ?b \<Longrightarrow> parent m' x = parent m x" if "x \<noteq> up c" "x \<noteq> n" "x \<noteq> y" for x
    using lf [OF that(1)] that(2,3) m3 by simp_all
  have p': "path_repr m' c y"
    using p4 by (rule path_repr_cong) (use pn m' in auto)
  have a': "repr m' n (leftChild m n) a"
    using ra by (rule repr_cong) (use lfa nin bo uo in metis)
  have d': "repr m' y (rightChild m y) d"
    using rd by (rule repr_cong) (use lfa nin bo uo in metis)
  have pb: "parent m' ?b = n" if "b \<noteq> Leaf"
  proof -
    have "?b \<noteq> LEAF" using that b0 by simp
    moreover then have "?b \<noteq> up c" using bset uo by auto
    ultimately show ?thesis using lf(3) [of ?b] m3 ne by simp
  qed
  have b': "repr m' n ?b b"
    by (rule repr_reparent [OF rb bo(3)]) (use lfa nin uo pb in metis)+
  have s': "repr m' (up c) y ?s'"
    using a' b' d' lf [of n] lf [of y] m3 hn ne by simp
  have "leaf_ok m'"
    using t hn unfolding leaf_ok_def is_tree_def m' by (auto simp: relink_def)
  moreover have "inorder (plug c ?s') = inorder (plug c ?s)" by (rule inorder_plug_cong) simp
  ultimately show "is_tree m' (plug c ?s')"
    using p' s' dist unfolding is_tree_def repr_plug by auto
  show "keyValue m' = keyValue m" "color m' = color m" unfolding m' by (simp_all add: relink_def)
qed

subsection \<open>Mirror images\<close>

definition mir :: "'k pico_tree \<Rightarrow> 'k pico_tree" where
  "mir m = m\<lparr>leftChild := rightChild m, rightChild := leftChild m\<rparr>"

fun mir_path :: "path \<Rightarrow> path" where
  "mir_path [] = []"
| "mir_path ((LeftOf, x, t) # c) = (RightOf, x, mirror t) # mir_path c"
| "mir_path ((RightOf, x, t) # c) = (LeftOf, x, mirror t) # mir_path c"

lemma mir_sel [simp]: "leftChild (mir m) = rightChild m" "rightChild (mir m) = leftChild m"
  "parent (mir m) = parent m" "root (mir m) = root m" "color (mir m) = color m" "keyValue (mir m) = keyValue m"
  by (simp_all add: mir_def)

lemma mir_mir [simp]: "mir (mir m) = m"
  by (simp add: mir_def)

lemma mir_set [simp]: "mir (set_left x v m) = set_right x v (mir m)" "mir (set_right x v m) = set_left x v (mir m)"
  "mir (set_parent x v m) = set_parent x v (mir m)" "mir (set_root v m) = set_root v (mir m)"
  "mir (set_color x k m) = set_color x k (mir m)"
  by (simp_all add: mir_def set_defs)

lemma mir_relink: "mir (relink p old new m) = relink_r p old new (mir m)"
  by (simp add: relink_def relink_r_def)

lemma repr_mir: "repr (mir m) p a (mirror t) \<longleftrightarrow> repr m p a t"
  by (induction t arbitrary: p a) auto

lemma is_tree_mir [simp]: "is_tree (mir m) (mirror t) \<longleftrightarrow> is_tree m t"
  by (auto simp: is_tree_def leaf_ok_def repr_mir inorder_mirror)

lemma mirror_plug: "mirror (plug c s) = plug (mir_path c) (mirror s)"
  by (induction c arbitrary: s rule: mir_path.induct) auto

lemma mir_path_mir [simp]: "mir_path (mir_path c) = c"
  by (induction c rule: mir_path.induct) auto

lemma rotateToRight_mir: "leftChild m n \<noteq> LEAF \<Longrightarrow> leftChild m n \<noteq> n \<Longrightarrow> rightChild m (leftChild m n) \<noteq> n \<Longrightarrow>
    rotateToRight n m = mir (rotateToLeft n (mir m))"
  by (cases "rightChild m (leftChild m n) = LEAF")
    (simp_all add: rotateToRight_def rotateToLeft_def Let_def mir_relink)

lemma rotateToLeft_leaf: "rightChild m n = LEAF \<Longrightarrow> rotateToLeft n m = m"
  by (simp add: rotateToLeft_def)

lemma rotateToRight_leaf: "leaf_ok m \<Longrightarrow> leftChild m n = LEAF \<Longrightarrow> rotateToRight n m = m"
  by (cases m) (auto simp: rotateToRight_def leaf_ok_def set_left_def Let_def)

lemma rotateToRight_tree:
  assumes t: "is_tree m (plug c (Node (Node a y b) n d))"
  defines "m' \<equiv> rotateToRight n m"
  shows "is_tree m' (plug c (Node a y (Node b n d)))" "keyValue m' = keyValue m" "color m' = color m"
proof -
  have "is_tree (mir m) (mirror (plug c (Node (Node a y b) n d)))" using t by simp
  then have t': "is_tree (mir m) (plug (mir_path c) (Node (mirror d) n (Node (mirror b) y (mirror a))))"
    by (simp add: mirror_plug)
  obtain h where h: "repr m (up c) h (Node (Node a y b) n d)" using t by (auto simp: is_tree_def repr_plug)
  have "distinct (inorder (Node (Node a y b) n d))"
    using t distinct_plug unfolding is_tree_def by blast
  then have "leftChild m n \<noteq> LEAF" "leftChild m n \<noteq> n" "rightChild m (leftChild m n) \<noteq> n"
    using h repr_in [of m y "rightChild m y" b] by auto
  then have m': "m' = mir (rotateToLeft n (mir m))" unfolding m'_def by (rule rotateToRight_mir)
  note r = rotateToLeft_tree [OF t']
  have "is_tree (mir m') (mirror (plug c (Node a y (Node b n d))))"
    using r(1) unfolding m' by (simp add: mirror_plug)
  then show "is_tree m' (plug c (Node a y (Node b n d)))" by simp
  show "keyValue m' = keyValue m" "color m' = color m" using r(2,3) by (simp_all add: m')
qed

lemma is_tree_set_color [simp]: "is_tree (set_color x k m) t \<longleftrightarrow> is_tree m t"
proof -
  have "repr (set_color x k m) p a t \<longleftrightarrow> repr m p a t" for p a
    by (induction t arbitrary: p a) (auto simp: set_color_def)
  then show ?thesis by (simp add: is_tree_def leaf_ok_def set_color_def)
qed

section \<open>Insertion repairs colours without changing the sequence\<close>

lemma is_tree_sub:
  assumes "is_tree m (plug c (Node l z r))"
  shows "z \<noteq> LEAF" "parent m z = up c" "repr m z (leftChild m z) l" "repr m z (rightChild m z) r"
    "z \<notin> path_set c" "z \<notin> set_tree l" "z \<notin> set_tree r"
proof -
  obtain h where "repr m (up c) h (Node l z r)" using assms by (auto simp: is_tree_def repr_plug)
  then show "z \<noteq> LEAF" "parent m z = up c" "repr m z (leftChild m z) l" "repr m z (rightChild m z) r" by auto
  have "distinct (inorder (Node l z r)) \<and> path_set c \<inter> set_tree (Node l z r) = {}"
    using assms distinct_plug unfolding is_tree_def by blast
  then show "z \<notin> path_set c" "z \<notin> set_tree l" "z \<notin> set_tree r" by auto
qed

lemma is_tree_child:
  assumes t: "is_tree m (plug ((d, x, t) # c) (Node l z r))"
  shows "d = LeftOf \<longleftrightarrow> leftChild m x = z" "d = RightOf \<longleftrightarrow> rightChild m x = z"
    "x \<noteq> LEAF" "parent m x = up c" "z \<noteq> x"
proof -
  have "is_tree m (plug c (plug1 (d, x, t) (Node l z r)))" using t by simp
  then obtain l' r' where n: "is_tree m (plug c (Node l' x r'))"
      "(l', r') = (if d = LeftOf then (Node l z r, t) else (t, Node l z r))"
    by (cases d) auto
  note sub = is_tree_sub [OF n(1)]
  have z: "z \<notin> set_tree t" "z \<noteq> x"
    using path_distinct [of d x t c "Node l z r"] t by (auto simp: is_tree_def)
  then have "leftChild m x \<noteq> z" if "d = RightOf"
    using sub(3) n(2) that repr_in [of m x _ t] is_tree_sub(1) [OF t] by auto
  moreover have "rightChild m x \<noteq> z" if "d = LeftOf"
    using sub(4) n(2) that z repr_in [of m x _ t] is_tree_sub(1) [OF t] by auto
  ultimately show "d = LeftOf \<longleftrightarrow> leftChild m x = z" "d = RightOf \<longleftrightarrow> rightChild m x = z"
    using sub(3,4) n(2) by (cases d; auto)+
  show "x \<noteq> LEAF" "parent m x = up c" "z \<noteq> x" using sub(1,2) z by auto
qed

text \<open>What a turn of the loop guarantees: same sequence, and it ends or the node is two levels higher.\<close>

definition step_ok :: "'k pico_tree \<Rightarrow> path \<Rightarrow> nat tree \<Rightarrow> nat \<times> 'k pico_tree \<Rightarrow> bool" where
  "step_ok m c t res \<longleftrightarrow> (case res of (z', m') \<Rightarrow> keyValue m' = keyValue m \<and>
     (\<exists>c' l' r'. is_tree m' (plug c' (Node l' z' r')) \<and> inorder (plug c' (Node l' z' r')) = inorder t \<and>
        (length c' < length c \<or> color m' (parent m' z') = BLACK)))"

lemma fix_insert_right_ok:
  assumes t: "is_tree m (plug ((d, p, s) # (RightOf, g, u) # c) (Node l z r))"
  shows "step_ok m ((d, p, s) # (RightOf, g, u) # c) (plug ((d, p, s) # (RightOf, g, u) # c) (Node l z r))
    (fix_insert_right z m)"
proof -
  note zp = is_tree_sub [OF t] is_tree_child [OF t]
  obtain a b where ab: "plug1 (d, p, s) (Node l z r) = Node a p b" by (cases d) auto
  have tp: "is_tree m (plug ((RightOf, g, u) # c) (Node a p b))" using t ab by simp
  note pg = is_tree_child [OF tp]
  have par: "parent m z = p" "parent m p = g" "GRANPA m z = g" using zp(2) pg zp(11) by (auto simp: GRANPA_def)
  consider "color m (leftChild m g) = RED"
    | "color m (leftChild m g) \<noteq> RED" "d = LeftOf" | "color m (leftChild m g) \<noteq> RED" "d = RightOf"
    by (cases d) auto
  then show ?thesis
  proof cases
    case 1
    then have res: "fix_insert_right z m = (g, set_color g RED (set_color (leftChild m g) BLACK (set_color p BLACK m)))"
      using par by (simp add: fix_insert_right_def GRANPA_def)
    show ?thesis
      unfolding step_ok_def res prod.case using t ab
      by (intro conjI exI [of _ c] exI [of _ u] exI [of _ "Node a p b"]) simp_all
  next
    case 2
    let ?m1 = "rotateToRight p m"
    have t1: "is_tree m (plug ((RightOf, g, u) # c) (Node (Node l z r) p s))" using t 2 by simp
    note r1 = rotateToRight_tree [OF t1]
    have up1: "parent ?m1 p = z" "parent ?m1 z = g" "z \<noteq> g"
      using is_tree_sub(2) [of ?m1 "(RightOf, z, l) # (RightOf, g, u) # c" r p s]
        is_tree_child(4,5) [of ?m1 RightOf z l "(RightOf, g, u) # c" r p s] r1(1)
        is_tree_child(5) [of ?m1 RightOf g u c l z "Node r p s"] by simp_all
    let ?m2 = "set_color g RED (set_color z BLACK ?m1)"
    have "is_tree ?m2 (plug c (Node u g (Node l z (Node r p s))))" using r1(1) by simp
    note r2 = rotateToLeft_tree [OF this]
    have res: "fix_insert_right z m = (p, rotateToLeft g ?m2)"
      using 2 par zp(8) up1 by (simp add: fix_insert_right_def GRANPA_def)
    have t3: "is_tree (rotateToLeft g ?m2) (plug ((RightOf, z, Node u g l) # c) (Node r p s))" using r2(1) by simp
    have "color (rotateToLeft g ?m2) (parent (rotateToLeft g ?m2) p) = BLACK"
      using is_tree_sub(2) [OF t3] r2(3) up1 by simp
    moreover have "inorder (plug ((RightOf, z, Node u g l) # c) (Node r p s)) =
        inorder (plug ((d, p, s) # (RightOf, g, u) # c) (Node l z r))"
      using 2 by (auto intro!: inorder_plug_cong)
    ultimately show ?thesis
      unfolding step_ok_def res prod.case using t3 r2(2) r1(2) by (intro conjI) (simp, blast)
  next
    case 3
    let ?m2 = "set_color g RED (set_color p BLACK m)"
    have "is_tree ?m2 (plug c (Node u g (Node s p (Node l z r))))" using t 3 by simp
    note r2 = rotateToLeft_tree [OF this]
    have "z \<noteq> leftChild m p" using 3 zp(8) by auto
    then have res: "fix_insert_right z m = (z, rotateToLeft g ?m2)"
      using 3 par by (simp add: fix_insert_right_def GRANPA_def)
    have t3: "is_tree (rotateToLeft g ?m2) (plug ((RightOf, p, Node u g s) # c) (Node l z r))" using r2(1) by simp
    have "color (rotateToLeft g ?m2) (parent (rotateToLeft g ?m2) z) = BLACK"
      using is_tree_sub(2) [OF t3] r2(3) pg(5) by simp
    moreover have "inorder (plug ((RightOf, p, Node u g s) # c) (Node l z r)) =
        inorder (plug ((d, p, s) # (RightOf, g, u) # c) (Node l z r))"
      using 3 by (auto intro!: inorder_plug_cong)
    ultimately show ?thesis
      unfolding step_ok_def res prod.case using t3 r2(2) by (intro conjI) (simp, blast)
  qed
qed

lemma fix_insert_left_ok:
  assumes t: "is_tree m (plug ((d, p, s) # (LeftOf, g, u) # c) (Node l z r))"
  shows "step_ok m ((d, p, s) # (LeftOf, g, u) # c) (plug ((d, p, s) # (LeftOf, g, u) # c) (Node l z r))
    (fix_insert_left z m)"
proof -
  note zp = is_tree_sub [OF t] is_tree_child [OF t]
  obtain a b where ab: "plug1 (d, p, s) (Node l z r) = Node a p b" by (cases d) auto
  have tp: "is_tree m (plug ((LeftOf, g, u) # c) (Node a p b))" using t ab by simp
  note pg = is_tree_child [OF tp]
  have par: "parent m z = p" "parent m p = g" "GRANPA m z = g" using zp(2) pg zp(11) by (auto simp: GRANPA_def)
  consider "color m (rightChild m g) = RED"
    | "color m (rightChild m g) \<noteq> RED" "d = RightOf" | "color m (rightChild m g) \<noteq> RED" "d = LeftOf"
    by (cases d) auto
  then show ?thesis
  proof cases
    case 1
    then have res: "fix_insert_left z m = (g, set_color g RED (set_color (rightChild m g) BLACK (set_color p BLACK m)))"
      using par by (simp add: fix_insert_left_def GRANPA_def)
    show ?thesis
      unfolding step_ok_def res prod.case using t ab
      by (intro conjI exI [of _ c] exI [of _ "Node a p b"] exI [of _ u]) simp_all
  next
    case 2
    let ?m1 = "rotateToLeft p m"
    have t1: "is_tree m (plug ((LeftOf, g, u) # c) (Node s p (Node l z r)))" using t 2 by simp
    note r1 = rotateToLeft_tree [OF t1]
    have up1: "parent ?m1 p = z" "parent ?m1 z = g" "z \<noteq> g"
      using is_tree_sub(2) [of ?m1 "(LeftOf, z, r) # (LeftOf, g, u) # c" s p l]
        is_tree_child(4,5) [of ?m1 LeftOf z r "(LeftOf, g, u) # c" s p l] r1(1)
        is_tree_child(5) [of ?m1 LeftOf g u c "Node s p l" z r] by simp_all
    let ?m2 = "set_color g RED (set_color z BLACK ?m1)"
    have "is_tree ?m2 (plug c (Node (Node (Node s p l) z r) g u))" using r1(1) by simp
    note r2 = rotateToRight_tree [OF this]
    have res: "fix_insert_left z m = (p, rotateToRight g ?m2)"
      using 2 par zp(9) up1 by (simp add: fix_insert_left_def GRANPA_def AM_I_RIGHT_CHILD_def)
    have t3: "is_tree (rotateToRight g ?m2) (plug ((LeftOf, z, Node r g u) # c) (Node s p l))" using r2(1) by simp
    have "color (rotateToRight g ?m2) (parent (rotateToRight g ?m2) p) = BLACK"
      using is_tree_sub(2) [OF t3] r2(3) up1 by simp
    moreover have "inorder (plug ((LeftOf, z, Node r g u) # c) (Node s p l)) =
        inorder (plug ((d, p, s) # (LeftOf, g, u) # c) (Node l z r))"
      using 2 by (auto intro!: inorder_plug_cong)
    ultimately show ?thesis
      unfolding step_ok_def res prod.case using t3 r2(2) r1(2) by (intro conjI) (simp, blast)
  next
    case 3
    let ?m2 = "set_color g RED (set_color p BLACK m)"
    have "is_tree ?m2 (plug c (Node (Node (Node l z r) p s) g u))" using t 3 by simp
    note r2 = rotateToRight_tree [OF this]
    have "z \<noteq> rightChild m p" using 3 zp(9) by auto
    then have res: "fix_insert_left z m = (z, rotateToRight g ?m2)"
      using 3 par by (simp add: fix_insert_left_def GRANPA_def AM_I_RIGHT_CHILD_def)
    have t3: "is_tree (rotateToRight g ?m2) (plug ((LeftOf, p, Node s g u) # c) (Node l z r))" using r2(1) by simp
    have "color (rotateToRight g ?m2) (parent (rotateToRight g ?m2) z) = BLACK"
      using is_tree_sub(2) [OF t3] r2(3) pg(5) by simp
    moreover have "inorder (plug ((LeftOf, p, Node s g u) # c) (Node l z r)) =
        inorder (plug ((d, p, s) # (LeftOf, g, u) # c) (Node l z r))"
      using 3 by (auto intro!: inorder_plug_cong)
    ultimately show ?thesis
      unfolding step_ok_def res prod.case using t3 r2(2) by (intro conjI) (simp, blast)
  qed
qed

lemma path_two:
  assumes t: "is_tree m (plug c (Node l z r))" and g: "GRANPA m z \<noteq> LEAF"
  shows "\<exists>d p s d' g' u c'. c = (d, p, s) # (d', g', u) # c'"
proof (cases c)
  case Nil
  then show ?thesis using g t is_tree_sub(2) [OF t] by (simp add: GRANPA_def is_tree_def leaf_ok_def)
next
  case (Cons e c')
  obtain d p s where e: "e = (d, p, s)" by (cases e)
  have "parent m z = p" "parent m p = up c'"
    using is_tree_sub(2) [OF t] is_tree_child(4) [of m d p s c' l z r] t Cons e by auto
  then show ?thesis using g Cons e by (cases c') (auto simp: GRANPA_def)
qed

lemma fix_insert_step_ok:
  assumes t: "is_tree m (plug c (Node l z r))" and g: "GRANPA m z \<noteq> LEAF"
  shows "step_ok m c (plug c (Node l z r)) (fix_insert_step z m)"
proof -
  obtain d p s d' g' u c' where c: "c = (d, p, s) # (d', g', u) # c'" using path_two [OF t g] by blast
  obtain a b where "plug1 (d, p, s) (Node l z r) = Node a p b" by (cases d) auto
  then have tp: "is_tree m (plug ((d', g', u) # c') (Node a p b))" using t c by simp
  have par: "parent m z = p" "parent m p = g'" using is_tree_sub(2) [OF t] is_tree_sub(2) [OF tp] c by auto
  show ?thesis
  proof (cases d')
    case LeftOf
    then have "fix_insert_step z m = fix_insert_left z m"
      using is_tree_child(1,2) [OF tp] par
      by (auto simp: fix_insert_step_def AM_I_LEFT_CHILD_def AM_I_RIGHT_CHILD_def)
    then show ?thesis using fix_insert_left_ok t c LeftOf by fastforce
  next
    case RightOf
    then have "fix_insert_step z m = fix_insert_right z m"
      using is_tree_child(1,2) [OF tp] par by (auto simp: fix_insert_step_def AM_I_RIGHT_CHILD_def)
    then show ?thesis using fix_insert_right_ok t c RightOf by fastforce
  qed
qed

lemma fix_insert_loop_ok:
  "is_tree m (plug c (Node l z r)) \<Longrightarrow>
   \<exists>m' t'. fix_insert_loop z m = Some m' \<and> is_tree m' t' \<and>
     inorder t' = inorder (plug c (Node l z r)) \<and> keyValue m' = keyValue m"
proof (induction "length c" arbitrary: c l z r m rule: less_induct)
  case less
  show ?case
  proof (cases "color m (parent m z) = RED \<and> GRANPA m z \<noteq> LEAF")
    case True
    obtain z' m' where st: "fix_insert_step z m = (z', m')" by (cases "fix_insert_step z m")
    have unf: "fix_insert_loop z m = fix_insert_loop z' m'"
      using True st by (subst fix_insert_loop.simps) simp
    obtain c' l' r' where s: "keyValue m' = keyValue m" "is_tree m' (plug c' (Node l' z' r'))"
        "inorder (plug c' (Node l' z' r')) = inorder (plug c (Node l z r))"
        "length c' < length c \<or> color m' (parent m' z') = BLACK"
      using fix_insert_step_ok [OF less.prems conjunct2 [OF True]] unfolding st step_ok_def by auto
    show ?thesis
    proof (cases "length c' < length c")
      case True
      then show ?thesis using less.hyps [OF True s(2)] s unf by auto
    next
      case False
      then have "fix_insert_loop z' m' = Some m'" using s(4) by (subst fix_insert_loop.simps) simp
      then show ?thesis using s unf by auto
    qed
  next
    case False
    then have "fix_insert_loop z m = Some m" by (subst fix_insert_loop.simps) auto
    then show ?thesis using less.prems by auto
  qed
qed

section \<open>The abstract contract: strictly sorted lists of keys\<close>

definition tsorted :: "('k \<Rightarrow> 'k \<Rightarrow> int) \<Rightarrow> 'k list \<Rightarrow> bool" where
  "tsorted cmp xs \<longleftrightarrow> sorted_wrt (\<lambda>a b. cmp a b < 0) xs"

definition tfind :: "('k \<Rightarrow> 'k \<Rightarrow> int) \<Rightarrow> 'k \<Rightarrow> 'k list \<Rightarrow> 'k option" where
  "tfind cmp k xs = List.find (\<lambda>x. cmp x k = 0) xs"

definition tinsert :: "('k \<Rightarrow> 'k \<Rightarrow> int) \<Rightarrow> 'k \<Rightarrow> 'k list \<Rightarrow> 'k list" where
  "tinsert cmp k xs = (if tfind cmp k xs \<noteq> None then xs
     else takeWhile (\<lambda>x. cmp x k < 0) xs @ k # dropWhile (\<lambda>x. cmp x k < 0) xs)"

definition tdelete :: "('k \<Rightarrow> 'k \<Rightarrow> int) \<Rightarrow> 'k \<Rightarrow> 'k list \<Rightarrow> 'k list" where
  "tdelete cmp k xs = filter (\<lambda>x. cmp x k \<noteq> 0) xs"

text \<open>
  What the code asks of a comparison function: \<^verbatim>\<open>findKey\<close> calls it with the stored key first,
  insertion with the new key first, so the two orders have to agree.
\<close>

locale tree_order =
  fixes cmp :: "'k \<Rightarrow> 'k \<Rightarrow> int"
  assumes cmp_refl: "cmp a a = 0"
    and cmp_anti: "cmp a b < 0 \<longleftrightarrow> 0 < cmp b a"
    and cmp_trans: "cmp a b < 0 \<Longrightarrow> cmp b c < 0 \<Longrightarrow> cmp a c < 0"
    and cmp_eqv: "cmp a b = 0 \<Longrightarrow> cmp a c < 0 \<longleftrightarrow> cmp b c < 0"
begin

lemma cmp_sym0: "cmp a b = 0 \<longleftrightarrow> cmp b a = 0"
  by (metis cmp_anti less_irrefl linorder_neqE)

lemma cmp_eqv2_imp: assumes ab: "cmp a b = 0" and ca: "cmp c a < 0" shows "cmp c b < 0"
proof (rule ccontr)
  assume "\<not> cmp c b < 0"
  then consider "cmp c b = 0" | "cmp b c < 0" using cmp_anti [of b c] by linarith
  then show False
  proof cases
    case 1
    then have "cmp b a < 0" using cmp_eqv [of c b a] ca by simp
    then show False using ab cmp_anti [of b a] by simp
  next
    case 2
    then have "cmp a c < 0" using cmp_eqv [OF ab] by simp
    then show False using ca cmp_anti [of a c] by simp
  qed
qed

lemma cmp_eqv2: "cmp a b = 0 \<Longrightarrow> cmp c a < 0 \<longleftrightarrow> cmp c b < 0"
  using cmp_eqv2_imp [of a b c] cmp_eqv2_imp [of b a c] cmp_sym0 by blast

lemma cmp_eqv0: "cmp a b = 0 \<Longrightarrow> cmp c a = 0 \<longleftrightarrow> cmp c b = 0"
  using cmp_eqv2 [of a b c] cmp_eqv [of a b c] cmp_anti [of a c] cmp_anti [of b c] by linarith

lemma cmp_less_eq: "cmp a b < 0 \<Longrightarrow> cmp b c \<le> 0 \<Longrightarrow> cmp a c < 0"
  using cmp_trans cmp_eqv2 by (metis order_le_less)

lemma cmp_eq_less: "cmp a b \<le> 0 \<Longrightarrow> cmp b c < 0 \<Longrightarrow> cmp a c < 0"
  using cmp_trans cmp_eqv by (metis order_le_less)

lemma tfind_None: "tfind cmp k xs = None \<longleftrightarrow> (\<forall>x\<in>set xs. cmp x k \<noteq> 0)"
  by (auto simp: tfind_def find_None_iff)

lemma tfind_Some: "tfind cmp k xs = Some x \<Longrightarrow> x \<in> set xs \<and> cmp x k = 0"
  by (auto simp: tfind_def find_Some_iff)

lemma find_mid: "List.find P us = None \<Longrightarrow> P x \<Longrightarrow> List.find P (us @ x # vs) = Some x"
  by (induction us) (auto split: if_splits)

lemma tfind_unique:
  assumes "tsorted cmp xs" "x \<in> set xs" "cmp x k = 0"
  shows "tfind cmp k xs = Some x"
proof -
  obtain us vs where xs: "xs = us @ x # vs" using assms(2) split_list by fast
  then have "cmp u x < 0" if "u \<in> set us" for u using assms(1) that by (auto simp: tsorted_def sorted_wrt_append)
  then have "cmp u k \<noteq> 0" if "u \<in> set us" for u using that assms(3) cmp_eqv2 by force
  then have "List.find (\<lambda>x. cmp x k = 0) us = None" by (auto simp: find_None_iff)
  then show ?thesis using xs assms(3) by (simp add: tfind_def find_mid)
qed

lemma set_tinsert: "set (tinsert cmp k xs) = (if tfind cmp k xs = None then insert k (set xs) else set xs)"
  by (auto simp: tinsert_def dest: set_takeWhileD set_dropWhileD)
    (metis Un_iff set_append takeWhile_dropWhile_id)

lemma tsorted_tinsert: "tsorted cmp xs \<Longrightarrow> tsorted cmp (tinsert cmp k xs)"
proof -
  assume s: "tsorted cmp xs"
  show ?thesis
  proof (cases "tfind cmp k xs = None")
    case True
    let ?P = "\<lambda>x. cmp x k < 0"
    have st: "sorted_wrt (\<lambda>a b. cmp a b < 0) (takeWhile ?P xs @ dropWhile ?P xs)" using s by (simp add: tsorted_def)
    have lt: "cmp x k < 0" if "x \<in> set (takeWhile ?P xs)" for x using that by (auto dest: set_takeWhileD)
    have gt: "cmp k y < 0" if y: "y \<in> set (dropWhile ?P xs)" for y
    proof -
      have nz: "cmp y k \<noteq> 0" using True y by (auto simp: tfind_None dest: set_dropWhileD)
      obtain h ys where dw: "dropWhile ?P xs = h # ys" using y by (cases "dropWhile ?P xs") auto
      then have h: "\<not> cmp h k < 0" using hd_dropWhile [of ?P xs] by simp
      have "y = h \<or> cmp h y < 0" using y st [unfolded sorted_wrt_append] unfolding dw by (metis set_ConsD sorted_wrt.simps(2))
      then have "\<not> cmp y k < 0" using h cmp_trans [of h y k] by blast
      then show ?thesis using nz cmp_anti [of k y] by linarith
    qed
    have both: "cmp x y < 0" if "x \<in> set (takeWhile ?P xs)" "y \<in> set (dropWhile ?P xs)" for x y
      using st [unfolded sorted_wrt_append] that by blast
    have "sorted_wrt (\<lambda>a b. cmp a b < 0) (takeWhile ?P xs @ k # dropWhile ?P xs)"
      unfolding sorted_wrt_append sorted_wrt.simps(2) list.set
      using st [unfolded sorted_wrt_append] lt gt both by blast
    then show ?thesis using True by (simp add: tinsert_def tsorted_def)
  next
    case False
    then show ?thesis using s by (simp add: tinsert_def)
  qed
qed

lemma tfind_tinsert:
  assumes s: "tsorted cmp xs"
  shows "tfind cmp j (tinsert cmp k xs) =
    (if tfind cmp k xs = None \<and> cmp k j = 0 then Some k else tfind cmp j xs)"
proof (cases "tfind cmp k xs = None")
  case n: True
  note s' = tsorted_tinsert [OF s, of k]
  show ?thesis
  proof (cases "cmp k j = 0")
    case True
    then show ?thesis using tfind_unique [OF s', of k j] n by (simp add: set_tinsert)
  next
    case False
    show ?thesis
    proof (cases "tfind cmp j xs")
      case None
      then have "tfind cmp j (tinsert cmp k xs) = None"
        using False n by (auto simp: tfind_None set_tinsert)
      then show ?thesis using False None by simp
    next
      case (Some x)
      then show ?thesis
        using tfind_Some [OF Some] tfind_unique [OF s', of x j] n False by (simp add: set_tinsert)
    qed
  qed
next
  case False
  then have "tinsert cmp k xs = xs" by (simp add: tinsert_def)
  then show ?thesis using False by (simp only: simp_thms if_False)
qed

lemma tsorted_tdelete: "tsorted cmp xs \<Longrightarrow> tsorted cmp (tdelete cmp k xs)"
  by (simp add: tsorted_def tdelete_def sorted_wrt_filter)

lemma set_tdelete: "set (tdelete cmp k xs) = {x \<in> set xs. cmp x k \<noteq> 0}"
  by (auto simp: tdelete_def)

lemma tfind_tdelete:
  assumes s: "tsorted cmp xs"
  shows "tfind cmp j (tdelete cmp k xs) = (if cmp k j = 0 then None else tfind cmp j xs)"
proof (cases "cmp k j = 0")
  case True
  then have "cmp x k = 0 \<longleftrightarrow> cmp x j = 0" for x
    by (rule cmp_eqv0)
  then show ?thesis using True by (auto simp: tfind_None set_tdelete)
next
  case False
  show ?thesis
  proof (cases "tfind cmp j xs")
    case None
    then have "tfind cmp j (tdelete cmp k xs) = None" by (auto simp: tfind_None set_tdelete)
    then show ?thesis using False None by simp
  next
    case (Some x)
    then have x: "x \<in> set xs" "cmp x j = 0" using tfind_Some by auto
    then have "cmp x k \<noteq> 0"
      using False cmp_eqv0 [of x j k] cmp_sym0 by metis
    then show ?thesis
      using x tfind_unique [OF tsorted_tdelete [OF s], of x k j] Some False by (simp add: set_tdelete)
  qed
qed

end

section \<open>Refinement of search and insertion\<close>

lemma find_append: "List.find P (xs @ ys) = (case List.find P xs of None \<Rightarrow> List.find P ys | Some x \<Rightarrow> Some x)"
  by (induction xs) auto

lemma keys_node: "keys m (Node l x r) = keys m l @ keyValue m x # keys m r"
  by (simp add: keys_def)

text \<open>Linking a fresh node into the hole of a path.\<close>

lemma link_tree:
  assumes t: "is_tree m (plug c Leaf)" and n: "n \<noteq> LEAF" "n \<notin> set_tree (plug c Leaf)"
    and dir: "case c of [] \<Rightarrow> True | (d, x, u) # _ \<Rightarrow> d = LeftOf \<longleftrightarrow> lft"
    and m1: "m1 = m\<lparr>keyValue := kv, parent := (parent m)(n := LEAF), leftChild := (leftChild m)(n := LEAF),
      rightChild := (rightChild m)(n := LEAF), color := cl\<rparr>"
    and m3: "m3 = (if up c = LEAF then set_root n (set_parent n (up c) m1)
      else if lft then set_left (up c) n (set_parent n (up c) m1) else set_right (up c) n (set_parent n (up c) m1))"
  shows "is_tree m3 (plug c (Node Leaf n Leaf))"
proof -
  have lf: "leaf_ok m" and dist: "distinct (inorder (plug c Leaf))" and pr: "path_repr m c LEAF"
    using t by (auto simp: is_tree_def repr_plug)
  have nc: "n \<notin> path_set c" using n by (simp add: set_plug)
  have upn: "up c \<noteq> n" using nc n by (cases c rule: up.cases) auto
  have fr: "leftChild m3 x = leftChild m x \<and> rightChild m3 x = rightChild m x \<and> parent m3 x = parent m x"
    if "x \<noteq> n" "x \<noteq> up c" for x using that by (simp add: m3 m1)
  have fn: "leftChild m3 n = LEAF" "rightChild m3 n = LEAF" "parent m3 n = up c"
    using upn by (auto simp: m3 m1)
  have "path_repr m3 c n"
  proof (cases c)
    case Nil
    then show ?thesis by (simp add: m3)
  next
    case (Cons e c')
    obtain d x u where e: "e = (d, x, u)" by (cases e)
    note pd = path_distinct [OF dist [unfolded Cons e]]
    have x: "x \<noteq> LEAF" "up c = x" "x \<noteq> n" using pr Cons e nc by (cases d; auto)+
    have p': "path_repr m c' x" "repr m x (if d = LeftOf then rightChild m x else leftChild m x) u"
      using pr Cons e by (cases d; auto)+
    have "path_repr m3 c' x"
      using p'(1) by (rule path_repr_cong) (use fr pd x nc Cons e in \<open>auto simp: m3 m1\<close>)
    moreover have "repr m3 x (if d = LeftOf then rightChild m x else leftChild m x) u"
      using p'(2) by (rule repr_cong) (rule fr, use pd x nc Cons e in auto)
    ultimately show ?thesis
      using pr x dir unfolding Cons e by (cases d) (auto simp: m3 m1 Cons e)
  qed
  moreover have "repr m3 (up c) n (Node Leaf n Leaf)" using fn n by simp
  moreover have "leaf_ok m3"
    using lf n by (auto simp: leaf_ok_def m3 m1)
  moreover have "distinct (inorder (plug c (Node Leaf n Leaf)))"
  proof -
    obtain xs ys where xy: "\<And>s. inorder (plug c s) = xs @ inorder s @ ys" "path_set c = set xs \<union> set ys"
      using inorder_plug [of c] by auto
    then show ?thesis using dist nc by simp
  qed
  ultimately show ?thesis unfolding is_tree_def repr_plug by blast
qed

context tree_order
begin

lemma tsorted_node:
  "tsorted cmp (xs @ x # ys) \<longleftrightarrow> tsorted cmp xs \<and> tsorted cmp ys \<and>
     (\<forall>a\<in>set xs. cmp a x < 0) \<and> (\<forall>b\<in>set ys. cmp x b < 0) \<and> (\<forall>a\<in>set xs. \<forall>b\<in>set ys. cmp a b < 0)"
  by (auto simp: tsorted_def sorted_wrt_append)

lemma find_loop_ok:
  "repr m p a t \<Longrightarrow> tsorted cmp (keys m t) \<Longrightarrow>
   find_loop cmp m k a = Some (List.find (\<lambda>x. cmp (keyValue m x) k = 0) (inorder t))"
proof (induction t arbitrary: p a)
  case Leaf
  then show ?case by (subst find_loop.simps) simp
next
  case (Node l x r)
  have a: "a = x" "x \<noteq> LEAF" and rl: "repr m x (leftChild m x) l" "repr m x (rightChild m x) r"
    using Node.prems(1) by auto
  have s: "tsorted cmp (keys m l)" "tsorted cmp (keys m r)"
      "\<And>y. y \<in> set_tree l \<Longrightarrow> cmp (keyValue m y) (keyValue m x) < 0"
      "\<And>y. y \<in> set_tree r \<Longrightarrow> cmp (keyValue m x) (keyValue m y) < 0"
    using Node.prems(2) unfolding keys_node tsorted_node by (auto simp: keys_def)
  let ?c = "cmp (keyValue m x) k"
  consider "?c = 0" | "?c < 0" | "?c > 0" by linarith
  then show ?case
  proof cases
    case 1
    have "cmp (keyValue m y) k \<noteq> 0" if "y \<in> set_tree l" for y
      using s(3) [OF that] 1 cmp_eqv2 by force
    then have "List.find (\<lambda>x. cmp (keyValue m x) k = 0) (inorder l) = None" by (auto simp: find_None_iff)
    then show ?thesis using 1 a by (subst find_loop.simps) (simp add: find_append)
  next
    case 2
    have "cmp (keyValue m y) k \<noteq> 0" if "y \<in> set_tree l" for y
      using s(3) [OF that] 2 cmp_trans by (metis less_irrefl)
    then have "List.find (\<lambda>x. cmp (keyValue m x) k = 0) (inorder l) = None" by (auto simp: find_None_iff)
    then show ?thesis using 2 a Node.IH(2) [OF rl(2) s(2)] by (subst find_loop.simps) (simp add: find_append)
  next
    case 3
    then have k: "cmp k (keyValue m x) < 0" using cmp_anti by simp
    have "cmp (keyValue m y) k \<noteq> 0" if "y \<in> set_tree r" for y
      using cmp_trans [OF k s(4) [OF that]] cmp_sym0 by force
    then have "List.find (\<lambda>x. cmp (keyValue m x) k = 0) (inorder r) = None" by (auto simp: find_None_iff)
    then show ?thesis using 3 a Node.IH(1) [OF rl(1) s(1)]
      by (subst find_loop.simps) (simp add: find_append split: option.splits)
  qed
qed

lemma findKey_ok:
  assumes "is_tree m t" "tsorted cmp (keys m t)"
  shows "pico_tree_findKey cmp m k = Some (tfind cmp k (keys m t))"
proof -
  have "map_option (keyValue m) (List.find (\<lambda>x. cmp (keyValue m x) k = 0) xs) =
      List.find (\<lambda>x. cmp x k = 0) (map (keyValue m) xs)" for xs
    by (induction xs) auto
  then show ?thesis
    using assms find_loop_ok [of m LEAF "root m" t k]
    by (simp add: is_tree_def pico_tree_findKey_def tfind_def keys_def)
qed

lemma tinsert_left:
  assumes "tfind cmp k (xs @ x # ys) = None" "cmp k x < 0"
  shows "tinsert cmp k (xs @ x # ys) = tinsert cmp k xs @ x # ys"
proof -
  have "\<not> cmp x k < 0" using assms(2) cmp_anti [of k x] by simp
  then have "takeWhile (\<lambda>x. cmp x k < 0) (xs @ x # ys) = takeWhile (\<lambda>x. cmp x k < 0) xs"
    "dropWhile (\<lambda>x. cmp x k < 0) (xs @ x # ys) = dropWhile (\<lambda>x. cmp x k < 0) xs @ x # ys"
    by (induction xs) auto
  then show ?thesis using assms(1) by (auto simp: tinsert_def tfind_def find_append split: option.splits)
qed

lemma tinsert_right: "tfind cmp k (xs @ x # ys) = None \<Longrightarrow> tsorted cmp (xs @ x # ys) \<Longrightarrow> cmp x k < 0 \<Longrightarrow>
    tinsert cmp k (xs @ x # ys) = xs @ x # tinsert cmp k ys"
proof -
  assume a: "tfind cmp k (xs @ x # ys) = None" "tsorted cmp (xs @ x # ys)" "cmp x k < 0"
  then have "cmp y k < 0" if "y \<in> set xs" for y
    using that cmp_trans [of y x k] by (auto simp: tsorted_node)
  then show ?thesis using a by (auto simp: tinsert_def tfind_def find_append split: option.splits)
qed

lemma insert_place_ok:
  "repr m p a t \<Longrightarrow> tsorted cmp (keys m t) \<Longrightarrow> tfind cmp (keyValue m n) (keys m t) = None \<Longrightarrow>
   \<exists>c. t = plug c Leaf \<and> insert_place cmp m n p a = Some (if c = [] then p else up c) \<and>
     (case c of [] \<Rightarrow> True | (d, x, u) # _ \<Rightarrow> d = LeftOf \<longleftrightarrow> cmp (keyValue m n) (keyValue m x) < 0) \<and>
     keys m (plug c (Node Leaf n Leaf)) = tinsert cmp (keyValue m n) (keys m t)"
proof (induction t arbitrary: p a)
  case Leaf
  then have "insert_place cmp m n p a = Some p" by (subst insert_place.simps) simp
  then show ?case by (intro exI [of _ "[]"]) (simp add: keys_def tinsert_def tfind_def)
next
  case (Node l x r)
  let ?k = "keyValue m n" and ?x = "keyValue m x"
  have a: "a = x" "x \<noteq> LEAF" and rl: "repr m x (leftChild m x) l" "repr m x (rightChild m x) r"
    using Node.prems(1) by auto
  have st: "tsorted cmp (keys m l @ ?x # keys m r)" "tfind cmp ?k (keys m l @ ?x # keys m r) = None"
    using Node.prems(2,3) by (simp_all add: keys_node)
  have s: "tsorted cmp (keys m l)" "tsorted cmp (keys m r)" "tfind cmp ?k (keys m l) = None"
      "tfind cmp ?k (keys m r) = None" "cmp ?x ?k \<noteq> 0"
    using st by (auto simp: tsorted_node tfind_None)
  show ?case
  proof (cases "cmp ?k ?x < 0")
    case True
    obtain c where c: "l = plug c Leaf" "insert_place cmp m n x (leftChild m x) = Some (if c = [] then x else up c)"
        "case c of [] \<Rightarrow> True | (d, x, u) # _ \<Rightarrow> d = LeftOf \<longleftrightarrow> cmp ?k (keyValue m x) < 0"
        "keys m (plug c (Node Leaf n Leaf)) = tinsert cmp ?k (keys m l)"
      using Node.IH(1) [OF rl(1) s(1,3)] by blast
    have "insert_place cmp m n p a = insert_place cmp m n x (leftChild m x)"
      using a True by (subst insert_place.simps) simp
    then show ?thesis
      using c True tinsert_left [OF st(2) True]
      by (intro exI [of _ "c @ [(LeftOf, x, r)]"]) (auto simp: plug_append keys_node split: list.splits)
  next
    case False
    then have lt: "cmp ?x ?k < 0" using s(5) cmp_anti [of ?k ?x] by linarith
    obtain c where c: "r = plug c Leaf" "insert_place cmp m n x (rightChild m x) = Some (if c = [] then x else up c)"
        "case c of [] \<Rightarrow> True | (d, x, u) # _ \<Rightarrow> d = LeftOf \<longleftrightarrow> cmp ?k (keyValue m x) < 0"
        "keys m (plug c (Node Leaf n Leaf)) = tinsert cmp ?k (keys m r)"
      using Node.IH(2) [OF rl(2) s(2,4)] by blast
    have "insert_place cmp m n p a = insert_place cmp m n x (rightChild m x)"
      using a False by (subst insert_place.simps) simp
    then show ?thesis
      using c False tinsert_right [OF st(2,1) lt]
      by (intro exI [of _ "c @ [(RightOf, x, l)]"]) (auto simp: plug_append keys_node split: list.splits)
  qed
qed

lemma insert_new:
  assumes t: "is_tree m t" and s: "tsorted cmp (keys m t)" and nf: "tfind cmp k (keys m t) = None"
    and n: "n \<noteq> LEAF" "n \<notin> set_tree t"
  shows "\<exists>m' t'. pico_tree_insert cmp (Some n) k m = Some (Inserted, m') \<and> is_tree m' t' \<and>
    keys m' t' = tinsert cmp k (keys m t) \<and> set_tree t' = insert n (set_tree t)"
proof -
  let ?m1 = "m\<lparr>keyValue := (keyValue m)(n := k), parent := (parent m)(n := LEAF),
          leftChild := (leftChild m)(n := LEAF), rightChild := (rightChild m)(n := LEAF),
          color := (color m)(n := RED)\<rparr>"
  have fk: "(if root m \<noteq> LEAF then pico_tree_findKey cmp m k else Some None) = Some None"
    using findKey_ok [OF t s] nf by simp
  have k1: "keys ?m1 t = keys m t" using n by (auto simp: keys_def)
  have r1: "repr ?m1 LEAF (root m) t"
    using t n unfolding is_tree_def by (auto intro!: repr_cong [of m])
  obtain c where c: "t = plug c Leaf"
      "insert_place cmp ?m1 n LEAF (root ?m1) = Some (if c = [] then LEAF else up c)"
      "case c of [] \<Rightarrow> True | (d, x, u) # _ \<Rightarrow> d = LeftOf \<longleftrightarrow> cmp (keyValue ?m1 n) (keyValue ?m1 x) < 0"
      "keys ?m1 (plug c (Node Leaf n Leaf)) = tinsert cmp (keyValue ?m1 n) (keys ?m1 t)"
    using insert_place_ok [of ?m1 LEAF "root ?m1" t n] r1 s nf k1 by auto
  let ?m2 = "set_parent n (up c) ?m1"
  let ?m3 = "if up c = LEAF then set_root n ?m2
    else if cmp (keyValue ?m2 n) (keyValue ?m2 (up c)) < 0 then set_left (up c) n ?m2 else set_right (up c) n ?m2"
  have kv3: "keyValue ?m3 = (keyValue m)(n := k)" by simp
  have pl: "insert_place cmp ?m1 n LEAF (root ?m1) = Some (up c)" using c(2) by (cases c) auto
  have "is_tree ?m3 (plug c (Node Leaf n Leaf))"
    by (rule link_tree [of m c n "cmp (keyValue ?m2 n) (keyValue ?m2 (up c)) < 0" ?m1])
      (use t c n in \<open>auto split: list.splits\<close>)
  then obtain m' t' where f: "fix_insert_loop n ?m3 = Some m'" "is_tree m' t'"
      "inorder t' = inorder (plug c (Node Leaf n Leaf))" "keyValue m' = keyValue ?m3"
    using fix_insert_loop_ok [of ?m3 c Leaf n Leaf] by blast
  let ?m' = "set_color (root m') BLACK m'"
  have "pico_tree_insert cmp (Some n) k m = Some (Inserted, ?m')"
    unfolding pico_tree_insert_def fk create_node_def using pl f(1)
    by (simp add: fix_insert_collisions_def Let_def)
  moreover have "is_tree ?m' t'" using f(2) by simp
  moreover have "keys ?m' t' = tinsert cmp k (keys m t)"
  proof -
    have "keys ?m' t' = keys ?m1 (plug c (Node Leaf n Leaf))" using f(3,4) kv3 by (simp add: keys_def)
    also have "\<dots> = tinsert cmp k (keys m t)" using c(4) unfolding k1 by simp
    finally show ?thesis .
  qed
  moreover have "set_tree t' = insert n (set_tree t)"
    using arg_cong [OF f(3), of set] c(1) by (simp add: set_plug)
  ultimately show ?thesis by blast
qed

end

section \<open>Traversal visits the nodes in order\<close>

fun before :: "path \<Rightarrow> nat list" where
  "before [] = []"
| "before ((LeftOf, x, r) # c) = before c"
| "before ((RightOf, x, l) # c) = before c @ inorder l @ [x]"

fun after :: "path \<Rightarrow> nat list" where
  "after [] = []"
| "after ((LeftOf, x, r) # c) = x # inorder r @ after c"
| "after ((RightOf, x, l) # c) = after c"

lemma inorder_path: "inorder (plug c s) = before c @ inorder s @ after c"
  by (induction c arbitrary: s rule: after.induct) auto

definition hd_or_leaf :: "nat list \<Rightarrow> nat" where
  "hd_or_leaf xs = (case xs of [] \<Rightarrow> LEAF | x # _ \<Rightarrow> x)"

lemma hd_or_leaf_append: "hd_or_leaf (xs @ ys) = (if xs = [] then hd_or_leaf ys else hd_or_leaf xs)"
  by (cases xs) (auto simp: hd_or_leaf_def)

lemma firstNode_ok:
  "repr m p a t \<Longrightarrow> leaf_ok m \<Longrightarrow> pico_tree_firstNode m a = Some (hd_or_leaf (inorder t))"
proof (induction t arbitrary: p a)
  case Leaf
  then show ?case by (subst pico_tree_firstNode.simps) (simp add: leaf_ok_def hd_or_leaf_def)
next
  case (Node l x r)
  then have l: "repr m x (leftChild m x) l" and a: "a = x" by auto
  show ?case
  proof (cases "l = Leaf")
    case True
    then show ?thesis using l a by (subst pico_tree_firstNode.simps) (simp add: hd_or_leaf_def)
  next
    case False
    then have "leftChild m x \<noteq> LEAF" using repr_root [OF l] by simp
    moreover have "inorder l \<noteq> []" using False by (cases l) auto
    ultimately show ?thesis
      using Node.IH(1) [OF l Node.prems(2)] a
      by (subst pico_tree_firstNode.simps) (simp add: hd_or_leaf_append)
  qed
qed

lemma next_up_ok:
  "is_tree m (plug c (Node l x r)) \<Longrightarrow> next_up m x = Some (hd_or_leaf (after c))"
proof (induction c arbitrary: l x r rule: after.induct)
  case 1
  then have "parent m x = LEAF" using is_tree_sub(2) [OF 1] by simp
  then show ?case by (subst next_up.simps) (simp add: hd_or_leaf_def)
next
  case (2 p u c)
  note ch = is_tree_child [OF "2.prems"] and sub = is_tree_sub [OF "2.prems"]
  have "\<not> AM_I_RIGHT_CHILD m x" using ch(2) sub(2) by (auto simp: AM_I_RIGHT_CHILD_def)
  then show ?case using sub(2) by (subst next_up.simps) (simp add: hd_or_leaf_def)
next
  case (3 p u c)
  note ch = is_tree_child [OF "3.prems"] and sub = is_tree_sub [OF "3.prems"]
  have "AM_I_RIGHT_CHILD m x" using ch(2) sub(2) by (auto simp: AM_I_RIGHT_CHILD_def)
  moreover have "next_up m p = Some (hd_or_leaf (after c))"
    using "3.IH" [of u p "Node l x r"] "3.prems" by simp
  ultimately show ?case using sub(2) ch(3) by (subst next_up.simps) simp
qed

lemma next_path:
  assumes t: "is_tree m (plug c (Node l x r))"
  shows "pico_tree_next m x = Some (hd_or_leaf (inorder r @ after c))"
proof (cases "r = Leaf")
  case True
  then have r0: "rightChild m x = LEAF" using is_tree_sub(4) [OF t] by simp
  show ?thesis
  proof (cases "parent m x \<noteq> LEAF \<and> AM_I_LEFT_CHILD m x")
    case left: True
    then obtain d p u c' where c: "c = (d, p, u) # c'" using is_tree_sub(2) [OF t] by (cases c) auto
    then have "d = LeftOf" "parent m x = p"
      using left is_tree_child(1) [OF t [unfolded c]] is_tree_sub(2) [OF t] by (auto simp: AM_I_LEFT_CHILD_def)
    then show ?thesis using left r0 True c by (simp add: pico_tree_next_def hd_or_leaf_def)
  next
    case False
    then show ?thesis using r0 True next_up_ok [OF t] by (auto simp: pico_tree_next_def)
  qed
next
  case False
  then have "rightChild m x \<noteq> LEAF" using is_tree_sub(4) [OF t] repr_root by blast
  moreover have "inorder r \<noteq> []" using False by (cases r) auto
  ultimately show ?thesis
    using firstNode_ok [OF is_tree_sub(4) [OF t]] t
    by (simp add: pico_tree_next_def hd_or_leaf_append is_tree_def)
qed

lemma next_ok:
  assumes t: "is_tree m t" and i: "inorder t = xs @ x # ys"
  shows "pico_tree_next m x = Some (hd_or_leaf ys)"
proof -
  have "x \<in> set_tree t" using i by (metis in_set_conv_decomp set_inorder)
  then obtain c l r where c: "t = plug c (Node l x r)" using in_tree_plug by blast
  have "(before c @ inorder l) @ x # (inorder r @ after c) = xs @ x # ys"
    using i c by (simp add: inorder_path)
  moreover have "distinct (xs @ x # ys)" using t i by (simp add: is_tree_def)
  ultimately have "inorder r @ after c = ys" by (metis append_Cons_eq_iff distinct.simps(2) distinct_append
        not_distinct_conv_prefix Un_iff disjoint_iff list.set_intros(1))
  then show ?thesis using next_path t c by auto
qed

lemma foreach_from_ok:
  assumes "is_tree m t"
  shows "inorder t = xs @ ys \<Longrightarrow> foreach_from m (hd_or_leaf ys) = Some ys"
proof (induction ys arbitrary: xs)
  case Nil
  then show ?case by (subst foreach_from.simps) (simp add: hd_or_leaf_def)
next
  case (Cons y ys)
  have "y \<noteq> LEAF"
  proof -
    have "y \<in> set_tree t" using Cons.prems by (metis in_set_conv_decomp set_inorder)
    then show ?thesis using repr_nonzero assms unfolding is_tree_def by metis
  qed
  then show ?case
    using Cons.IH [of "xs @ [y]"] Cons.prems next_ok [OF assms Cons.prems]
    by (subst foreach_from.simps) (simp add: hd_or_leaf_def)
qed

lemma foreach_ok: "is_tree m t \<Longrightarrow> pico_tree_foreach m = Some (inorder t)"
  using firstNode_ok [of m LEAF "root m" t] foreach_from_ok [of m t "[]" "inorder t"]
  by (simp add: pico_tree_foreach_def is_tree_def)

lemma lastNode_ok:
  "repr m p a t \<Longrightarrow> leaf_ok m \<Longrightarrow> pico_tree_lastNode m a = Some (hd_or_leaf (rev (inorder t)))"
proof (induction t arbitrary: p a)
  case Leaf
  then show ?case by (subst pico_tree_lastNode.simps) (simp add: leaf_ok_def hd_or_leaf_def)
next
  case (Node l x r)
  then have r: "repr m x (rightChild m x) r" and a: "a = x" by auto
  show ?case
  proof (cases "r = Leaf")
    case True
    then show ?thesis using r a by (subst pico_tree_lastNode.simps) (simp add: hd_or_leaf_def)
  next
    case False
    then have "rightChild m x \<noteq> LEAF" using repr_root [OF r] by simp
    then show ?thesis
      using Node.IH(2) [OF r Node.prems(2)] a False
      by (subst pico_tree_lastNode.simps) (simp add: hd_or_leaf_append)
  qed
qed

lemma prev_up_mir: "is_tree m (plug c (Node l x r)) \<Longrightarrow> prev_up m x = next_up (mir m) x"
proof (induction c arbitrary: l x r rule: after.induct)
  case 1
  then have "parent m x = LEAF" "x \<noteq> LEAF" "leftChild m LEAF = LEAF"
    using is_tree_sub(1,2) [OF 1] by (auto simp: is_tree_def leaf_ok_def)
  then show ?case
    by (subst prev_up.simps, subst next_up.simps) (simp add: AM_I_LEFT_CHILD_def AM_I_RIGHT_CHILD_def)
next
  case (2 p u c)
  have "prev_up m p = next_up (mir m) p" using "2.IH" [of "Node l x r" p u] "2.prems" by simp
  moreover have "parent m x = p" "leftChild m p = x" "p \<noteq> LEAF" "x \<noteq> LEAF"
    using is_tree_sub(1,2) [OF "2.prems"] is_tree_child(1,3) [OF "2.prems"] by auto
  ultimately show ?case
    by (subst prev_up.simps, subst next_up.simps) (simp add: AM_I_LEFT_CHILD_def AM_I_RIGHT_CHILD_def)
next
  case (3 p u c)
  have "parent m x = p" "leftChild m p \<noteq> x"
    using is_tree_sub(1,2) [OF "3.prems"] is_tree_child(1) [OF "3.prems"] by auto
  then show ?case
    by (subst prev_up.simps, subst next_up.simps) (simp add: AM_I_LEFT_CHILD_def AM_I_RIGHT_CHILD_def)
qed

lemma prev_ok:
  assumes t: "is_tree m t" and i: "inorder t = xs @ x # ys"
  shows "pico_tree_prev m x = Some (hd_or_leaf (rev xs))"
proof -
  have "x \<in> set_tree t" using i by (metis in_set_conv_decomp set_inorder)
  then obtain c l r where c: "t = plug c (Node l x r)" using in_tree_plug by blast
  have l: "repr m x (leftChild m x) l" "leaf_ok m"
    using is_tree_sub(3) [OF t [unfolded c]] t by (simp_all add: is_tree_def)
  have last: "pico_tree_lastNode m (leftChild m x) = pico_tree_firstNode (mir m) (leftChild m x)"
    using lastNode_ok [OF l] firstNode_ok [of "mir m" x "leftChild m x" "mirror l"] l
    by (simp add: repr_mir inorder_mirror leaf_ok_def)
  have "pico_tree_prev m x = pico_tree_next (mir m) x"
    using prev_up_mir t c last by (auto simp: pico_tree_prev_def pico_tree_next_def AM_I_LEFT_CHILD_def AM_I_RIGHT_CHILD_def)
  moreover have "is_tree (mir m) (mirror t)" "inorder (mirror t) = rev ys @ x # rev xs"
    using t i by (simp_all add: inorder_mirror)
  ultimately show ?thesis using next_ok by metis
qed

lemma foreach_reverse_from_ok:
  assumes "is_tree m t"
  shows "inorder t = rev xs @ ys \<Longrightarrow> foreach_reverse_from m (hd_or_leaf xs) = Some xs"
proof (induction xs arbitrary: ys)
  case Nil
  then show ?case by (subst foreach_reverse_from.simps) (simp add: hd_or_leaf_def)
next
  case (Cons x xs)
  then have i: "inorder t = rev xs @ x # ys" by simp
  have "x \<noteq> LEAF"
  proof -
    have "x \<in> set_tree t" using i by (metis in_set_conv_decomp set_inorder)
    then show ?thesis using repr_nonzero assms unfolding is_tree_def by metis
  qed
  then show ?case
    using Cons.IH [OF i] prev_ok [OF assms i]
    by (subst foreach_reverse_from.simps) (simp add: hd_or_leaf_def)
qed

lemma foreach_reverse_ok: "is_tree m t \<Longrightarrow> pico_tree_foreach_reverse m = Some (rev (inorder t))"
  using lastNode_ok [of m LEAF "root m" t] foreach_reverse_from_ok [of m t "rev (inorder t)" "[]"]
  by (simp add: pico_tree_foreach_reverse_def is_tree_def)

section \<open>Deletion repairs colours without changing the sequence\<close>

lemma rotateToLeft_seq:
  assumes "is_tree m t" "x = LEAF \<or> x \<in> set_tree t"
  shows "\<exists>t'. is_tree (rotateToLeft x m) t' \<and> inorder t' = inorder t"
    "keyValue (rotateToLeft x m) = keyValue m" "color (rotateToLeft x m) = color m"
proof -
  have *: "(\<exists>t'. is_tree (rotateToLeft x m) t' \<and> inorder t' = inorder t) \<and>
    keyValue (rotateToLeft x m) = keyValue m \<and> color (rotateToLeft x m) = color m"
  proof (cases "rightChild m x = LEAF")
    case True
    then show ?thesis using assms by (auto simp: rotateToLeft_leaf)
  next
    case False
    then have "x \<in> set_tree t" using assms by (auto simp: is_tree_def leaf_ok_def)
    then obtain c l r where c: "t = plug c (Node l x r)" using in_tree_plug by blast
    then have "r \<noteq> Leaf" using is_tree_sub(4) assms(1) False by fastforce
    then obtain b y d where r: "r = Node b y d" by (cases r) auto
    have t: "is_tree m (plug c (Node l x (Node b y d)))" using assms(1) c r by simp
    have "inorder (plug c (Node (Node l x b) y d)) = inorder t"
      unfolding c r by (rule inorder_plug_cong) simp
    then show ?thesis using rotateToLeft_tree [OF t] by auto
  qed
  show "\<exists>t'. is_tree (rotateToLeft x m) t' \<and> inorder t' = inorder t"
    "keyValue (rotateToLeft x m) = keyValue m" "color (rotateToLeft x m) = color m"
    using * by blast+
qed

lemma rotateToRight_seq:
  assumes "is_tree m t" "x = LEAF \<or> x \<in> set_tree t"
  shows "\<exists>t'. is_tree (rotateToRight x m) t' \<and> inorder t' = inorder t"
    "keyValue (rotateToRight x m) = keyValue m" "color (rotateToRight x m) = color m"
proof -
  have *: "(\<exists>t'. is_tree (rotateToRight x m) t' \<and> inorder t' = inorder t) \<and>
    keyValue (rotateToRight x m) = keyValue m \<and> color (rotateToRight x m) = color m"
  proof (cases "leftChild m x = LEAF")
    case True
    then have "rotateToRight x m = m" using assms(1) by (simp add: rotateToRight_leaf is_tree_def)
    then show ?thesis using assms by auto
  next
    case False
    then have "x \<in> set_tree t" using assms by (auto simp: is_tree_def leaf_ok_def)
    then obtain c l r where c: "t = plug c (Node l x r)" using in_tree_plug by blast
    then have "l \<noteq> Leaf" using is_tree_sub(3) assms(1) False by fastforce
    then obtain b y d where l: "l = Node b y d" by (cases l) auto
    have t: "is_tree m (plug c (Node (Node b y d) x r))" using assms(1) c l by simp
    have "inorder (plug c (Node b y (Node d x r))) = inorder t"
      unfolding c l by (rule inorder_plug_cong) simp
    then show ?thesis using rotateToRight_tree [OF t] by auto
  qed
  show "\<exists>t'. is_tree (rotateToRight x m) t' \<and> inorder t' = inorder t"
    "keyValue (rotateToRight x m) = keyValue m" "color (rotateToRight x m) = color m"
    using * by blast+
qed

text \<open>Fields of nodes of a tree (and of the sentinel) are nodes of the tree or the sentinel.\<close>

definition node_in :: "nat tree \<Rightarrow> nat \<Rightarrow> bool" where
  "node_in t x \<longleftrightarrow> x = LEAF \<or> x \<in> set_tree t"

lemma node_in_fields:
  assumes t: "is_tree m t" and x: "node_in t x"
  shows "node_in t (parent m x)" "node_in t (leftChild m x)" "node_in t (rightChild m x)"
proof -
  have "node_in t (parent m x) \<and> node_in t (leftChild m x) \<and> node_in t (rightChild m x)"
  proof (cases "x = LEAF")
    case True
    then show ?thesis using t by (simp add: node_in_def is_tree_def leaf_ok_def)
  next
    case False
    then have "x \<in> set_tree t" using x by (simp add: node_in_def)
    then obtain c l r where c: "t = plug c (Node l x r)" using in_tree_plug by blast
    note sub = is_tree_sub [OF t [unfolded c]]
    have "up c = LEAF \<or> up c \<in> path_set c" by (cases c rule: up.cases) auto
    then show ?thesis
      using sub(2) repr_in [OF sub(3)] repr_in [OF sub(4)] by (auto simp: c node_in_def set_plug)
  qed
  then show "node_in t (parent m x)" "node_in t (leftChild m x)" "node_in t (rightChild m x)" by auto
qed

lemma node_in_inorder: "inorder t' = inorder t \<Longrightarrow> node_in t' x = node_in t x"
  by (simp add: node_in_def flip: set_inorder)

text \<open>
  What one turn of \<^verbatim>\<open>fix_delete_collisions\<close> guarantees: same sequence; and the loop ends (root or red
  node), or nothing but colours changed and the node is the parent.
\<close>

definition del_ok :: "'k pico_tree \<Rightarrow> nat tree \<Rightarrow> nat \<Rightarrow> nat \<times> 'k pico_tree \<Rightarrow> bool" where
  "del_ok m t n res \<longleftrightarrow> (case res of (n', m') \<Rightarrow> keyValue m' = keyValue m \<and>
     (\<exists>t'. is_tree m' t' \<and> inorder t' = inorder t \<and>
        (n' = root m' \<or> color m' n' = RED \<or> (t' = t \<and> n' = parent m n \<and> root m' = root m \<and> parent m' = parent m))))"

lemma rotateToLeft_parent:
  assumes t: "is_tree m (plug ((LeftOf, p, s) # c) (Node l n r))"
  shows "parent (rotateToLeft p m) n = p"
proof (cases s)
  case Leaf
  then have "rightChild m p = LEAF" using is_tree_sub(4) [of m c "Node l n r" p s] t by simp
  then show ?thesis using is_tree_sub(2) [OF t] by (simp add: rotateToLeft_leaf)
next
  case (Node b y d)
  then have "is_tree m (plug c (Node (Node l n r) p (Node b y d)))" using t by simp
  from rotateToLeft_tree(1) [OF this]
  have "is_tree (rotateToLeft p m) (plug ((LeftOf, p, b) # (LeftOf, y, d) # c) (Node l n r))" by simp
  from is_tree_sub(2) [OF this] show ?thesis by simp
qed

lemma rotateToRight_parent:
  assumes t: "is_tree m (plug ((RightOf, p, s) # c) (Node l n r))"
  shows "parent (rotateToRight p m) n = p"
proof (cases s)
  case Leaf
  then have "leftChild m p = LEAF" using is_tree_sub(3) [of m c s p "Node l n r"] t by simp
  then show ?thesis using is_tree_sub(2) [OF t] t by (simp add: rotateToRight_leaf is_tree_def)
next
  case (Node b y d)
  then have "is_tree m (plug c (Node (Node b y d) p (Node l n r)))" using t by simp
  from rotateToRight_tree(1) [OF this]
  have "is_tree (rotateToRight p m) (plug ((RightOf, p, d) # (RightOf, y, b) # c) (Node l n r))" by simp
  from is_tree_sub(2) [OF this] show ?thesis by simp
qed

text \<open>The end of a turn: a last rotation below coloured nodes, and back to the root.\<close>

lemma del_ok_root:
  assumes "is_tree m2 t2" "inorder t2 = inorder t" "keyValue m2 = keyValue m" "node_in t n"
    and m6: "m6 = rotateToLeft (parent m2 n) (set_color a x (set_color b y (set_color d z m2))) \<or>
             m6 = rotateToRight (parent m2 n) (set_color a x (set_color b y (set_color d z m2)))"
  shows "del_ok m t n (root m6, m6)"
proof -
  have "node_in t2 n" using assms(4) node_in_inorder [OF assms(2)] by simp
  then have "parent m2 n = LEAF \<or> parent m2 n \<in> set_tree t2"
    using node_in_fields(1) [OF assms(1)] by (simp add: node_in_def)
  moreover have "is_tree (set_color a x (set_color b y (set_color d z m2))) t2" using assms(1) by simp
  ultimately have "(\<exists>t'. is_tree m6 t' \<and> inorder t' = inorder t2) \<and> keyValue m6 = keyValue m2"
    using m6 rotateToLeft_seq [of _ t2] rotateToRight_seq [of _ t2] by (metis set_sel(29))
  then show ?thesis using assms(2,3) by (auto simp: del_ok_def)
qed

lemma fix_delete_left_ok:
  assumes t: "is_tree m (plug ((LeftOf, p, s) # c) (Node l n r))"
  shows "del_ok m (plug ((LeftOf, p, s) # c) (Node l n r)) n (fix_delete_left n m)"
proof -
  let ?t = "plug ((LeftOf, p, s) # c) (Node l n r)"
  define temp where "temp = rightChild m p"
  define m1 where "m1 = (if color m temp = RED
    then rotateToLeft p (set_color p RED (set_color temp BLACK m)) else m)"
  define tp where "tp = (if color m temp = RED then rightChild m1 p else temp)"
  have pn: "parent m n = p" using is_tree_sub(2) [OF t] by simp
  have nin: "node_in ?t n" "node_in ?t p" by (auto simp: node_in_def set_plug)
  have c0: "is_tree (set_color p RED (set_color temp BLACK m)) ?t" using t by simp
  have pn1: "parent m1 n = p" unfolding m1_def using rotateToLeft_parent [OF c0] pn by simp
  have rot: "\<exists>t1. is_tree m1 t1 \<and> inorder t1 = inorder ?t" "keyValue m1 = keyValue m"
      "color m temp = RED \<Longrightarrow> color m1 p = RED" "color m temp \<noteq> RED \<Longrightarrow> m1 = m"
    using rotateToLeft_seq [OF c0, of p] nin(2) t unfolding m1_def node_in_def by (auto simp del: plug.simps)
  then obtain t1 where t1: "is_tree m1 t1" "inorder t1 = inorder ?t" by blast
  have in1: "node_in t1 x \<longleftrightarrow> node_in ?t x" for x using node_in_inorder [OF t1(2)] .
  have tpin: "node_in t1 tp"
    unfolding tp_def temp_def
    using node_in_fields(3) [OF t1(1), of p] node_in_fields(3) [OF t nin(2)] in1 nin(2) by simp
  define m2 where "m2 = (if color m1 (rightChild m1 tp) = BLACK
    then rotateToRight tp (set_color tp RED (set_color (leftChild m1 tp) BLACK m1)) else m1)"
  define tq where "tq = (if color m1 (rightChild m1 tp) = BLACK then rightChild m2 (parent m2 tp) else tp)"
  have c1: "is_tree (set_color tp RED (set_color (leftChild m1 tp) BLACK m1)) t1" using t1 by simp
  have rot2: "\<exists>t2. is_tree m2 t2 \<and> inorder t2 = inorder ?t" "keyValue m2 = keyValue m"
    using rotateToRight_seq [OF c1, of tp] tpin t1 rot(2) unfolding m2_def node_in_def by auto
  then obtain t2 where t2: "is_tree m2 t2" "inorder t2 = inorder ?t" by blast
  let ?m5 = "set_color (rightChild m2 tq) BLACK (set_color (parent m2 n) BLACK (set_color tq (color m2 (parent m2 n)) m2))"
  have unf: "fix_delete_left n m =
    (if color m1 (leftChild m1 tp) = BLACK \<and> color m1 (rightChild m1 tp) = BLACK
     then (parent m1 n, set_color tp RED m1)
     else (root (rotateToLeft (parent m2 n) ?m5), rotateToLeft (parent m2 n) ?m5))"
    unfolding fix_delete_left_def tq_def m2_def using pn pn1
    unfolding m1_def tp_def temp_def by (cases "color m (rightChild m p) = RED") (simp_all add: Let_def)
  show ?thesis
  proof (cases "color m1 (leftChild m1 tp) = BLACK \<and> color m1 (rightChild m1 tp) = BLACK")
    case True
    then have res: "fix_delete_left n m = (p, set_color tp RED m1)" using unf pn1 by simp
    show ?thesis
    proof (cases "color m temp = RED")
      case red: True
      then show ?thesis unfolding del_ok_def res using rot(2,3) t1 by auto
    next
      case False
      then show ?thesis unfolding del_ok_def res using rot(4) t pn by auto
    qed
  next
    case False
    then have "fix_delete_left n m = (root (rotateToLeft (parent m2 n) ?m5), rotateToLeft (parent m2 n) ?m5)"
      using unf by auto
    then show ?thesis using del_ok_root [OF t2 rot2(2) nin(1)] by metis
  qed
qed

lemma fix_delete_right_ok:
  assumes t: "is_tree m (plug ((RightOf, p, s) # c) (Node l n r))"
  shows "del_ok m (plug ((RightOf, p, s) # c) (Node l n r)) n (fix_delete_right n m)"
proof -
  let ?t = "plug ((RightOf, p, s) # c) (Node l n r)"
  define temp where "temp = leftChild m p"
  define m1 where "m1 = (if color m temp = RED
    then rotateToRight p (set_color p RED (set_color temp BLACK m)) else m)"
  define tp where "tp = (if color m temp = RED then leftChild m1 p else temp)"
  have pn: "parent m n = p" using is_tree_sub(2) [OF t] by simp
  have nin: "node_in ?t n" "node_in ?t p" by (auto simp: node_in_def set_plug)
  have c0: "is_tree (set_color p RED (set_color temp BLACK m)) ?t" using t by simp
  have pn1: "parent m1 n = p" unfolding m1_def using rotateToRight_parent [OF c0] pn by simp
  have rot: "\<exists>t1. is_tree m1 t1 \<and> inorder t1 = inorder ?t" "keyValue m1 = keyValue m"
      "color m temp = RED \<Longrightarrow> color m1 p = RED" "color m temp \<noteq> RED \<Longrightarrow> m1 = m"
    using rotateToRight_seq [OF c0, of p] nin(2) t unfolding m1_def node_in_def by (auto simp del: plug.simps)
  then obtain t1 where t1: "is_tree m1 t1" "inorder t1 = inorder ?t" by blast
  have in1: "node_in t1 x \<longleftrightarrow> node_in ?t x" for x using node_in_inorder [OF t1(2)] .
  have tpin: "node_in t1 tp"
    unfolding tp_def temp_def
    using node_in_fields(2) [OF t1(1), of p] node_in_fields(2) [OF t nin(2)] in1 nin(2) by simp
  define m2 where "m2 = (if color m1 (leftChild m1 tp) = BLACK
    then rotateToLeft tp (set_color tp RED (set_color (rightChild m1 tp) BLACK m1)) else m1)"
  define tq where "tq = (if color m1 (leftChild m1 tp) = BLACK then leftChild m2 (parent m2 tp) else tp)"
  have c1: "is_tree (set_color tp RED (set_color (rightChild m1 tp) BLACK m1)) t1" using t1 by simp
  have rot2: "\<exists>t2. is_tree m2 t2 \<and> inorder t2 = inorder ?t" "keyValue m2 = keyValue m"
    using rotateToLeft_seq [OF c1, of tp] tpin t1 rot(2) unfolding m2_def node_in_def by auto
  then obtain t2 where t2: "is_tree m2 t2" "inorder t2 = inorder ?t" by blast
  let ?m5 = "set_color (leftChild m2 tq) BLACK (set_color (parent m2 n) BLACK (set_color tq (color m2 (parent m2 n)) m2))"
  have unf: "fix_delete_right n m =
    (if color m1 (rightChild m1 tp) = BLACK \<and> color m1 (leftChild m1 tp) = BLACK
     then (parent m1 n, set_color tp RED m1)
     else (root (rotateToRight (parent m2 n) ?m5), rotateToRight (parent m2 n) ?m5))"
    unfolding fix_delete_right_def tq_def m2_def using pn pn1
    unfolding m1_def tp_def temp_def by (cases "color m (leftChild m p) = RED") (simp_all add: Let_def)
  show ?thesis
  proof (cases "color m1 (rightChild m1 tp) = BLACK \<and> color m1 (leftChild m1 tp) = BLACK")
    case True
    then have res: "fix_delete_right n m = (p, set_color tp RED m1)" using unf pn1 by simp
    show ?thesis
    proof (cases "color m temp = RED")
      case red: True
      then show ?thesis unfolding del_ok_def res using rot(2,3) t1 by auto
    next
      case False
      then show ?thesis unfolding del_ok_def res using rot(4) t pn by auto
    qed
  next
    case False
    then have "fix_delete_right n m = (root (rotateToRight (parent m2 n) ?m5), rotateToRight (parent m2 n) ?m5)"
      using unf by auto
    then show ?thesis using del_ok_root [OF t2 rot2(2) nin(1)] by metis
  qed
qed

lemma fix_delete_loop_ok:
  "is_tree m (plug c (Node l n r)) \<Longrightarrow>
   \<exists>n' m' t'. fix_delete_loop n m = Some (n', m') \<and> is_tree m' t' \<and>
     inorder t' = inorder (plug c (Node l n r)) \<and> keyValue m' = keyValue m"
proof (induction "length c" arbitrary: c l n r m rule: less_induct)
  case less
  let ?t = "plug c (Node l n r)"
  show ?case
  proof (cases "n \<noteq> root m \<and> color m n = BLACK \<and> n \<noteq> LEAF")
    case True
    have "c \<noteq> []" using True less.prems by (auto simp: is_tree_def)
    then obtain d p s c0 where c: "c = (d, p, s) # c0" by (cases c) auto
    let ?st = "if AM_I_LEFT_CHILD m n then fix_delete_left n m else fix_delete_right n m"
    have up: "parent m n = p" using is_tree_sub(2) [OF less.prems] c by simp
    have ok: "del_ok m ?t n ?st"
    proof (cases d)
      case LeftOf
      then have "AM_I_LEFT_CHILD m n"
        using is_tree_child(1) [OF less.prems [unfolded c]] up by (simp add: AM_I_LEFT_CHILD_def)
      then show ?thesis using fix_delete_left_ok less.prems unfolding c LeftOf by (simp del: plug.simps)
    next
      case RightOf
      then have "\<not> AM_I_LEFT_CHILD m n"
        using is_tree_child(1) [OF less.prems [unfolded c]] up by (auto simp: AM_I_LEFT_CHILD_def)
      then show ?thesis using fix_delete_right_ok less.prems unfolding c RightOf by (simp del: plug.simps)
    qed
    obtain n' m' where st: "?st = (n', m')" by (cases ?st)
    have unf: "fix_delete_loop n m = fix_delete_loop n' m'"
      using True st by (subst fix_delete_loop.simps) simp
    obtain t' where o: "keyValue m' = keyValue m" "is_tree m' t'" "inorder t' = inorder ?t"
        "n' = root m' \<or> color m' n' = RED \<or> (t' = ?t \<and> n' = p)"
      using ok unfolding st del_ok_def up by auto
    show ?thesis
    proof (cases "n' = root m' \<or> color m' n' = RED")
      case True
      then have "fix_delete_loop n' m' = Some (n', m')" by (subst fix_delete_loop.simps) auto
      then show ?thesis using o unf by auto
    next
      case False
      then have tt: "t' = ?t" "n' = p" using o(4) by auto
      obtain a b where ab: "?t = plug c0 (Node a p b)" unfolding c by (cases d) auto
      have "length c0 < length c" using c by simp
      from less.hyps [OF this, of m' a p b] show ?thesis
        using o(1,2) tt ab unf by auto
    qed
  next
    case False
    then have "fix_delete_loop n m = Some (n, m)" by (subst fix_delete_loop.simps) auto
    then show ?thesis using less.prems by auto
  qed
qed

lemma fix_delete_ok:
  assumes t: "is_tree m t" and n: "n = LEAF \<or> n \<in> set_tree t"
  shows "\<exists>m' t'. if_nodecolor_black_fix_collisions n k m = Some m' \<and> is_tree m' t' \<and>
    inorder t' = inorder t \<and> keyValue m' = keyValue m"
proof (cases "k = BLACK")
  case True
  show ?thesis
  proof (cases "n = LEAF")
    case True
    then have "fix_delete_loop n m = Some (n, m)" by (subst fix_delete_loop.simps) simp
    then show ?thesis
      using t \<open>k = BLACK\<close> by (auto simp: if_nodecolor_black_fix_collisions_def fix_delete_collisions_def)
  next
    case False
    then obtain c l r where "t = plug c (Node l n r)" using n in_tree_plug by blast
    then show ?thesis
      using fix_delete_loop_ok [of m c l n r] t \<open>k = BLACK\<close>
      by (auto simp: if_nodecolor_black_fix_collisions_def fix_delete_collisions_def)
  qed
next
  case False
  then show ?thesis using t by (auto simp: if_nodecolor_black_fix_collisions_def)
qed

section \<open>Deletion unlinks exactly one node\<close>

lemma switchNodes_relink:
  "nodeA \<noteq> LEAF \<Longrightarrow> switchNodes nodeA nodeB m =
     (if nodeB \<noteq> LEAF then set_parent nodeB (parent m nodeA) else id) (relink (parent m nodeA) nodeA nodeB m)"
  by (simp add: switchNodes_def relink_def AM_I_LEFT_CHILD_def)

lemma distinct_path: "distinct (inorder (plug c s)) \<longleftrightarrow> distinct (before c @ after c) \<and> distinct (inorder s) \<and>
    path_set c \<inter> set_tree s = {}"
proof -
  have "path_set c = set (before c) \<union> set (after c)" by (induction c rule: after.induct) auto
  then show ?thesis by (auto simp: inorder_path)
qed

lemma relink_frame:
  "parent (relink p x y m) = parent m" "keyValue (relink p x y m) = keyValue m" "color (relink p x y m) = color m"
  "z \<noteq> p \<Longrightarrow> leftChild (relink p x y m) z = leftChild m z" "z \<noteq> p \<Longrightarrow> rightChild (relink p x y m) z = rightChild m z"
  by (auto simp: relink_def)

text \<open>A node with at most one subtree \<open>s\<close> is replaced by it.\<close>

lemma switch_one:
  assumes t: "is_tree m (plug c (Node l d r))" and b: "repr m d b s" "s = l \<and> r = Leaf \<or> s = r \<and> l = Leaf"
  shows "is_tree (switchNodes d b m) (plug c s)" "keyValue (switchNodes d b m) = keyValue m"
    "color (switchNodes d b m) = color m"
proof -
  note sub = is_tree_sub [OF t]
  have dist: "distinct (inorder (plug c (Node l d r)))" and lf: "leaf_ok m" using t by (auto simp: is_tree_def)
  have pr: "path_repr m c d" using t by (auto simp: is_tree_def repr_plug)
  have ds: "distinct (inorder s)" "path_set c \<inter> set_tree s = {}" "distinct (inorder (plug c s))"
    using dist b(2) by (auto simp: distinct_path)
  have ups: "up c \<notin> set_tree s" using repr_nonzero [OF b(1)] ds(2) by (rule up_notin)
  let ?m = "relink (up c) d b m" and ?m' = "switchNodes d b m"
  have m': "?m' = (if b \<noteq> LEAF then set_parent b (up c) else id) ?m"
    unfolding switchNodes_relink [OF sub(1)] sub(2) ..
  have p1: "path_repr ?m c b" by (rule relink_path [OF dist pr _ sub(1)]) simp
  have bs: "b \<noteq> LEAF \<Longrightarrow> b \<in> set_tree s" using repr_in [OF b(1)] by simp
  have "path_repr ?m' c b"
    using p1 by (rule path_repr_cong) (use m' bs ds(2) in auto)
  moreover have "repr ?m' (up c) b s"
  proof (rule repr_reparent [OF b(1) ds(1)])
    fix x assume x: "x \<in> set_tree s"
    then have "x \<noteq> up c" using ups by auto
    then show "leftChild ?m' x = leftChild m x \<and> rightChild ?m' x = rightChild m x"
      by (simp add: m' relink_frame)
    show "x \<noteq> b \<Longrightarrow> parent ?m' x = parent m x" by (simp add: m' relink_frame)
  qed (use repr_root [OF b(1)] m' in auto)
  moreover have "leaf_ok ?m'"
    using lf by (auto simp: leaf_ok_def m' relink_def)
  ultimately show "is_tree ?m' (plug c s)" using ds(3) unfolding is_tree_def repr_plug by blast
  show "keyValue ?m' = keyValue m" "color ?m' = color m" by (simp_all add: m' relink_frame)
qed

text \<open>The second half of \<^verbatim>\<open>pico_tree_delete_node\<close>: the successor \<open>mn\<close> takes the place of \<open>d\<close>.\<close>

lemma take_place:
  assumes pr: "path_repr m c d" and l: "repr m d (leftChild m d) l" and pd: "parent m d = up c"
    and r: "repr m mn (rightChild m mn) r" and lf: "leaf_ok m" and nz: "d \<noteq> LEAF" "mn \<noteq> LEAF"
    and dist: "distinct (inorder (plug c (Node l mn r)))" and dn: "d \<notin> set_tree (plug c (Node l mn r))"
  defines "m2 \<equiv> switchNodes d mn m"
  defines "m3 \<equiv> set_left mn (leftChild m2 d) m2"
  defines "m4 \<equiv> if leftChild m3 mn \<noteq> LEAF then set_parent (leftChild m3 mn) mn m3 else m3"
  shows "is_tree m4 (plug c (Node l mn r))" "keyValue m4 = keyValue m"
proof -
  let ?b = "leftChild m d"
  have dl: "distinct (inorder (plug c (Node l d Leaf)))" using dist dn by (auto simp: distinct_path set_plug)
  have pc: "path_set c \<inter> set_tree (Node l mn r) = {}" "distinct (inorder (Node l mn r))"
    using dist by (auto simp: distinct_path)
  have upc: "up c \<notin> set_tree (Node l mn r)"
    using up_notin [OF _ pc(1)] nz repr_nonzero [OF l] repr_nonzero [OF r] by auto
  have dc: "d \<noteq> up c" "d \<noteq> mn" "d \<notin> path_set c" "d \<notin> set_tree l" "d \<notin> set_tree r"
  proof -
    show "d \<noteq> mn" "d \<notin> path_set c" "d \<notin> set_tree l" "d \<notin> set_tree r" using dn by (auto simp: set_plug)
    then show "d \<noteq> up c" using nz by (cases c rule: up.cases) auto
  qed
  have m2: "m2 = set_parent mn (up c) (relink (up c) d mn m)"
    unfolding m2_def switchNodes_relink [OF nz(1)] pd using nz by simp
  have lb: "leftChild m2 d = ?b" using dc by (simp add: m2 relink_frame)
  have bl: "?b \<noteq> LEAF \<Longrightarrow> ?b \<in> set_tree l" using repr_in [OF l] by simp
  have m4: "m4 = (if ?b \<noteq> LEAF then set_parent ?b mn else id) (set_left mn ?b m2)"
    unfolding m4_def m3_def lb by simp
  have bn: "?b \<noteq> LEAF \<Longrightarrow> ?b \<noteq> mn \<and> ?b \<notin> path_set c \<and> ?b \<notin> set_tree r" using bl pc by auto
  have "path_repr (relink (up c) d mn m) c mn" by (rule relink_path [OF dl pr _ nz(1)]) simp
  then have p4: "path_repr m4 c mn"
    by (rule path_repr_cong) (use m4 m2 bn pc in auto)
  have fr: "leftChild m4 x = leftChild m x" "rightChild m4 x = rightChild m x" "x \<noteq> ?b \<Longrightarrow> parent m4 x = parent m x"
    if "x \<noteq> up c" "x \<noteq> mn" for x using that by (auto simp: m4 m2 relink_frame)
  have fm: "leftChild m4 mn = ?b" "rightChild m4 mn = rightChild m mn" "parent m4 mn = up c"
    using upc bn by (auto simp: m4 m2 relink_frame)
  have l4: "repr m4 mn ?b l"
  proof (rule repr_reparent [OF l])
    show "distinct (inorder l)" using pc by simp
    fix x assume "x \<in> set_tree l"
    then have x: "x \<noteq> up c" "x \<noteq> mn" using upc pc by auto
    show "leftChild m4 x = leftChild m x \<and> rightChild m4 x = rightChild m x" using fr [OF x] by simp
    show "x \<noteq> ?b \<Longrightarrow> parent m4 x = parent m x" using fr [OF x] by simp
  qed (use repr_root [OF l] m4 in auto)
  have r4: "repr m4 mn (rightChild m mn) r"
    using r
  proof (rule repr_cong)
    fix x assume x: "x \<in> set_tree r"
    then have "x \<noteq> up c" "x \<noteq> mn" using upc pc by auto
    moreover have "x \<noteq> ?b" using x bn repr_nonzero [OF r] by metis
    ultimately show "leftChild m4 x = leftChild m x \<and> rightChild m4 x = rightChild m x \<and> parent m4 x = parent m x"
      using fr by simp
  qed
  have "repr m4 (up c) mn (Node l mn r)" using l4 r4 fm nz by simp
  moreover have "leaf_ok m4" using lf nz by (auto simp: leaf_ok_def m4 m2 relink_def)
  ultimately show "is_tree m4 (plug c (Node l mn r))" using p4 dist unfolding is_tree_def repr_plug by blast
  show "keyValue m4 = keyValue m" by (simp add: m4 m2 relink_frame)
qed

text \<open>The leftmost node of a subtree: its path only goes left.\<close>

lemma leftmost_path: "t \<noteq> Leaf \<Longrightarrow> \<exists>c x r. t = plug c (Node Leaf x r) \<and> before c = [] \<and> hd (inorder t) = x"
proof (induction t)
  case (Node l x r)
  show ?case
  proof (cases "l = Leaf")
    case True
    then show ?thesis by (intro exI [of _ "[]"]) auto
  next
    case False
    then obtain c y q where c: "l = plug c (Node Leaf y q)" "before c = []" "hd (inorder l) = y"
      using Node.IH(1) by blast
    have "before (c @ [(LeftOf, x, r)]) = []" using c(2) by (induction c rule: before.induct) auto
    moreover have "hd (inorder (Node l x r)) = y" using c(3) False by (simp add: hd_append)
    ultimately show ?thesis
      using c(1) by (intro exI [of _ "c @ [(LeftOf, x, r)]"]) (auto simp: plug_append)
  qed
qed simp

lemma up_append: "up (c @ (d, x, t) # c') = (if c = [] then x else up c)"
  by (cases c rule: up.cases) auto

lemma delete_node_ok:
  assumes t: "is_tree m (plug c (Node l d r))" and r: "r \<noteq> Leaf"
  shows "\<exists>k temp m' t'. pico_tree_delete_node d m = Some (k, temp, m') \<and> is_tree m' t' \<and>
    inorder t' = before c @ inorder l @ inorder r @ after c \<and> keyValue m' = keyValue m \<and>
    (temp = LEAF \<or> temp \<in> set_tree t')"
proof -
  note sub = is_tree_sub [OF t]
  obtain cr mn q where r0: "r = plug cr (Node Leaf mn q)" "before cr = []" "hd (inorder r) = mn"
    using leftmost_path [OF r] by blast
  let ?C = "cr @ (RightOf, d, l) # c" and ?R = "plug cr q"
  have tm: "is_tree m (plug ?C (Node Leaf mn q))" using t r0 by (simp add: plug_append)
  note msub = is_tree_sub [OF tm]
  have first: "pico_tree_firstNode m (rightChild m d) = Some mn"
    using firstNode_ok [OF sub(4)] t r0 by (cases "inorder r") (auto simp: is_tree_def hd_or_leaf_def inorder_path)
  have dist: "distinct (inorder (plug c (Node l d r)))" and lf: "leaf_ok m" using t by (auto simp: is_tree_def)
  have ino: "inorder r = mn # inorder ?R" using r0 by (simp add: inorder_path)
  have dist': "distinct (inorder (plug c (Node l mn ?R)))" and dn: "d \<notin> set_tree (plug c (Node l mn ?R))"
    and mn: "mn \<notin> set_tree (plug c (Node l d ?R))"
    using dist unfolding inorder_path by (auto simp: ino simp flip: set_inorder simp add: inorder_path)
  have temp: "rightChild m mn = LEAF \<or> rightChild m mn \<in> set_tree ?R"
    using repr_in [OF msub(4)] by (auto simp: set_plug)
  define m1 where "m1 = (if parent m mn = d \<and> rightChild m mn \<noteq> LEAF then set_parent (rightChild m mn) mn m
    else let a = switchNodes mn (rightChild m mn) m; b = set_right mn (rightChild a d) a
         in if rightChild b mn \<noteq> LEAF then set_parent (rightChild b mn) mn b else b)"
  have J: "path_repr m1 c d \<and> repr m1 d (leftChild m1 d) l \<and> parent m1 d = up c \<and>
    repr m1 mn (rightChild m1 mn) ?R \<and> leaf_ok m1 \<and> keyValue m1 = keyValue m"
  proof (cases "parent m mn = d \<and> rightChild m mn \<noteq> LEAF")
    case True
    have "d \<notin> path_set cr" using dn by (auto simp: set_plug)
    then have "cr = []" using True msub(2) sub(1) by (cases cr rule: up.cases) auto
    moreover have "parent m (rightChild m mn) = mn" using repr_in [OF msub(4)] True by simp
    then have "(parent m)(rightChild m mn := mn) = parent m" by (simp add: fun_upd_idem)
    then have "m1 = m" using True unfolding m1_def by (simp add: set_parent_def)
    ultimately show ?thesis
      using t sub msub(4) lf by (auto simp: is_tree_def repr_plug)
  next
    case False
    let ?a = "switchNodes mn (rightChild m mn) m"
    note sw = switch_one [OF tm msub(4)]
    have ta: "is_tree ?a (plug c (Node l d ?R))" using sw(1) by (simp add: plug_append)
    note asub = is_tree_sub [OF ta]
    let ?b = "set_right mn (rightChild ?a d) ?a"
    have m1: "m1 = (if rightChild ?a d \<noteq> LEAF then set_parent (rightChild ?a d) mn ?b else ?b)"
      unfolding m1_def if_not_P [OF False] Let_def by simp
    let ?h = "rightChild ?a d"
    have h: "?h \<noteq> LEAF \<Longrightarrow> ?h \<in> set_tree ?R" using repr_in [OF asub(4)] by simp
    have mnot: "mn \<notin> path_set c" "mn \<notin> set_tree l" "mn \<noteq> d" "mn \<notin> set_tree ?R" using mn by (auto simp: set_plug)
    have dsa: "path_set c \<inter> set_tree ?R = {}" "set_tree l \<inter> set_tree ?R = {}" "d \<notin> set_tree ?R" "distinct (inorder ?R)"
      using dist' dn by (auto simp: distinct_path set_plug)
    have fr: "leftChild m1 x = leftChild ?a x" "x \<noteq> mn \<Longrightarrow> rightChild m1 x = rightChild ?a x"
        "x \<noteq> ?h \<or> x = LEAF \<Longrightarrow> parent m1 x = parent ?a x" "root m1 = root ?a" for x
      unfolding m1 by auto
    have hn: "x \<noteq> ?h \<or> x = LEAF" if "x \<notin> set_tree ?R" for x using h that by auto
    have frx: "leftChild m1 x = leftChild ?a x \<and> rightChild m1 x = rightChild ?a x \<and> parent m1 x = parent ?a x"
      if "x \<noteq> mn" "x \<notin> set_tree ?R" for x using fr(1,2,3) that hn by blast
    have "path_repr ?a c d" using ta by (auto simp: is_tree_def repr_plug)
    then have "path_repr m1 c d"
      by (rule path_repr_cong) (rule fr(4), rule frx, (use mnot dsa in blast)+)
    moreover have "repr m1 d (leftChild ?a d) l"
      using asub(3) by (rule repr_cong) (rule frx, (use mnot dsa in blast)+)
    moreover have "repr m1 mn ?h ?R"
      by (rule repr_reparent [OF asub(4) dsa(4)])
        (use fr mnot repr_root [OF asub(4)] in \<open>auto simp: m1\<close>)
    moreover have "rightChild m1 mn = ?h" "parent m1 d = up c" "leftChild m1 d = leftChild ?a d"
      using fr hn [OF dsa(3)] asub(2) by (auto simp: m1)
    moreover have "leaf_ok m1" using ta msub(1) hn [of LEAF] repr_nonzero [OF asub(4)]
      by (auto simp: is_tree_def leaf_ok_def m1)
    moreover have "keyValue m1 = keyValue m" using sw(2) by (auto simp: m1)
    ultimately show ?thesis by simp
  qed
  define m2 where "m2 = switchNodes d mn m1"
  define m3 where "m3 = set_left mn (leftChild m2 d) m2"
  define m4 where "m4 = (if leftChild m3 mn \<noteq> LEAF then set_parent (leftChild m3 mn) mn m3 else m3)"
  have tp: "is_tree m4 (plug c (Node l mn ?R))" "keyValue m4 = keyValue m1"
    unfolding m4_def m3_def m2_def
    using J take_place [of m1 c d l mn ?R] sub(1) msub(1) dist' dn by auto
  have "pico_tree_delete_node d m = Some (color m mn, rightChild m mn, set_color mn (color m4 d) m4)"
    unfolding pico_tree_delete_node_def first m4_def m3_def m2_def m1_def by (simp add: Let_def)
  moreover have "inorder (plug c (Node l mn ?R)) = before c @ inorder l @ inorder r @ after c"
    by (simp add: inorder_path ino)
  moreover have "rightChild m mn = LEAF \<or> rightChild m mn \<in> set_tree (plug c (Node l mn ?R))"
    using temp by (auto simp: set_plug)
  ultimately show ?thesis using tp J by (metis is_tree_set_color set_sel(29))
qed

lemma delete_check_switch_ok:
  assumes t: "is_tree m (plug c (Node l d r))"
  shows "\<exists>k temp m' t'. pico_tree_delete_check_switch d m = Some (k, temp, m') \<and> is_tree m' t' \<and>
    inorder t' = before c @ inorder l @ inorder r @ after c \<and> keyValue m' = keyValue m \<and>
    (temp = LEAF \<or> temp \<in> set_tree t')"
proof -
  note sub = is_tree_sub [OF t]
  consider "l = Leaf" | "l \<noteq> Leaf" "r = Leaf" | "l \<noteq> Leaf" "r \<noteq> Leaf" by blast
  then show ?thesis
  proof cases
    case 1
    then have z: "leftChild m d = LEAF" using sub(3) by simp
    have "pico_tree_delete_check_switch d m = Some (color m d, rightChild m d, switchNodes d (rightChild m d) m)"
      using z by (simp add: pico_tree_delete_check_switch_def)
    moreover have "inorder (plug c r) = before c @ inorder l @ inorder r @ after c"
      using 1 by (simp add: inorder_path)
    moreover have "rightChild m d = LEAF \<or> rightChild m d \<in> set_tree (plug c r)"
      using repr_in [OF sub(4)] by (auto simp: set_plug)
    ultimately show ?thesis using switch_one [OF t sub(4)] 1 by blast
  next
    case 2
    then have z: "leftChild m d \<noteq> LEAF" "rightChild m d = LEAF" using sub(3,4) repr_root [OF sub(3)] by auto
    have "pico_tree_delete_check_switch d m = Some (color m d, leftChild m d, switchNodes d (leftChild m d) m)"
      using z by (simp add: pico_tree_delete_check_switch_def)
    moreover have "inorder (plug c l) = before c @ inorder l @ inorder r @ after c"
      using 2 by (simp add: inorder_path)
    moreover have "leftChild m d = LEAF \<or> leftChild m d \<in> set_tree (plug c l)"
      using repr_in [OF sub(3)] by (auto simp: set_plug)
    ultimately show ?thesis using switch_one [OF t sub(3)] 2 by blast
  next
    case 3
    then have "leftChild m d \<noteq> LEAF" "rightChild m d \<noteq> LEAF" using repr_root sub(3,4) by blast+
    then show ?thesis using delete_node_ok [OF t 3(2)] by (simp add: pico_tree_delete_check_switch_def)
  qed
qed

context tree_order
begin

lemma tdelete_mid:
  assumes "tsorted cmp (xs @ x # ys)" "cmp x k = 0"
  shows "tdelete cmp k (xs @ x # ys) = xs @ ys"
proof -
  have "cmp a k \<noteq> 0" if "a \<in> set xs" for a
    using assms that cmp_eqv2 [OF assms(2), of a] by (auto simp: tsorted_node)
  moreover have "cmp b k \<noteq> 0" if "b \<in> set ys" for b
    using assms that cmp_eqv [OF assms(2), of b] cmp_sym0 by (auto simp: tsorted_node) (metis less_irrefl)
  ultimately show ?thesis using assms(2) by (auto simp: tdelete_def filter_id_conv)
qed

lemma delete_found:
  assumes t: "is_tree m t" and s: "tsorted cmp (keys m t)" and f: "tfind cmp k (keys m t) = Some x"
  shows "\<exists>d m' t'. pico_tree_delete cmp k m = Some (Some (x, d), m') \<and> is_tree m' t' \<and>
    keys m' t' = tdelete cmp k (keys m t) \<and> d \<in> set_tree t \<and> set_tree t' = set_tree t - {d}"
proof -
  let ?P = "\<lambda>x. cmp (keyValue m x) k = 0"
  have fl: "find_loop cmp m k (root m) = Some (List.find ?P (inorder t))"
    using find_loop_ok [of m LEAF "root m" t k] t s by (simp add: is_tree_def)
  have "map_option (keyValue m) (List.find ?P (inorder t)) = Some x"
    using findKey_ok [OF t s, of k] f fl by (simp add: pico_tree_findKey_def)
  then obtain d where d: "List.find ?P (inorder t) = Some d" "keyValue m d = x" by auto
  then have dt: "d \<in> set_tree t" "cmp x k = 0" by (auto simp: find_Some_iff simp flip: set_inorder)
  then obtain c l r where c: "t = plug c (Node l d r)" using in_tree_plug by blast
  obtain kk temp m1 t1 where sw: "pico_tree_delete_check_switch d m = Some (kk, temp, m1)" "is_tree m1 t1"
      "inorder t1 = before c @ inorder l @ inorder r @ after c" "keyValue m1 = keyValue m"
      "temp = LEAF \<or> temp \<in> set_tree t1"
    using delete_check_switch_ok t c by blast
  obtain m' t' where fx: "if_nodecolor_black_fix_collisions temp kk m1 = Some m'" "is_tree m' t'"
      "inorder t' = inorder t1" "keyValue m' = keyValue m1"
    using fix_delete_ok [OF sw(2,5)] by blast
  have ino: "inorder t = (before c @ inorder l) @ d # (inorder r @ after c)" by (simp add: c inorder_path)
  have "pico_tree_delete cmp k m = Some (Some (x, d), m')"
    using fl d sw(1) fx(1) by (simp add: pico_tree_delete_def pico_tree_findNode_def)
  moreover have "keys m' t' = tdelete cmp k (keys m t)"
    using tdelete_mid [of "map (keyValue m) (before c @ inorder l)" x "map (keyValue m) (inorder r @ after c)" k]
      s dt(2) d(2) fx(3,4) sw(3,4) by (simp add: keys_def ino)
  moreover have "set_tree t' = set_tree t - {d}"
  proof -
    have "distinct (inorder t)" using t by (simp add: is_tree_def)
    then have "set (inorder t') = set (inorder t) - {d}" unfolding ino fx(3) sw(3) by auto
    then show ?thesis by simp
  qed
  ultimately show ?thesis using fx(2) dt(1) by blast
qed

lemma delete_absent:
  assumes t: "is_tree m t" and s: "tsorted cmp (keys m t)" and f: "tfind cmp k (keys m t) = None"
  shows "pico_tree_delete cmp k m = Some (None, m)"
proof -
  have "find_loop cmp m k (root m) = Some (List.find (\<lambda>x. cmp (keyValue m x) k = 0) (inorder t))"
    using find_loop_ok [of m LEAF "root m" t k] t s by (simp add: is_tree_def)
  moreover have "List.find (\<lambda>x. cmp (keyValue m x) k = 0) (inorder t) = None"
    using f by (auto simp: tfind_None keys_def find_None_iff)
  ultimately show ?thesis by (simp add: pico_tree_delete_def pico_tree_findNode_def)
qed

end

section \<open>Properties\<close>

text \<open>C5: Insertion refines insertion into a strictly sorted list. It always returns; a key already present
  leaves the tree as it is, a failed allocation too, and a new key is placed in order and linked through
  the fresh node, whatever the colours in the tree and of the sentinel are.\<close>

theorem pico_tree_insert_refines:
  assumes "tree_order cmp" "is_tree m t" "tsorted cmp (keys m t)" "n \<noteq> LEAF" "n \<notin> set_tree t"
  shows "case tfind cmp k (keys m t) of
      Some x \<Rightarrow> pico_tree_insert cmp (Some n) k m = Some (AlreadyIn x, m)
    | None \<Rightarrow> pico_tree_insert cmp None k m = Some (NoMemory, m) \<and>
        (\<exists>m' t'. pico_tree_insert cmp (Some n) k m = Some (Inserted, m') \<and> is_tree m' t' \<and>
           keys m' t' = tinsert cmp k (keys m t) \<and> tsorted cmp (keys m' t') \<and>
           set_tree t' = insert n (set_tree t))"
proof (cases "tfind cmp k (keys m t)")
  case None
  note fk = tree_order.findKey_ok [OF assms(1-3), of k]
  have "pico_tree_insert cmp None k m = Some (NoMemory, m)"
    using fk None by (simp add: pico_tree_insert_def create_node_def)
  moreover obtain m' t' where "pico_tree_insert cmp (Some n) k m = Some (Inserted, m')" "is_tree m' t'"
      "keys m' t' = tinsert cmp k (keys m t)" "set_tree t' = insert n (set_tree t)"
    using tree_order.insert_new [OF assms(1-3) None assms(4,5)] by blast
  moreover have "tsorted cmp (tinsert cmp k (keys m t))" by (rule tree_order.tsorted_tinsert [OF assms(1,3)])
  ultimately show ?thesis unfolding None option.case by metis
next
  case (Some x)
  have "root m \<noteq> LEAF"
    using assms(2) Some repr_root by (cases t) (auto simp: is_tree_def keys_def tfind_def)
  then show ?thesis
    using tree_order.findKey_ok [OF assms(1-3), of k] Some by (simp add: pico_tree_insert_def)
qed

text \<open>C21: Deletion refines deletion from a strictly sorted list. It always returns the key stored in the tree,
  unlinks exactly the node it releases and keeps every other key in order; an absent key changes nothing.\<close>

theorem pico_tree_delete_refines:
  assumes "tree_order cmp" "is_tree m t" "tsorted cmp (keys m t)"
  shows "case tfind cmp k (keys m t) of
      None \<Rightarrow> pico_tree_delete cmp k m = Some (None, m)
    | Some x \<Rightarrow> (\<exists>d m' t'. pico_tree_delete cmp k m = Some (Some (x, d), m') \<and> is_tree m' t' \<and>
        keys m' t' = tdelete cmp k (keys m t) \<and> tsorted cmp (keys m' t') \<and>
        d \<in> set_tree t \<and> set_tree t' = set_tree t - {d})"
  using tree_order.delete_absent [OF assms] tree_order.delete_found [OF assms]
    tree_order.tsorted_tdelete [OF assms(1,3), of k]
  by (auto split: option.splits) metis

text \<open>C22: A forward and a backward traversal visit every node of the tree exactly once, in order, and end.\<close>

theorem pico_tree_foreach_in_order:
  assumes "is_tree m t"
  shows "pico_tree_foreach m = Some (inorder t) \<and> pico_tree_foreach_reverse m = Some (rev (inorder t)) \<and>
    distinct (inorder t)"
  using foreach_ok [OF assms] foreach_reverse_ok [OF assms] assms by (auto simp: is_tree_def)

text \<open>A search returns the stored key that compares equal, if there is one, and ends.\<close>

theorem pico_tree_findKey_correct:
  assumes "tree_order cmp" "is_tree m t" "tsorted cmp (keys m t)"
  shows "pico_tree_findKey cmp m k = Some (tfind cmp k (keys m t))"
  using tree_order.findKey_ok [OF assms] .

lemma tree_order_minus: "tree_order (\<lambda>a b :: int. a - b)"
  by unfold_locales auto

definition one_key :: "int pico_tree" where
  "one_key = \<lparr>root = 1, keyValue = (\<lambda>_. 5), parent = (\<lambda>_. LEAF), leftChild = (\<lambda>_. LEAF),
     rightChild = (\<lambda>_. LEAF), color = (\<lambda>_. BLACK)\<rparr>"

lemma one_key_tree: "is_tree one_key (Node Leaf 1 Leaf)" "keys one_key (Node Leaf 1 Leaf) = [5]"
  "tsorted (\<lambda>a b. a - b) (keys one_key (Node Leaf 1 Leaf))"
  by (simp_all add: one_key_def is_tree_def leaf_ok_def keys_def tsorted_def)

theorem pico_tree_insert_refines_witness:
  "\<exists>m' t'. pico_tree_insert (\<lambda>a b. a - b) (Some 2) 3 one_key = Some (Inserted, m') \<and> is_tree m' t' \<and> keys m' t' = [3, 5]"
  using pico_tree_insert_refines [OF tree_order_minus one_key_tree(1,3), of 2 3]
  unfolding one_key_tree(2) by (auto simp: tfind_def tinsert_def)

theorem pico_tree_delete_refines_witness:
  "\<exists>d m' t'. pico_tree_delete (\<lambda>a b. a - b) 5 one_key = Some (Some (5, d), m') \<and> is_tree m' t' \<and> keys m' t' = []"
  using pico_tree_delete_refines [OF tree_order_minus one_key_tree(1,3), of 5]
  unfolding one_key_tree(2) by (auto simp: tfind_def tdelete_def)

theorem pico_tree_foreach_in_order_witness: "pico_tree_foreach one_key = Some [1]"
  using pico_tree_foreach_in_order [OF one_key_tree(1)] by simp

theorem pico_tree_findKey_correct_witness: "pico_tree_findKey (\<lambda>a b. a - b) one_key 5 = Some (Some 5)"
  using pico_tree_findKey_correct [OF tree_order_minus one_key_tree(1,3), of 5]
  unfolding one_key_tree(2) by (simp add: tfind_def)

subsection \<open>Balance\<close>

text \<open>The black height of a tree, when all its paths have the same number of black nodes.\<close>

fun black_height :: "(nat \<Rightarrow> colour) \<Rightarrow> nat tree \<Rightarrow> nat option" where
  "black_height col Leaf = Some 0"
| "black_height col (Node l x r) = (case (black_height col l, black_height col r) of
     (Some a, Some b) \<Rightarrow> if a = b then Some (a + (if col x = BLACK then 1 else 0)) else None
   | _ \<Rightarrow> None)"

lemma black_height_None: "black_height col s = None \<Longrightarrow> black_height col (plug c s) = None"
  by (induction c arbitrary: s rule: after.induct) (auto split: option.splits)

lemma black_height_changed:
  assumes "black_height col (plug (e # c) s) \<noteq> None" "black_height col s \<noteq> black_height col s'"
  shows "black_height col (plug (e # c) s') = None"
proof -
  obtain d x u where e: "e = (d, x, u)" by (cases e)
  have "black_height col (plug1 e s) \<noteq> None" using assms(1) black_height_None by fastforce
  then have "black_height col (plug1 e s') = None"
    using assms(2) unfolding e by (cases d) (auto split: option.splits if_splits)
  then show ?thesis using black_height_None by simp
qed

lemma black_height_cong: "(\<And>x. x \<in> set_tree t \<Longrightarrow> col x = col' x) \<Longrightarrow> black_height col t = black_height col' t"
  by (induction t) (auto split: option.splits)

text \<open>C23: Deleting a black node that has no children and is not the root leaves the tree with paths of different
  black height: the repair loop is not entered because the node that takes the place is the sentinel.\<close>

theorem pico_tree_delete_black_leaf_unbalances:
  assumes t: "is_tree m (plug (e # c) (Node Leaf d Leaf))" and k: "color m d = BLACK"
    and bal: "black_height (color m) (plug (e # c) (Node Leaf d Leaf)) \<noteq> None"
    and f: "pico_tree_findNode cmp m key = Some (Some d)"
  shows "\<exists>m'. pico_tree_delete cmp key m = Some (Some (keyValue m d, d), m') \<and> is_tree m' (plug (e # c) Leaf) \<and>
    black_height (color m') (plug (e # c) Leaf) = None"
proof -
  note sub = is_tree_sub [OF t]
  let ?m1 = "switchNodes d LEAF m" and ?m' = "set_color LEAF BLACK (switchNodes d LEAF m)"
  have z: "leftChild m d = LEAF" "rightChild m d = LEAF" using sub(3,4) by simp_all
  have "repr m d LEAF Leaf" by simp
  note sw = switch_one [OF t this]
  have "fix_delete_loop LEAF ?m1 = Some (LEAF, ?m1)" by (subst fix_delete_loop.simps) simp
  then have "pico_tree_delete cmp key m = Some (Some (keyValue m d, d), ?m')"
    using f z k by (simp add: pico_tree_delete_def pico_tree_delete_check_switch_def
        if_nodecolor_black_fix_collisions_def fix_delete_collisions_def)
  moreover have "is_tree ?m' (plug (e # c) Leaf)" using sw(1) by (simp del: plug.simps)
  moreover have "black_height (color ?m') (plug (e # c) Leaf) = None"
  proof -
    have "LEAF \<notin> set_tree (plug (e # c) Leaf)" using repr_nonzero sw(1) unfolding is_tree_def by blast
    then have "black_height (color ?m') (plug (e # c) Leaf) = black_height (color m) (plug (e # c) Leaf)"
      using sw(3) by (intro black_height_cong) auto
    also have "\<dots> = None" using bal k by (intro black_height_changed) auto
    finally show ?thesis .
  qed
  ultimately show ?thesis by blast
qed

definition three_keys :: "int pico_tree" where
  "three_keys = \<lparr>root = 2, keyValue = int, parent = (\<lambda>x. if x = 1 \<or> x = 3 then 2 else LEAF),
     leftChild = (\<lambda>x. if x = 2 then 1 else LEAF), rightChild = (\<lambda>x. if x = 2 then 3 else LEAF),
     color = (\<lambda>_. BLACK)\<rparr>"

theorem pico_tree_delete_black_leaf_unbalances_witness:
  "\<exists>m'. pico_tree_delete (\<lambda>a b. a - b) 1 three_keys = Some (Some (1, 1), m') \<and>
     black_height (color m') (plug [(LeftOf, 2, Node Leaf 3 Leaf)] Leaf) = None"
proof -
  have "find_loop (\<lambda>a b. a - b) three_keys 1 2 = Some (Some 1)"
    by (subst find_loop.simps, simp add: three_keys_def, subst find_loop.simps, simp)
  then have "pico_tree_findNode (\<lambda>a b. a - b) three_keys 1 = Some (Some 1)"
    by (simp add: pico_tree_findNode_def) (simp add: three_keys_def)
  moreover have "is_tree three_keys (plug ((LeftOf, 2, Node Leaf 3 Leaf) # []) (Node Leaf 1 Leaf))"
    by (simp add: three_keys_def is_tree_def leaf_ok_def)
  moreover have "color three_keys 1 = BLACK" "keyValue three_keys 1 = 1"
    "black_height (color three_keys) (plug ((LeftOf, 2, Node Leaf 3 Leaf) # []) (Node Leaf 1 Leaf)) \<noteq> None"
    by (simp_all add: three_keys_def)
  ultimately show ?thesis
    using pico_tree_delete_black_leaf_unbalances [of three_keys "(LeftOf, 2, Node Leaf 3 Leaf)" "[]" 1 "\<lambda>a b. a - b" 1]
    by metis
qed

end
