(* ===== verification/PicoIPv4Addr.thy ===== *)
theory PicoIPv4Addr
  imports PicoStrings PicoTree
begin

text \<open>
  The address functions of \<^verbatim>\<open>modules/pico_ipv4.c\<close>. An address is the 32-bit word the code keeps in
  \<^verbatim>\<open>struct pico_ip4\<close>: its bytes in memory order are the bytes of the dotted notation, so on the
  little-endian target the first one is the low byte. Functions that return \<^verbatim>\<open>-1\<close> through an int and
  fill in a result return an option.
\<close>

section \<open>Comparison and classification\<close>

definition pico_ipv4_compare :: "u32 \<Rightarrow> u32 \<Rightarrow> int" where
  "pico_ipv4_compare a b = (if a < b then - 1 else if a > b then 1 else 0)"

definition pico_ipv4_is_unicast :: "u32 \<Rightarrow> bool" where
  "pico_ipv4_is_unicast address = (if (bytes_of_u32 address ! 0) AND 0xe0 = 0xe0 then False else True)"

definition pico_ipv4_is_multicast :: "u32 \<Rightarrow> bool" where
  "pico_ipv4_is_multicast address =
     (if bytes_of_u32 address ! 0 \<noteq> 0xff \<and> (bytes_of_u32 address ! 0) AND 0xe0 = 0xe0 then True else False)"

definition pico_ipv4_is_loopback :: "u32 \<Rightarrow> bool" where
  "pico_ipv4_is_loopback address = (if bytes_of_u32 address ! 0 = 0x7f then True else False)"

section \<open>Printing\<close>

definition byte_digits :: "u8 \<Rightarrow> string" where
  "byte_digits b = (let n = unat b in
     if n > 99 then [digit_char (n div 100), digit_char (n mod 100 div 10), digit_char (n mod 100 mod 10)]
     else if n > 9 then [digit_char (n div 10), digit_char (n mod 10)]
     else [digit_char n])"

fun to_string_loop :: "bytes \<Rightarrow> nat \<Rightarrow> string" where
  "to_string_loop [] i = []"
| "to_string_loop (b # bs) i = byte_digits b @ (if i < 3 then ''.'' else []) @ to_string_loop bs (i + 1)"

definition pico_ipv4_to_string :: "u32 \<Rightarrow> string" where
  "pico_ipv4_to_string ip = to_string_loop (bytes_of_u32 ip) 0"

section \<open>Parsing\<close>

definition PICO_SIZE_IP4 :: nat where "PICO_SIZE_IP4 = 4"

fun parse_loop :: "string \<Rightarrow> nat \<Rightarrow> bytes \<Rightarrow> (nat \<times> bytes) option" where
  "parse_loop [] cnt buf = Some (cnt, buf)"
| "parse_loop (p # ipstr) cnt buf =
     (if \<not> (p \<noteq> NUL \<and> cnt < PICO_SIZE_IP4) then Some (cnt, buf)
      else if pico_is_digit p then parse_loop ipstr cnt (buf[cnt := 10 * buf ! cnt + of_nat (ch p - 48)])
      else if p = CHR ''.'' then parse_loop ipstr (cnt + 1) buf
      else None)"

definition pico_string_to_ipv4 :: "string \<Rightarrow> u32 option" where
  "pico_string_to_ipv4 ipstr =
     Option.bind (parse_loop ipstr 0 [0, 0, 0, 0])
       (\<lambda>(cnt, buf).
          if cnt = 1 then Some (long_from [buf ! 0, 0, 0, buf ! 1])
          else if cnt = 2 then Some (long_from [buf ! 0, buf ! 1, 0, buf ! 2])
          else if cnt \<noteq> 3 then None
          else Some (long_from buf))"

section \<open>Netmasks\<close>

fun netmask_loop :: "u32 \<Rightarrow> nat \<Rightarrow> int \<Rightarrow> bool \<Rightarrow> int" where
  "netmask_loop mask_swap 0 cnt fin = cnt"
| "netmask_loop mask_swap (Suc k) cnt fin =
     (if push_bit (31 - k) mask_swap AND 0x80000000 \<noteq> 0
      then (if fin then - 1 else netmask_loop mask_swap k (cnt + 1) fin)
      else netmask_loop mask_swap k cnt True)"

definition pico_ipv4_valid_netmask :: "u32 \<Rightarrow> int" where
  "pico_ipv4_valid_netmask netmask = netmask_loop (long_be netmask) 32 0 False"

section \<open>Lemmas\<close>

interpretation ip4_order: tree_order pico_ipv4_compare
  by unfold_locales (auto simp: pico_ipv4_compare_def split: if_splits)

lemma compare_zero [simp]: "pico_ipv4_compare a b = 0 \<longleftrightarrow> a = b"
  by (auto simp: pico_ipv4_compare_def)

lemma e0_unat: "(b :: u8) AND 0xe0 = 0xe0 \<longleftrightarrow> 224 \<le> unat b"
proof -
  have e: "(0xe0 :: u8) = push_bit 5 (mask 3)" by (simp add: mask_eq_exp_minus_1)
  have "b AND 0xe0 = push_bit 5 (drop_bit 5 b)"
    unfolding e by (rule bit_word_eqI) (auto simp: bit_simps)
  moreover have "unat b div 32 < 8" using unat_u8_less [of b] by linarith
  ultimately have "unat (b AND 0xe0) = unat b div 32 * 32"
    by (simp add: unat_push_bit unat_drop_bit)
  then have "b AND 0xe0 = 0xe0 \<longleftrightarrow> unat b div 32 * 32 = 224" by (simp add: word_unat_eq_iff)
  also have "\<dots> \<longleftrightarrow> 224 \<le> unat b"
  proof -
    have "(q * 32 = 224) = (224 \<le> n)" if "n = 32 * q + r" "r < 32" "q < 8" for q r n :: nat using that by presburger
    from this [OF mult_div_mod_eq [symmetric] _ \<open>unat b div 32 < 8\<close>] show ?thesis by simp
  qed
  finally show ?thesis .
qed

lemma ch_digit [simp]: "d < 10 \<Longrightarrow> ch (digit_char d) = d + 48"
  by (simp add: digit_char_def ch_def)

lemma digit_char_facts [simp]: "d < 10 \<Longrightarrow> pico_is_digit (digit_char d)" "d < 10 \<Longrightarrow> digit_char d \<noteq> NUL"
  by (simp add: pico_is_digit_def) (metis add_is_0 ch_NUL ch_digit zero_neq_numeral)

lemma dot_facts [simp]: "\<not> pico_is_digit (CHR ''.'')"
  by (simp add: pico_is_digit_def ch_def)

lemma parse_digit: "d < 10 \<Longrightarrow> cnt < 4 \<Longrightarrow>
    parse_loop (digit_char d # s) cnt buf = parse_loop s cnt (buf[cnt := 10 * buf ! cnt + of_nat d])"
  by (simp add: PICO_SIZE_IP4_def)

lemma parse_byte:
  assumes "cnt < 4" "length buf = 4" "buf ! cnt = 0"
  shows "parse_loop (byte_digits b @ s) cnt buf = parse_loop s cnt (buf[cnt := b])"
proof -
  let ?n = "unat b"
  have n: "?n < 256" by simp
  have d: "?n mod 100 div 10 < 10" "?n mod 10 < 10" by (simp_all add: less_mult_imp_div_less)
  have h: "?n div 100 < 10" "?n > 9 \<Longrightarrow> \<not> ?n > 99 \<Longrightarrow> ?n div 10 < 10"
    using n by (auto intro!: less_mult_imp_div_less simp del: unat_u8_less)
  have w: "word_of_nat ?n = b" by simp
  have w3: "10 * (10 * of_nat (?n div 100) + of_nat (?n mod 100 div 10)) + of_nat (?n mod 100 mod 10) = b"
  proof -
    have "10 * (?n mod 100 div 10) + ?n mod 100 mod 10 = ?n mod 100" "100 * (?n div 100) + ?n mod 100 = ?n"
      by (rule mult_div_mod_eq)+
    moreover have "10 * (10 * q + r) + t = n" if "10 * r + t = m" "100 * q + m = n" for q r t m n :: nat
      using that by simp
    ultimately have "10 * (10 * (?n div 100) + ?n mod 100 div 10) + ?n mod 100 mod 10 = ?n" by blast
    then have "(of_nat (10 * (10 * (?n div 100) + ?n mod 100 div 10) + ?n mod 100 mod 10) :: u8) = b" by simp
    then show ?thesis by (simp only: of_nat_add of_nat_mult of_nat_numeral)
  qed
  have w2: "10 * of_nat (?n div 10) + of_nat (?n mod 10) = b"
  proof -
    have "10 * (?n div 10) + ?n mod 10 = ?n" by simp
    then have "(of_nat (10 * (?n div 10) + ?n mod 10) :: u8) = b" by simp
    then show ?thesis by (simp only: of_nat_add of_nat_mult of_nat_numeral)
  qed
  consider "?n > 99" | "?n > 9" "\<not> ?n > 99" | "\<not> ?n > 9" by linarith
  then show ?thesis
  proof cases
    case 1
    have r: "byte_digits b = [digit_char (?n div 100), digit_char (?n mod 100 div 10), digit_char (?n mod 100 mod 10)]"
      using 1 by (simp add: byte_digits_def Let_def)
    have "?n mod 100 mod 10 < 10" by simp
    then show ?thesis
      using assms d h w3 unfolding r by (simp only: append_Cons append_Nil parse_digit) simp
  next
    case 2
    have r: "byte_digits b = [digit_char (?n div 10), digit_char (?n mod 10)]"
      using 2 by (simp add: byte_digits_def Let_def)
    show ?thesis
      using assms d(2) h(2) [OF 2] w2 unfolding r by (simp only: append_Cons append_Nil parse_digit) simp
  next
    case 3
    have r: "byte_digits b = [digit_char ?n]" using 3 by (simp add: byte_digits_def Let_def)
    have "?n < 10" using 3 by simp
    then show ?thesis
      using assms unfolding r by (simp only: append_Cons append_Nil parse_digit) simp
  qed
qed

lemma parse_dot: "cnt < 4 \<Longrightarrow> parse_loop (CHR ''.'' # s) cnt buf = parse_loop s (cnt + 1) buf"
  by (simp add: PICO_SIZE_IP4_def)

lemma bit_test: "push_bit k (w :: u32) AND 0x80000000 \<noteq> 0 \<longleftrightarrow> bit w (31 - k)" if "k \<le> 31"
proof -
  define c :: u32 where "c = push_bit 31 1"
  have b: "bit c n \<longleftrightarrow> n = 31" for n unfolding c_def bit_push_bit_iff bit_1_iff by auto
  have "push_bit k w AND c = (if bit w (31 - k) then c else 0)"
    by (rule bit_word_eqI) (use that in \<open>auto simp: bit_simps b\<close>)
  moreover have "c = 0x80000000" by (simp add: c_def)
  ultimately show ?thesis by auto
qed

text \<open>The lower \<open>k\<close> bits of \<open>w\<close> are \<open>j\<close> ones followed by zeros.\<close>

definition prefix_bits :: "u32 \<Rightarrow> nat \<Rightarrow> nat \<Rightarrow> bool" where
  "prefix_bits w k j \<longleftrightarrow> j \<le> k \<and> (\<forall>b<k. bit w b \<longleftrightarrow> k - j \<le> b)"

lemma netmask_loop_fin:
  "k \<le> 32 \<Longrightarrow> netmask_loop w k cnt True = (if prefix_bits w k 0 then cnt else - 1)"
proof (induction k)
  case (Suc k)
  have t: "push_bit (31 - k) w AND 0x80000000 \<noteq> 0 \<longleftrightarrow> bit w k" using bit_test [of "31 - k" w] Suc.prems by simp
  show ?case using Suc.IH Suc.prems t by (auto simp: prefix_bits_def less_Suc_eq)
qed (simp add: prefix_bits_def)

lemma prefix_bits_Suc:
  "prefix_bits w (Suc k) (Suc j) \<longleftrightarrow> bit w k \<and> prefix_bits w k j"
  by (auto simp: prefix_bits_def less_Suc_eq)

lemma prefix_bits_Suc_0: "prefix_bits w (Suc k) 0 \<longleftrightarrow> \<not> bit w k \<and> prefix_bits w k 0"
  by (auto simp: prefix_bits_def less_Suc_eq)

lemma netmask_loop_run:
  "k \<le> 32 \<Longrightarrow> 0 \<le> cnt \<Longrightarrow>
   (\<exists>j. prefix_bits w k j \<and> netmask_loop w k cnt False = cnt + int j) \<or>
   ((\<forall>j. \<not> prefix_bits w k j) \<and> netmask_loop w k cnt False = - 1)"
proof (induction k arbitrary: cnt)
  case (Suc k)
  have t: "push_bit (31 - k) w AND 0x80000000 \<noteq> 0 \<longleftrightarrow> bit w k" using bit_test [of "31 - k" w] Suc.prems by simp
  show ?case
  proof (cases "bit w k")
    case True
    then have run: "netmask_loop w (Suc k) cnt False = netmask_loop w k (cnt + 1) False" using t by simp
    have none: "\<not> prefix_bits w (Suc k) 0" using True by (simp add: prefix_bits_Suc_0)
    from Suc.IH [of "cnt + 1"] Suc.prems consider
        (a) j where "prefix_bits w k j" "netmask_loop w k (cnt + 1) False = cnt + 1 + int j"
      | (b) "\<forall>j. \<not> prefix_bits w k j" "netmask_loop w k (cnt + 1) False = - 1" by auto
    then show ?thesis
    proof cases
      case a
      then have "prefix_bits w (Suc k) (Suc j)" using True by (simp add: prefix_bits_Suc)
      then show ?thesis using run a by auto
    next
      case b
      then have "\<not> prefix_bits w (Suc k) j" for j using none by (cases j) (auto simp: prefix_bits_Suc)
      then show ?thesis using run b by auto
    qed
  next
    case False
    then have run: "netmask_loop w (Suc k) cnt False = (if prefix_bits w k 0 then cnt else - 1)"
      using t netmask_loop_fin [of k w cnt] Suc.prems by simp
    have "prefix_bits w (Suc k) j \<longleftrightarrow> j = 0 \<and> prefix_bits w k 0" for j
      using False by (cases j) (auto simp: prefix_bits_Suc prefix_bits_Suc_0)
    then show ?thesis using run by auto
  qed
qed (auto simp: prefix_bits_def)

lemma prefix_bits_unique: "prefix_bits w k i \<Longrightarrow> prefix_bits w k j \<Longrightarrow> i = j"
proof (induction k arbitrary: i j)
  case (Suc k)
  then show ?case by (cases i; cases j) (auto simp: prefix_bits_Suc prefix_bits_Suc_0)
qed (simp add: prefix_bits_def)

lemma nth_bytes: "bytes_of_u32 w ! 0 = ucast w"
  by (simp add: bytes_of_u32_def)

lemma parse_print:
  "pico_string_to_ipv4 (pico_ipv4_to_string ip) = Some ip"
proof -
  obtain a b c d where ip: "ip = long_from [a, b, c, d]" "bytes_of_u32 ip = [a, b, c, d]"
    by (rule bytes_of_u32_cases)
  have s: "pico_ipv4_to_string ip = byte_digits a @ CHR ''.'' # byte_digits b @ CHR ''.'' # byte_digits c @
      CHR ''.'' # byte_digits d @ []"
    by (simp add: pico_ipv4_to_string_def ip(2))
  have "parse_loop (pico_ipv4_to_string ip) 0 [0, 0, 0, 0] = Some (3, [a, b, c, d])"
    unfolding s by (simp add: parse_byte parse_byte [where s = "[]", simplified] parse_dot del: parse_loop.simps(2))
  then show ?thesis by (simp add: pico_string_to_ipv4_def ip(1))
qed

section \<open>Properties\<close>

text \<open>C15: Parsing the printed form of any address gives the address back.\<close>

theorem pico_string_to_ipv4_to_string:
  "pico_string_to_ipv4 (pico_ipv4_to_string ip) = Some ip"
  by (rule parse_print)

text \<open>The netmask test returns the prefix length of a mask that is a run of ones followed by zeros in network
  order, and \<^verbatim>\<open>-1\<close> for every other word.\<close>

theorem pico_ipv4_valid_netmask_prefix:
  "pico_ipv4_valid_netmask m =
     (if \<exists>n. prefix_bits (long_be m) 32 n then int (THE n. prefix_bits (long_be m) 32 n) else - 1)"
proof (cases "\<exists>n. prefix_bits (long_be m) 32 n")
  case True
  then obtain n where n: "prefix_bits (long_be m) 32 n" by blast
  then have "(THE n. prefix_bits (long_be m) 32 n) = n" using prefix_bits_unique by blast
  moreover obtain j where "prefix_bits (long_be m) 32 j" "pico_ipv4_valid_netmask m = int j"
    using netmask_loop_run [of 32 0 "long_be m"] n by (auto simp: pico_ipv4_valid_netmask_def)
  ultimately show ?thesis using n True prefix_bits_unique by auto
next
  case False
  then show ?thesis
    using netmask_loop_run [of 32 0 "long_be m"] by (auto simp: pico_ipv4_valid_netmask_def)
qed

text \<open>The first byte of an address decides its class: below 224 it is unicast, from 224 to 254 multicast,
  and 255 neither.\<close>

theorem pico_ipv4_address_classes:
  "(pico_ipv4_is_unicast (long_from [a, b, c, d]) = (unat a < 224)) \<and>
   (pico_ipv4_is_multicast (long_from [a, b, c, d]) = (224 \<le> unat a \<and> unat a < 255)) \<and>
   (pico_ipv4_is_loopback (long_from [a, b, c, d]) = (unat a = 127))"
proof -
  have "a = 0xff \<longleftrightarrow> unat a = 255" by (simp add: word_unat_eq_iff)
  moreover have "unat a < 256" by simp
  ultimately have "pico_ipv4_is_unicast (long_from [a, b, c, d]) = (unat a < 224)"
    "pico_ipv4_is_multicast (long_from [a, b, c, d]) = (224 \<le> unat a \<and> unat a < 255)"
    by (auto simp: pico_ipv4_is_unicast_def pico_ipv4_is_multicast_def e0_unat simp del: unat_u8_less)
  moreover have "pico_ipv4_is_loopback (long_from [a, b, c, d]) = (unat a = 127)"
    by (simp add: pico_ipv4_is_loopback_def word_unat_eq_iff)
  ultimately show ?thesis by blast
qed

end
