(* ===== verification/PicoIPv4Route.thy ===== *)
theory PicoIPv4Route
  imports PicoIPv4Addr
begin

text \<open>
  Links, routes and multicast groups of \<^verbatim>\<open>modules/pico_ipv4.c\<close>. The trees \<^verbatim>\<open>Tree_dev_link\<close>,
  \<^verbatim>\<open>Routes\<close>, \<^verbatim>\<open>MCASTGroups\<close> and \<^verbatim>\<open>MCASTSources\<close> are their sorted lists of keys, the contract that
  the tree operations are proved to refine. Links are referred to by pointer from routes, so each
  has an identity \<open>lid\<close>; devices are pointers too. Calls into IGMP are recorded in order.
\<close>

section \<open>State\<close>

datatype perr = EINVAL | ENOMEM | EHOSTUNREACH | ENETUNREACH | EADDRINUSE | ENXIO

datatype filter_mode = MCAST_EXCLUDE | MCAST_INCLUDE

datatype igmp_event = STATE_CREATE | STATE_UPDATE | STATE_DELETE

record mcast_group =
  filter_mode :: filter_mode
  reference_count :: u16
  mcast_addr :: u32
  MCASTSources :: "u32 list"

record ipv4_link =
  lid :: nat
  ldev :: nat
  address :: u32
  netmask :: u32
  MCASTGroups :: "mcast_group list"

record ipv4_route =
  dest :: u32
  rmask :: u32
  gateway :: u32
  rlink :: "nat option"
  metric :: u32

record ip4 =
  Tree_dev_link :: "ipv4_link list"
  Routes :: "ipv4_route list"
  mcast_default_link :: "nat option"
  bcast_link :: "nat option"
  next_link :: nat
  igmp_log :: "(u32 option \<times> u32 \<times> filter_mode \<times> u32 list option \<times> igmp_event) list"

definition PICO_IP4_ANY :: u32 where "PICO_IP4_ANY = 0"
definition PICO_IP4_BCAST :: u32 where "PICO_IP4_BCAST = 0xffffffff"
definition PICO_MCAST_ALL_HOSTS :: u32 where "PICO_MCAST_ALL_HOSTS = long_be 0xE0000001"

section \<open>Orders\<close>

text \<open>The device pointer of a search key may be \<^verbatim>\<open>NULL\<close>.\<close>

definition ipv4_link_compare :: "u32 \<times> nat option \<Rightarrow> u32 \<times> nat option \<Rightarrow> int" where
  "ipv4_link_compare a b =
     (let cmp = pico_ipv4_compare (fst a) (fst b) in
      if cmp \<noteq> 0 then cmp
      else case (snd a, snd b) of
        (Some da, Some db) \<Rightarrow>
          if fst a = PICO_IP4_ANY \<and> fst b = PICO_IP4_ANY
          then (if da < db then - 1 else if da > db then 1 else 0) else 0
      | _ \<Rightarrow> 0)"

definition link_key :: "ipv4_link \<Rightarrow> u32 \<times> nat option" where
  "link_key l = (address l, Some (ldev l))"

definition link_cmp :: "ipv4_link \<Rightarrow> ipv4_link \<Rightarrow> int" where
  "link_cmp a b = ipv4_link_compare (link_key a) (link_key b)"

definition ipv4_route_compare :: "ipv4_route \<Rightarrow> ipv4_route \<Rightarrow> int" where
  "ipv4_route_compare a b =
     (let a_nm = long_be (rmask a); b_nm = long_be (rmask b) in
      if a_nm < b_nm then - 1
      else if b_nm < a_nm then 1
      else let cmp = pico_ipv4_compare (dest a) (dest b) in
        if cmp \<noteq> 0 then cmp
        else if metric a < metric b then - 1
        else if metric a > metric b then 1
        else 0)"

definition ipv4_mcast_groups_cmp :: "mcast_group \<Rightarrow> mcast_group \<Rightarrow> int" where
  "ipv4_mcast_groups_cmp a b = pico_ipv4_compare (mcast_addr a) (mcast_addr b)"

definition ipv4_mcast_sources_cmp :: "u32 \<Rightarrow> u32 \<Rightarrow> int" where
  "ipv4_mcast_sources_cmp a b = pico_ipv4_compare a b"

section \<open>Lookups\<close>

definition link_search :: "u32 \<times> nat option \<Rightarrow> ip4 \<Rightarrow> ipv4_link option" where
  "link_search key st = List.find (\<lambda>l. ipv4_link_compare (link_key l) key = 0) (Tree_dev_link st)"

definition pico_ipv4_link_get :: "u32 \<Rightarrow> ip4 \<Rightarrow> ipv4_link option" where
  "pico_ipv4_link_get addr st = link_search (addr, None) st"

definition pico_ipv4_link_find :: "u32 \<Rightarrow> ip4 \<Rightarrow> perr + nat" where
  "pico_ipv4_link_find addr st =
     (case link_search (addr, None) st of None \<Rightarrow> Inl ENXIO | Some l \<Rightarrow> Inr (ldev l))"

definition pico_ipv4_link_by_dev :: "nat \<Rightarrow> ip4 \<Rightarrow> ipv4_link option" where
  "pico_ipv4_link_by_dev dev st = List.find (\<lambda>l. ldev l = dev) (Tree_dev_link st)"

fun by_dev_next_loop :: "nat \<Rightarrow> nat option \<Rightarrow> bool \<Rightarrow> ipv4_link list \<Rightarrow> ipv4_link option" where
  "by_dev_next_loop dev last_link valid [] = None"
| "by_dev_next_loop dev last_link valid (l # ls) =
     (if ldev l = dev then
        (if last_link = Some (lid l) then by_dev_next_loop dev last_link True ls
         else if valid then Some l
         else by_dev_next_loop dev last_link valid ls)
      else by_dev_next_loop dev last_link valid ls)"

definition pico_ipv4_link_by_dev_next :: "nat \<Rightarrow> nat option \<Rightarrow> ip4 \<Rightarrow> ipv4_link option" where
  "pico_ipv4_link_by_dev_next dev last_link st =
     by_dev_next_loop dev last_link (last_link = None) (Tree_dev_link st)"

definition pico_ipv4_is_broadcast :: "u32 \<Rightarrow> ip4 \<Rightarrow> bool" where
  "pico_ipv4_is_broadcast addr st \<longleftrightarrow>
     (if addr = PICO_IP4_BCAST then True
      else list_ex (\<lambda>l. address l OR NOT (netmask l) = addr) (Tree_dev_link st))"

text \<open>\<open>loop\<close> tells whether the device is the one named \<^verbatim>\<open>"loop"\<close>; the AODV refresh has no result.\<close>

definition pico_ipv4_is_invalid_loopback :: "u32 \<Rightarrow> bool \<Rightarrow> bool" where
  "pico_ipv4_is_invalid_loopback addr loop \<longleftrightarrow> pico_ipv4_is_loopback addr \<and> \<not> loop"

definition pico_ipv4_is_valid_src :: "u32 \<Rightarrow> bool \<Rightarrow> ip4 \<Rightarrow> bool" where
  "pico_ipv4_is_valid_src addr loop st =
     (if pico_ipv4_is_broadcast addr st then False
      else if pico_ipv4_is_multicast addr then False
      else if pico_ipv4_is_invalid_loopback addr loop then False
      else True)"

section \<open>Routes\<close>

definition route_find_default_bcast :: "ip4 \<Rightarrow> ipv4_route" where
  "route_find_default_bcast st =
     \<lparr>dest = PICO_IP4_BCAST, rmask = PICO_IP4_BCAST, gateway = 0, rlink = bcast_link st, metric = 1000\<rparr>"

definition route_match :: "u32 \<Rightarrow> ipv4_route \<Rightarrow> bool" where
  "route_match addr r \<longleftrightarrow> addr AND rmask r = dest r"

definition route_find :: "u32 \<Rightarrow> ip4 \<Rightarrow> ipv4_route option" where
  "route_find addr st =
     (if addr \<noteq> PICO_IP4_BCAST then List.find (route_match addr) (rev (Routes st))
      else Some (route_find_default_bcast st))"

definition pico_ipv4_route_get_gateway :: "u32 \<Rightarrow> ip4 \<Rightarrow> perr option \<times> u32" where
  "pico_ipv4_route_get_gateway addr st =
     (case route_find addr st of None \<Rightarrow> (Some EHOSTUNREACH, 0) | Some r \<Rightarrow> (None, gateway r))"

definition link_of :: "nat option \<Rightarrow> ip4 \<Rightarrow> ipv4_link option" where
  "link_of p st = (case p of None \<Rightarrow> None | Some i \<Rightarrow> List.find (\<lambda>l. lid l = i) (Tree_dev_link st))"

definition pico_ipv4_source_find :: "u32 \<Rightarrow> ip4 \<Rightarrow> perr + u32" where
  "pico_ipv4_source_find dst st =
     (case Option.bind (route_find dst st) (\<lambda>rt. link_of (rlink rt) st) of
        Some l \<Rightarrow> Inr (address l) | None \<Rightarrow> Inl EHOSTUNREACH)"

definition pico_ipv4_source_dev_find :: "u32 \<Rightarrow> ip4 \<Rightarrow> perr + nat" where
  "pico_ipv4_source_dev_find dst st =
     (case Option.bind (route_find dst st) (\<lambda>rt. link_of (rlink rt) st) of
        Some l \<Rightarrow> Inr (ldev l) | None \<Rightarrow> Inl EHOSTUNREACH)"

definition pico_ipv4_route_add ::
  "bool \<Rightarrow> u32 \<Rightarrow> u32 \<Rightarrow> u32 \<Rightarrow> u32 \<Rightarrow> nat option \<Rightarrow> ip4 \<Rightarrow> perr option \<times> ip4" where
  "pico_ipv4_route_add mem addr nm gw met link st =
     (let test = \<lparr>dest = addr, rmask = nm, gateway = gw, rlink = None, metric = met\<rparr> in
      if tfind ipv4_route_compare test (Routes st) \<noteq> None then (Some EINVAL, st)
      else if \<not> mem then (Some ENOMEM, st)
      else
        let res = (if gw = 0 then Inr link
                   else case route_find gw st of
                     None \<Rightarrow> Inl EHOSTUNREACH
                   | Some r \<Rightarrow> if gateway r \<noteq> 0 then Inl ENETUNREACH else Inr (rlink r))
        in case res of
             Inl e \<Rightarrow> (Some e, st)
           | Inr None \<Rightarrow> (Some EINVAL, st)
           | Inr (Some l) \<Rightarrow>
               (None, st\<lparr>Routes := tinsert ipv4_route_compare (test\<lparr>rlink := Some l\<rparr>) (Routes st)\<rparr>))"

definition pico_ipv4_route_del :: "u32 \<Rightarrow> u32 \<Rightarrow> u32 \<Rightarrow> ip4 \<Rightarrow> perr option \<times> ip4" where
  "pico_ipv4_route_del addr nm met st =
     (let test = \<lparr>dest = addr, rmask = nm, gateway = 0, rlink = None, metric = met\<rparr> in
      case tfind ipv4_route_compare test (Routes st) of
        Some found \<Rightarrow> (None, st\<lparr>Routes := tdelete ipv4_route_compare found (Routes st)\<rparr>)
      | None \<Rightarrow> (Some EINVAL, st))"

text \<open>\<^verbatim>\<open>pico_tree_foreach_safe\<close> fixes the successor before the body runs, so the routes visited are
  those of the table at the start.\<close>

definition pico_ipv4_cleanup_routes :: "nat \<Rightarrow> ip4 \<Rightarrow> ip4" where
  "pico_ipv4_cleanup_routes link st =
     foldl (\<lambda>s r. if rlink r = Some link then snd (pico_ipv4_route_del (dest r) (rmask r) (metric r) s) else s)
       st (Routes st)"

definition pico_ipv4_route_set_bcast_link :: "nat option \<Rightarrow> ip4 \<Rightarrow> ip4" where
  "pico_ipv4_route_set_bcast_link link st = (if link \<noteq> None then st\<lparr>bcast_link := link\<rparr> else st)"

section \<open>Multicast groups\<close>

definition upd_groups :: "nat \<Rightarrow> (mcast_group list \<Rightarrow> mcast_group list) \<Rightarrow> ip4 \<Rightarrow> ip4" where
  "upd_groups i h st = st\<lparr>Tree_dev_link :=
     map (\<lambda>l. if lid l = i then l\<lparr>MCASTGroups := h (MCASTGroups l)\<rparr> else l) (Tree_dev_link st)\<rparr>"

definition upd_group :: "u32 \<Rightarrow> (mcast_group \<Rightarrow> mcast_group) \<Rightarrow> mcast_group list \<Rightarrow> mcast_group list" where
  "upd_group a h gs = map (\<lambda>g. if mcast_addr g = a then h g else g) gs"

text \<open>\<open>mems\<close> lists the results of the allocations; the first failure ends the copy of the filter.\<close>

fun copy_sources :: "bool list \<Rightarrow> u32 list \<Rightarrow> u32 list \<Rightarrow> bool \<times> u32 list" where
  "copy_sources mems [] acc = (True, acc)"
| "copy_sources [] (s # ss) acc = (False, acc)"
| "copy_sources (m # mems) (s # ss) acc =
     (if m then copy_sources mems ss (tinsert ipv4_mcast_sources_cmp s acc) else (False, acc))"

definition mcast_group_update ::
  "bool list \<Rightarrow> u32 list option \<Rightarrow> filter_mode \<Rightarrow> mcast_group \<Rightarrow> bool \<times> mcast_group" where
  "mcast_group_update mems MCASTFilter mode g =
     (let (ok, srcs) = (case MCASTFilter of None \<Rightarrow> (True, []) | Some fs \<Rightarrow> copy_sources mems fs []) in
      if ok then (True, g\<lparr>MCASTSources := srcs, filter_mode := mode\<rparr>) else (False, g\<lparr>MCASTSources := srcs\<rparr>))"

definition update_in_link ::
  "bool list \<Rightarrow> u32 list option \<Rightarrow> filter_mode \<Rightarrow> nat \<Rightarrow> u32 \<Rightarrow> ip4 \<Rightarrow> bool \<times> ip4" where
  "update_in_link mems MCASTFilter mode i grp st =
     (case Option.bind (link_of (Some i) st) (\<lambda>l. List.find (\<lambda>g. mcast_addr g = grp) (MCASTGroups l)) of
        None \<Rightarrow> (True, st)
      | Some g \<Rightarrow> (fst (mcast_group_update mems MCASTFilter mode g),
          upd_groups i (upd_group grp (\<lambda>g. snd (mcast_group_update mems MCASTFilter mode g))) st))"

text \<open>A join with neither a link nor a default one reads through \<^verbatim>\<open>NULL\<close>: the value \<open>None\<close>.\<close>

definition mcast_join_link :: "u32 option \<Rightarrow> ip4 \<Rightarrow> ipv4_link option" where
  "mcast_join_link mcast_link st =
     (case Option.bind mcast_link (\<lambda>a. pico_ipv4_link_get a st) of
        Some l \<Rightarrow> Some l
      | None \<Rightarrow> link_of (mcast_default_link st) st)"

definition pico_ipv4_mcast_join ::
  "bool \<Rightarrow> bool list \<Rightarrow> u32 option \<Rightarrow> u32 \<Rightarrow> bool \<Rightarrow> filter_mode \<Rightarrow> u32 list option \<Rightarrow> ip4 \<Rightarrow> (bool \<times> ip4) option" where
  "pico_ipv4_mcast_join mem mems mcast_link grp count mode MCASTFilter st =
     (case mcast_join_link mcast_link st of
        None \<Rightarrow> None
      | Some link \<Rightarrow>
          (case List.find (\<lambda>g. mcast_addr g = grp) (MCASTGroups link) of
             Some g \<Rightarrow>
               let st1 = (if count then upd_groups (lid link)
                            (upd_group grp (\<lambda>g. g\<lparr>reference_count := reference_count g + 1\<rparr>)) st else st);
                   st2 = st1\<lparr>igmp_log := igmp_log st1 @ [(mcast_link, grp, mode, MCASTFilter, STATE_UPDATE)]\<rparr>
               in Some (update_in_link mems MCASTFilter mode (lid link) grp st2)
           | None \<Rightarrow>
               if \<not> mem then Some (False, st)
               else
                 let new = \<lparr>filter_mode = MCAST_INCLUDE, reference_count = 1, mcast_addr = grp, MCASTSources = []\<rparr>;
                     st1 = upd_groups (lid link) (tinsert ipv4_mcast_groups_cmp new) st;
                     st2 = st1\<lparr>igmp_log := igmp_log st1 @ [(mcast_link, grp, mode, MCASTFilter, STATE_CREATE)]\<rparr>
                 in Some (update_in_link mems MCASTFilter mode (lid link) grp st2)))"

definition pico_ipv4_mcast_leave ::
  "bool list \<Rightarrow> u32 option \<Rightarrow> u32 \<Rightarrow> bool \<Rightarrow> filter_mode \<Rightarrow> u32 list option \<Rightarrow> ip4 \<Rightarrow> bool \<times> ip4" where
  "pico_ipv4_mcast_leave mems mcast_link grp count mode MCASTFilter st =
     (case mcast_join_link mcast_link st of
        None \<Rightarrow> (False, st)
      | Some link \<Rightarrow>
          (case List.find (\<lambda>g. mcast_addr g = grp) (MCASTGroups link) of
             None \<Rightarrow> (False, st)
           | Some g \<Rightarrow>
               let st1 = (if count then upd_groups (lid link)
                            (upd_group grp (\<lambda>g. g\<lparr>reference_count := reference_count g - 1\<rparr>)) st else st)
               in if count \<and> reference_count g - 1 < 1 then
                    (True, (upd_groups (lid link) (filter (\<lambda>g. mcast_addr g \<noteq> grp)) st1)
                       \<lparr>igmp_log := igmp_log st1 @ [(mcast_link, grp, mode, MCASTFilter, STATE_DELETE)]\<rparr>)
                  else
                    update_in_link mems MCASTFilter mode (lid link) grp
                      (st1\<lparr>igmp_log := igmp_log st1 @ [(mcast_link, grp, mode, MCASTFilter, STATE_UPDATE)]\<rparr>)))"

fun mcast_filter_loop :: "u32 \<Rightarrow> u32 \<Rightarrow> nat \<Rightarrow> ipv4_link list \<Rightarrow> bool" where
  "mcast_filter_loop src dst dev [] = False"
| "mcast_filter_loop src dst dev (l # ls) =
     (case List.find (\<lambda>g. mcast_addr g = dst) (MCASTGroups l) of
        Some g \<Rightarrow>
          if dev = ldev l then
            (case filter_mode g of
               MCAST_INCLUDE \<Rightarrow> if src \<in> set (MCASTSources g) then True else False
             | MCAST_EXCLUDE \<Rightarrow> if src \<in> set (MCASTSources g) then False else True)
          else mcast_filter_loop src dst dev ls
      | None \<Rightarrow> mcast_filter_loop src dst dev ls)"

text \<open>\<^verbatim>\<open>pico_ipv4_mcast_filter\<close> returns 0 when the frame is accepted.\<close>

definition pico_ipv4_mcast_filter :: "u32 \<Rightarrow> u32 \<Rightarrow> nat \<Rightarrow> ip4 \<Rightarrow> bool" where
  "pico_ipv4_mcast_filter src dst dev st = mcast_filter_loop src dst dev (Tree_dev_link st)"

section \<open>Adding and removing links\<close>

text \<open>The results of the two allocations of a link, of its three routes and of the join come from the caller.\<close>

record link_mem =
  mem_link :: bool
  mem_groups :: bool
  mem_mroute :: bool
  mem_join :: bool
  mem_route :: bool

definition pico_ipv4_link_add :: "link_mem \<Rightarrow> nat option \<Rightarrow> u32 \<Rightarrow> u32 \<Rightarrow> ip4 \<Rightarrow> perr option \<times> ip4" where
  "pico_ipv4_link_add mem dev addr nm st =
     (case dev of
        None \<Rightarrow> (Some EINVAL, st)
      | Some d \<Rightarrow>
          if link_search (addr, Some d) st \<noteq> None then (Some EADDRINUSE, st)
          else if \<not> mem_link mem \<or> \<not> mem_groups mem then (Some ENOMEM, st)
          else
            let i = next_link st;
                new = \<lparr>lid = i, ldev = d, address = addr, netmask = nm, MCASTGroups = []\<rparr>;
                st1 = st\<lparr>Tree_dev_link := tinsert link_cmp new (Tree_dev_link st), next_link := i + 1\<rparr>;
                st2 = (if mcast_default_link st1 = None
                       then snd (pico_ipv4_route_add (mem_mroute mem) (long_be 0xE0000000) (long_be 0xF0000000)
                              (long_be 0) 1 (Some i) (st1\<lparr>mcast_default_link := Some i\<rparr>))
                       else st1);
                st3 = (case pico_ipv4_mcast_join (mem_join mem) [] (Some addr) PICO_MCAST_ALL_HOSTS True
                              MCAST_EXCLUDE None st2 of None \<Rightarrow> st2 | Some (_, s) \<Rightarrow> s);
                st4 = snd (pico_ipv4_route_add (mem_route mem) (addr AND nm) nm 0 1 (Some i) st3);
                st5 = (if bcast_link st4 = None then st4\<lparr>bcast_link := Some i\<rparr> else st4)
            in (None, st5))"

definition pico_ipv4_link_del :: "nat option \<Rightarrow> u32 \<Rightarrow> ip4 \<Rightarrow> perr option \<times> ip4" where
  "pico_ipv4_link_del dev addr st =
     (case dev of
        None \<Rightarrow> (Some EINVAL, st)
      | Some d \<Rightarrow>
          (case link_search (addr, Some d) st of
             None \<Rightarrow> (Some ENXIO, st)
           | Some found \<Rightarrow>
               let st1 = (if mcast_default_link st = Some (lid found)
                          then snd (pico_ipv4_route_del (long_be 0xE0000000) (long_be 0xF0000000) 1
                                 (st\<lparr>mcast_default_link := None\<rparr>))
                          else st);
                   st2 = snd (pico_ipv4_mcast_leave [] (Some addr) PICO_MCAST_ALL_HOSTS True MCAST_EXCLUDE None st1);
                   st3 = upd_groups (lid found) (\<lambda>_. []) st2;
                   st4 = pico_ipv4_cleanup_routes (lid found) st3;
                   st5 = st4\<lparr>Tree_dev_link := tdelete link_cmp found (Tree_dev_link st4)\<rparr>;
                   st6 = (if bcast_link st5 = Some (lid found) then st5\<lparr>bcast_link := None\<rparr> else st5)
               in (None, st6)))"

definition pico_ipv4_cleanup_links :: "nat \<Rightarrow> ip4 \<Rightarrow> ip4" where
  "pico_ipv4_cleanup_links dev st =
     foldl (\<lambda>s l. if ldev l = dev then snd (pico_ipv4_link_del (Some dev) (address l) s) else s)
       st (Tree_dev_link st)"

section \<open>The orders satisfy the contract of the tree\<close>

interpretation route_order: tree_order ipv4_route_compare
  by unfold_locales (auto simp: ipv4_route_compare_def pico_ipv4_compare_def Let_def split: if_splits)

interpretation link_order: tree_order link_cmp
  by unfold_locales (auto simp: link_cmp_def ipv4_link_compare_def link_key_def pico_ipv4_compare_def Let_def
      split: if_splits)

interpretation group_order: tree_order ipv4_mcast_groups_cmp
  by unfold_locales (auto simp: ipv4_mcast_groups_cmp_def pico_ipv4_compare_def split: if_splits)

interpretation source_order: tree_order ipv4_mcast_sources_cmp
  by unfold_locales (auto simp: ipv4_mcast_sources_cmp_def pico_ipv4_compare_def split: if_splits)

definition route_key :: "ipv4_route \<Rightarrow> u32 \<times> u32 \<times> u32" where
  "route_key r = (rmask r, dest r, metric r)"

lemma long_be_inject [simp]: "long_be a = long_be b \<longleftrightarrow> a = b"
  by (metis long_be_involution)

lemma route_cmp_zero: "ipv4_route_compare a b = 0 \<longleftrightarrow> route_key a = route_key b"
  by (auto simp: ipv4_route_compare_def route_key_def Let_def pico_ipv4_compare_def)

lemma link_cmp_zero: "link_cmp a b = 0 \<longleftrightarrow> address a = address b \<and> (address a = PICO_IP4_ANY \<longrightarrow> ldev a = ldev b)"
  by (auto simp: link_cmp_def ipv4_link_compare_def link_key_def Let_def)

lemma link_search_None_dev: "link_search (a, None) st = List.find (\<lambda>l. address l = a) (Tree_dev_link st)"
proof -
  have "(\<lambda>l. ipv4_link_compare (link_key l) (a, None) = 0) = (\<lambda>l. address l = a)"
    by (auto simp: ipv4_link_compare_def link_key_def Let_def)
  then show ?thesis by (simp add: link_search_def)
qed

section \<open>Route removal\<close>

lemma route_del_Routes:
  "Routes (snd (pico_ipv4_route_del a n m st)) = filter (\<lambda>x. route_key x \<noteq> (n, a, m)) (Routes st)"
  "snd (pico_ipv4_route_del a n m st) = st\<lparr>Routes := Routes (snd (pico_ipv4_route_del a n m st))\<rparr>"
proof -
  let ?t = "\<lparr>dest = a, rmask = n, gateway = 0, rlink = None, metric = m\<rparr>"
  have k: "route_key ?t = (n, a, m)" by (simp add: route_key_def)
  show "Routes (snd (pico_ipv4_route_del a n m st)) = filter (\<lambda>x. route_key x \<noteq> (n, a, m)) (Routes st)"
  proof (cases "tfind ipv4_route_compare ?t (Routes st)")
    case None
    then have "\<forall>x\<in>set (Routes st). route_key x \<noteq> (n, a, m)"
      by (simp add: route_order.tfind_None route_cmp_zero k)
    then show ?thesis using None by (simp add: pico_ipv4_route_del_def filter_id_conv)
  next
    case (Some r)
    then have "route_key r = (n, a, m)" using route_order.tfind_Some [OF Some] by (simp add: route_cmp_zero k)
    then show ?thesis using Some by (simp add: pico_ipv4_route_del_def tdelete_def route_cmp_zero)
  qed
  show "snd (pico_ipv4_route_del a n m st) = st\<lparr>Routes := Routes (snd (pico_ipv4_route_del a n m st))\<rparr>"
    by (auto simp: pico_ipv4_route_del_def Let_def split: option.splits)
qed

lemma cleanup_fold:
  "foldl (\<lambda>s r. if rlink r = Some i then snd (pico_ipv4_route_del (dest r) (rmask r) (metric r) s) else s) st rs =
   st\<lparr>Routes := filter (\<lambda>x. \<forall>r\<in>set rs. rlink r = Some i \<longrightarrow> route_key x \<noteq> route_key r) (Routes st)\<rparr>"
proof (induction rs arbitrary: st)
  case (Cons r rs)
  show ?case
  proof (cases "rlink r = Some i")
    case True
    let ?s = "snd (pico_ipv4_route_del (dest r) (rmask r) (metric r) st)"
    have s: "?s = st\<lparr>Routes := filter (\<lambda>x. route_key x \<noteq> route_key r) (Routes st)\<rparr>"
      using route_del_Routes [of "dest r" "rmask r" "metric r" st] by (simp add: route_key_def)
    show ?thesis using True Cons.IH [of ?s] by (simp add: s conj_commute)
  next
    case False
    then show ?thesis using Cons.IH by simp
  qed
qed simp

lemma route_key_inj:
  assumes "tsorted ipv4_route_compare rs" "x \<in> set rs" "y \<in> set rs" "route_key x = route_key y"
  shows "x = y"
proof -
  have "tfind ipv4_route_compare y rs = Some x" "tfind ipv4_route_compare y rs = Some y"
    using assms(4) by (auto intro!: route_order.tfind_unique [OF assms(1)] assms(2,3) simp: route_cmp_zero)
  then show ?thesis by simp
qed

lemma cleanup_routes_filter:
  assumes "tsorted ipv4_route_compare (Routes st)"
  shows "pico_ipv4_cleanup_routes i st = st\<lparr>Routes := filter (\<lambda>x. rlink x \<noteq> Some i) (Routes st)\<rparr>"
proof -
  have "(\<forall>r\<in>set (Routes st). rlink r = Some i \<longrightarrow> route_key x \<noteq> route_key r) \<longleftrightarrow> rlink x \<noteq> Some i"
    if "x \<in> set (Routes st)" for x
    using that route_key_inj [OF assms] by metis
  then show ?thesis
    unfolding pico_ipv4_cleanup_routes_def cleanup_fold by (simp cong: filter_cong)
qed

section \<open>Multicast operations touch groups only\<close>

text \<open>The part of the state that routing depends on.\<close>

definition link_id :: "ipv4_link \<Rightarrow> nat \<times> nat \<times> u32 \<times> u32" where
  "link_id l = (lid l, ldev l, address l, netmask l)"

definition skel :: "ip4 \<Rightarrow> (nat \<times> nat \<times> u32 \<times> u32) list \<times> ipv4_route list \<times> nat option \<times> nat option \<times> nat" where
  "skel st = (map link_id (Tree_dev_link st), Routes st, mcast_default_link st, bcast_link st, next_link st)"

lemma skel_upd_groups [simp]: "skel (upd_groups i h st) = skel st"
  by (auto simp: skel_def upd_groups_def link_id_def)

lemma skel_log [simp]: "skel (st\<lparr>igmp_log := e\<rparr>) = skel st"
  by (simp add: skel_def)

lemma skel_update_in_link [simp]: "skel (snd (update_in_link mems flt mode i grp st)) = skel st"
  by (auto simp: update_in_link_def split: option.splits)

lemma skel_join: "pico_ipv4_mcast_join mem mems l grp cnt mode flt st = Some (b, st') \<Longrightarrow> skel st' = skel st"
  unfolding pico_ipv4_mcast_join_def
  by (auto simp: Let_def split: option.splits if_splits dest!: arg_cong [of _ _ "\<lambda>p. skel (snd p)"])

lemma skel_leave [simp]: "skel (snd (pico_ipv4_mcast_leave mems l grp cnt mode flt st)) = skel st"
  by (auto simp: pico_ipv4_mcast_leave_def Let_def split: option.splits)

section \<open>Invariant: no dangling link pointer\<close>

definition lids :: "ip4 \<Rightarrow> nat set" where
  "lids st = lid ` set (Tree_dev_link st)"

definition ip4_inv :: "ip4 \<Rightarrow> bool" where
  "ip4_inv st \<longleftrightarrow> tsorted ipv4_route_compare (Routes st) \<and> tsorted link_cmp (Tree_dev_link st) \<and>
     inj_on lid (set (Tree_dev_link st)) \<and> (\<forall>i\<in>lids st. i < next_link st) \<and>
     (\<forall>r\<in>set (Routes st). \<exists>i\<in>lids st. rlink r = Some i) \<and>
     (\<forall>i. bcast_link st = Some i \<longrightarrow> i \<in> lids st) \<and> (\<forall>i. mcast_default_link st = Some i \<longrightarrow> i \<in> lids st)"

lemma ip4_invD:
  assumes "ip4_inv st"
  shows "tsorted ipv4_route_compare (Routes st)" "tsorted link_cmp (Tree_dev_link st)"
    "inj_on lid (set (Tree_dev_link st))" "i \<in> lids st \<Longrightarrow> i < next_link st"
    "r \<in> set (Routes st) \<Longrightarrow> \<exists>i\<in>lids st. rlink r = Some i"
    "bcast_link st = Some i \<Longrightarrow> i \<in> lids st" "mcast_default_link st = Some i \<Longrightarrow> i \<in> lids st"
  using assms unfolding ip4_inv_def by auto

text \<open>The invariant only depends on the skeleton.\<close>

definition inv_skel :: "(nat \<times> nat \<times> u32 \<times> u32) list \<times> ipv4_route list \<times> nat option \<times> nat option \<times> nat \<Rightarrow> bool" where
  "inv_skel x = (case x of (ls, rs, md, bl, nx) \<Rightarrow>
     tsorted ipv4_route_compare rs \<and>
     sorted_wrt (\<lambda>(_, da, aa, _) (_, db, ab, _). ipv4_link_compare (aa, Some da) (ab, Some db) < 0) ls \<and>
     distinct (map fst ls) \<and> (\<forall>i\<in>fst ` set ls. i < nx) \<and> (\<forall>r\<in>set rs. \<exists>i\<in>fst ` set ls. rlink r = Some i) \<and>
     (\<forall>i. bl = Some i \<longrightarrow> i \<in> fst ` set ls) \<and> (\<forall>i. md = Some i \<longrightarrow> i \<in> fst ` set ls))"

lemma tsorted_distinct: "tsorted link_cmp ls \<Longrightarrow> distinct ls"
  unfolding tsorted_def by (induction ls) (auto simp: link_order.cmp_refl)

lemma ip4_inv_skel: "ip4_inv st \<longleftrightarrow> inv_skel (skel st)"
proof -
  have "tsorted link_cmp (Tree_dev_link st) \<longleftrightarrow>
      sorted_wrt (\<lambda>(_, da, aa, _) (_, db, ab, _). ipv4_link_compare (aa, Some da) (ab, Some db) < 0)
        (map link_id (Tree_dev_link st))"
    by (simp add: tsorted_def sorted_wrt_map link_cmp_def link_key_def link_id_def)
  moreover have "lids st = fst ` set (map link_id (Tree_dev_link st))"
    by (force simp: lids_def link_id_def)
  moreover have "map fst (map link_id (Tree_dev_link st)) = map lid (Tree_dev_link st)"
    by (simp add: link_id_def)
  ultimately show ?thesis
    using tsorted_distinct [of "Tree_dev_link st"]
    unfolding ip4_inv_def inv_skel_def skel_def prod.case by (auto simp only: distinct_map)
qed

lemma route_find_link:
  assumes "ip4_inv st" "route_find a st = Some r" "rlink r = Some i"
  shows "i \<in> lids st"
proof (cases "a = PICO_IP4_BCAST")
  case True
  then show ?thesis
    using assms ip4_invD(6) [OF assms(1)] by (auto simp: route_find_def route_find_default_bcast_def)
next
  case False
  then have "r \<in> set (Routes st)" using assms(2) by (auto simp: route_find_def find_Some_iff in_set_conv_nth)
    (metis length_rev nth_mem set_rev in_set_conv_nth)
  then show ?thesis using ip4_invD(5) [OF assms(1)] assms(3) by fastforce
qed

lemma inv_route_add:
  assumes inv: "ip4_inv st" and l: "\<And>i. link = Some i \<Longrightarrow> i \<in> lids st"
  shows "ip4_inv (snd (pico_ipv4_route_add mem a n gw m link st))"
    "skel (snd (pico_ipv4_route_add mem a n gw m link st)) =
       (let (ls, rs, x) = skel st in (ls, Routes (snd (pico_ipv4_route_add mem a n gw m link st)), x))"
proof -
  let ?t = "\<lparr>dest = a, rmask = n, gateway = gw, rlink = None, metric = m\<rparr>"
  let ?st' = "snd (pico_ipv4_route_add mem a n gw m link st)"
  have "?st' = st \<or> (\<exists>i\<in>lids st. ?st' = st\<lparr>Routes := tinsert ipv4_route_compare (?t\<lparr>rlink := Some i\<rparr>) (Routes st)\<rparr>)"
    using l route_find_link [OF inv, of gw]
    by (auto simp: pico_ipv4_route_add_def Let_def split: option.splits sum.splits if_splits)
  then consider "?st' = st" | i where "i \<in> lids st"
      "?st' = st\<lparr>Routes := tinsert ipv4_route_compare (?t\<lparr>rlink := Some i\<rparr>) (Routes st)\<rparr>" by blast
  then have "ip4_inv ?st' \<and> skel ?st' = (let (ls, rs, x) = skel st in (ls, Routes ?st', x))"
  proof cases
    case 1
    then show ?thesis using inv by (simp add: skel_def)
  next
    case 2
    then show ?thesis
      using inv route_order.tsorted_tinsert [of "Routes st"]
      by (auto simp: ip4_inv_def lids_def skel_def route_order.set_tinsert split: if_splits)
  qed
  then show "ip4_inv ?st'" "skel ?st' = (let (ls, rs, x) = skel st in (ls, Routes ?st', x))" by blast+
qed

lemma lids_skel: "lids st = fst ` set (fst (skel st))"
  by (force simp: lids_def skel_def link_id_def)

lemma inv_route_add_some:
  assumes "ip4_inv st" "i \<in> lids st"
  shows "ip4_inv (snd (pico_ipv4_route_add mem a n gw m (Some i) st))"
    "lids (snd (pico_ipv4_route_add mem a n gw m (Some i) st)) = lids st"
proof -
  show "ip4_inv (snd (pico_ipv4_route_add mem a n gw m (Some i) st))"
    by (rule inv_route_add(1) [OF assms(1)]) (use assms(2) in simp)
  have "skel (snd (pico_ipv4_route_add mem a n gw m (Some i) st)) =
       (let (ls, rs, x) = skel st in (ls, Routes (snd (pico_ipv4_route_add mem a n gw m (Some i) st)), x))"
    by (rule inv_route_add(2) [OF assms(1)]) (use assms(2) in simp)
  then show "lids (snd (pico_ipv4_route_add mem a n gw m (Some i) st)) = lids st"
    by (simp add: lids_skel skel_def)
qed

lemma route_del_other [simp]:
  "Tree_dev_link (snd (pico_ipv4_route_del a n m st)) = Tree_dev_link st"
  "mcast_default_link (snd (pico_ipv4_route_del a n m st)) = mcast_default_link st"
  by (auto simp: pico_ipv4_route_del_def Let_def split: option.splits)

lemma inv_routes_filter: "ip4_inv st \<Longrightarrow> ip4_inv (st\<lparr>Routes := filter P (Routes st)\<rparr>)"
  by (auto simp: ip4_inv_def lids_def tsorted_def sorted_wrt_filter)

lemma inv_route_del: "ip4_inv st \<Longrightarrow> ip4_inv (snd (pico_ipv4_route_del a n m st))"
  using inv_routes_filter [of st] route_del_Routes [of a n m st] by metis

lemma inv_join: "ip4_inv st \<Longrightarrow> pico_ipv4_mcast_join mem mems l grp cnt mode flt st = Some (b, st') \<Longrightarrow> ip4_inv st'"
  using skel_join ip4_inv_skel by metis

lemma inv_leave: "ip4_inv st \<Longrightarrow> ip4_inv (snd (pico_ipv4_mcast_leave mems l grp cnt mode flt st))"
  by (simp add: ip4_inv_skel)

lemma inv_insert_link:
  fixes nm :: u32
  assumes inv: "ip4_inv st" and f: "link_search (addr, Some d) st = None"
  defines "new \<equiv> \<lparr>lid = next_link st, ldev = d, address = addr, netmask = nm, MCASTGroups = []\<rparr>"
  defines "st1 \<equiv> st\<lparr>Tree_dev_link := tinsert link_cmp new (Tree_dev_link st), next_link := next_link st + 1\<rparr>"
  shows "ip4_inv st1" "set (Tree_dev_link st1) = insert new (set (Tree_dev_link st))"
proof -
  note d = ip4_invD [OF inv]
  have nf: "tfind link_cmp new (Tree_dev_link st) = None"
    using f by (simp add: link_search_def tfind_def link_cmp_def link_key_def new_def)
  then show set1: "set (Tree_dev_link st1) = insert new (set (Tree_dev_link st))"
    by (simp add: st1_def link_order.set_tinsert)
  then have l1: "lids st1 = insert (next_link st) (lids st)" by (auto simp: lids_def new_def)
  have "inj_on lid (set (Tree_dev_link st1))"
    unfolding set1 using d(3,4) by (auto simp: lids_def new_def)
  then show "ip4_inv st1"
    using d link_order.tsorted_tinsert [OF d(2), of new] l1 unfolding ip4_inv_def
    by (auto simp: st1_def less_Suc_eq)
qed

lemma inv_link_add: "ip4_inv st \<Longrightarrow> ip4_inv (snd (pico_ipv4_link_add mem dev addr nm st))"
proof -
  assume inv: "ip4_inv st"
  show ?thesis
  proof (cases "dev = None \<or> link_search (addr, Some (the dev)) st \<noteq> None \<or> \<not> mem_link mem \<or> \<not> mem_groups mem")
    case True
    then show ?thesis using inv by (auto simp: pico_ipv4_link_add_def split: option.splits)
  next
    case False
    then obtain d where d: "dev = Some d" "link_search (addr, Some d) st = None" by auto
    define i where "i = next_link st"
    define st1 where "st1 = st\<lparr>Tree_dev_link := tinsert link_cmp \<lparr>lid = i, ldev = d, address = addr,
        netmask = nm, MCASTGroups = []\<rparr> (Tree_dev_link st), next_link := i + 1\<rparr>"
    define st2 where "st2 = (if mcast_default_link st1 = None
      then snd (pico_ipv4_route_add (mem_mroute mem) (long_be 0xE0000000) (long_be 0xF0000000)
             (long_be 0) 1 (Some i) (st1\<lparr>mcast_default_link := Some i\<rparr>)) else st1)"
    define st3 where "st3 = (case pico_ipv4_mcast_join (mem_join mem) [] (Some addr) PICO_MCAST_ALL_HOSTS True
        MCAST_EXCLUDE None st2 of None \<Rightarrow> st2 | Some (_, s) \<Rightarrow> s)"
    define st4 where "st4 = snd (pico_ipv4_route_add (mem_route mem) (addr AND nm) nm 0 1 (Some i) st3)"
    have res: "snd (pico_ipv4_link_add mem dev addr nm st) =
        (if bcast_link st4 = None then st4\<lparr>bcast_link := Some i\<rparr> else st4)"
    proof -
      have n: "\<not> link_search (addr, Some d) st \<noteq> None" "\<not> (\<not> mem_link mem \<or> \<not> mem_groups mem)"
        using d False by auto
      show ?thesis
        unfolding pico_ipv4_link_add_def d(1) option.case if_not_P [OF n(1)] if_not_P [OF n(2)] Let_def snd_conv
          st4_def st3_def st2_def st1_def i_def ..
    qed
    have i1: "ip4_inv st1" and s1: "set (Tree_dev_link st1) = insert \<lparr>lid = i, ldev = d, address = addr,
        netmask = nm, MCASTGroups = []\<rparr> (set (Tree_dev_link st))"
      unfolding st1_def i_def using inv_insert_link [OF inv d(2), of nm] by simp_all
    have l1: "i \<in> lids st1" unfolding lids_def s1 by simp
    have i1': "ip4_inv (st1\<lparr>mcast_default_link := Some i\<rparr>)" and l1': "i \<in> lids (st1\<lparr>mcast_default_link := Some i\<rparr>)"
      using i1 l1 by (auto simp: ip4_inv_def lids_def)
    have i2: "ip4_inv st2" unfolding st2_def using i1 inv_route_add_some(1) [OF i1' l1'] by simp
    have l2: "i \<in> lids st2"
      unfolding st2_def using l1 l1' inv_route_add_some(2) [OF i1' l1'] by simp
    have sk3: "skel st3 = skel st2" unfolding st3_def using skel_join by (auto split: option.splits)
    have i3: "ip4_inv st3" and l3: "i \<in> lids st3" using i2 l2 sk3 by (simp_all add: ip4_inv_skel lids_skel)
    have i4: "ip4_inv st4" unfolding st4_def by (rule inv_route_add_some(1) [OF i3 l3])
    have l4: "i \<in> lids st4"
      unfolding st4_def using l3 inv_route_add_some(2) [OF i3 l3] by simp
    show ?thesis unfolding res using i4 l4 by (auto simp: ip4_inv_def lids_def)
  qed
qed

lemma link_unique:
  assumes inv: "ip4_inv st" and f: "link_id f \<in> set (map link_id (Tree_dev_link st))" and l: "l \<in> set (Tree_dev_link st)"
  shows "link_cmp l f = 0 \<longleftrightarrow> lid l = lid f"
proof -
  obtain g where g: "g \<in> set (Tree_dev_link st)" "link_id g = link_id f" using f by auto
  have eq: "link_cmp l f = link_cmp l g" "lid g = lid f"
    using g(2) by (auto simp: link_cmp_def link_key_def link_id_def)
  have "l = g" if "link_cmp l g = 0"
  proof -
    have "tfind link_cmp g (Tree_dev_link st) = Some l" "tfind link_cmp g (Tree_dev_link st) = Some g"
      using that by (auto intro!: link_order.tfind_unique [OF ip4_invD(2) [OF inv]] l g(1) link_order.cmp_refl)
    then show ?thesis by simp
  qed
  moreover have "lid l = lid g \<Longrightarrow> l = g" using ip4_invD(3) [OF inv] l g(1) by (auto dest: inj_onD)
  ultimately show ?thesis using eq link_order.cmp_refl by auto
qed

lemma inv_link_del: "ip4_inv st \<Longrightarrow> ip4_inv (snd (pico_ipv4_link_del dev addr st))"
proof -
  assume inv: "ip4_inv st"
  show ?thesis
  proof (cases "dev = None \<or> link_search (addr, Some (the dev)) st = None")
    case True
    then show ?thesis using inv by (auto simp: pico_ipv4_link_del_def split: option.splits)
  next
    case False
    then obtain d found where d: "dev = Some d" "link_search (addr, Some d) st = Some found" by auto
    have fin: "found \<in> set (Tree_dev_link st)"
      using d(2) by (auto simp: link_search_def find_Some_iff)
    define st1 where "st1 = (if mcast_default_link st = Some (lid found)
      then snd (pico_ipv4_route_del (long_be 0xE0000000) (long_be 0xF0000000) 1 (st\<lparr>mcast_default_link := None\<rparr>)) else st)"
    define st3 where "st3 = upd_groups (lid found) (\<lambda>_. [])
      (snd (pico_ipv4_mcast_leave [] (Some addr) PICO_MCAST_ALL_HOSTS True MCAST_EXCLUDE None st1))"
    define st4 where "st4 = pico_ipv4_cleanup_routes (lid found) st3"
    define st5 where "st5 = st4\<lparr>Tree_dev_link := tdelete link_cmp found (Tree_dev_link st4)\<rparr>"
    have res: "snd (pico_ipv4_link_del dev addr st) =
        (if bcast_link st5 = Some (lid found) then st5\<lparr>bcast_link := None\<rparr> else st5)"
      unfolding pico_ipv4_link_del_def d(1) option.case d(2) Let_def snd_conv st5_def st4_def st3_def st1_def ..
    have i0: "ip4_inv (st\<lparr>mcast_default_link := None\<rparr>)" using inv by (auto simp: ip4_inv_def lids_def)
    have i1: "ip4_inv st1" unfolding st1_def using inv inv_route_del [OF i0] by simp
    have t1: "Tree_dev_link st1 = Tree_dev_link st" "mcast_default_link st1 \<noteq> Some (lid found)"
      unfolding st1_def by auto
    have sk3: "skel st3 = skel st1" unfolding st3_def by simp
    then have i3: "ip4_inv st3" using i1 by (simp add: ip4_inv_skel)
    have t3: "map link_id (Tree_dev_link st3) = map link_id (Tree_dev_link st)"
      "mcast_default_link st3 = mcast_default_link st1" using sk3 t1(1) by (auto simp: skel_def)
    have s4: "st4 = st3\<lparr>Routes := filter (\<lambda>x. rlink x \<noteq> Some (lid found)) (Routes st3)\<rparr>"
      unfolding st4_def by (rule cleanup_routes_filter [OF ip4_invD(1) [OF i3]])
    have i4: "ip4_inv st4" unfolding s4 by (rule inv_routes_filter [OF i3])
    have "link_id found \<in> set (map link_id (Tree_dev_link st4))" using fin t3(1) by (auto simp: s4)
    note uniq = link_unique [OF i4 this]
    have set5: "set (Tree_dev_link st5) = {l \<in> set (Tree_dev_link st4). lid l \<noteq> lid found}"
      unfolding st5_def using uniq by (auto simp: link_order.set_tdelete)
    then have l5: "lids st5 = lids st4 - {lid found}" by (auto simp: lids_def)
    have r5: "rlink r \<noteq> Some (lid found)" if "r \<in> set (Routes st4)" for r using that by (simp add: s4)
    have m5: "mcast_default_link st5 \<noteq> Some (lid found)" using t1(2) t3(2) by (simp add: st5_def s4)
    have ts5: "tsorted link_cmp (Tree_dev_link st5)"
      unfolding st5_def using link_order.tsorted_tdelete [OF ip4_invD(2) [OF i4]] by simp
    have inj5: "inj_on lid (set (Tree_dev_link st5))"
      using ip4_invD(3) [OF i4] unfolding set5 by (auto intro: inj_on_subset)
    have other: "Routes st5 = Routes st4" "bcast_link st5 = bcast_link st4"
      "mcast_default_link st5 = mcast_default_link st4" "next_link st5 = next_link st4" by (simp_all add: st5_def)
    have rts: "\<exists>i\<in>lids st5. rlink r = Some i" if "r \<in> set (Routes st5)" for r
      using ip4_invD(5) [OF i4, of r] r5 [of r] that l5 other by auto
    have mc: "i \<in> lids st5" if "mcast_default_link st5 = Some i" for i
      using ip4_invD(7) [OF i4, of i] m5 that l5 other by auto
    have bc: "i \<in> lids st5" if "bcast_link st5 = Some i" "i \<noteq> lid found" for i
      using ip4_invD(6) [OF i4, of i] that l5 other by auto
    have nx: "i < next_link st5" if "i \<in> lids st5" for i using ip4_invD(4) [OF i4, of i] that l5 other by auto
    have lids_b: "lids (st5\<lparr>bcast_link := None\<rparr>) = lids st5" by (simp add: lids_def)
    show ?thesis
      unfolding res ip4_inv_def
      using ip4_invD(1) [OF i4] ts5 inj5 rts mc bc nx other lids_b by auto
  qed
qed

section \<open>Reachable states\<close>

text \<open>A caller passes links it got from the stack: \<^verbatim>\<open>NULL\<close> or a live one.\<close>

definition live :: "nat option \<Rightarrow> ip4 \<Rightarrow> bool" where
  "live p st \<longleftrightarrow> (case p of None \<Rightarrow> True | Some i \<Rightarrow> i \<in> lids st)"

inductive ip4_step :: "ip4 \<Rightarrow> ip4 \<Rightarrow> bool" where
  link_add: "ip4_step st (snd (pico_ipv4_link_add mem dev addr nm st))"
| link_del: "ip4_step st (snd (pico_ipv4_link_del dev addr st))"
| route_add: "live link st \<Longrightarrow> ip4_step st (snd (pico_ipv4_route_add m a n gw met link st))"
| route_del: "ip4_step st (snd (pico_ipv4_route_del a n met st))"
| set_bcast: "live link st \<Longrightarrow> ip4_step st (pico_ipv4_route_set_bcast_link link st)"
| join: "pico_ipv4_mcast_join m mems l grp cnt mode flt st = Some (b, st') \<Longrightarrow> ip4_step st st'"
| leave: "ip4_step st (snd (pico_ipv4_mcast_leave mems l grp cnt mode flt st))"

inductive ip4_reachable :: "ip4 \<Rightarrow> bool" where
  init: "ip4_reachable \<lparr>Tree_dev_link = [], Routes = [], mcast_default_link = None, bcast_link = None,
    next_link = 0, igmp_log = []\<rparr>"
| step: "ip4_reachable st \<Longrightarrow> ip4_step st st' \<Longrightarrow> ip4_reachable st'"

lemma inv_step: "ip4_step st st' \<Longrightarrow> ip4_inv st \<Longrightarrow> ip4_inv st'"
proof (induction rule: ip4_step.induct)
  case (route_add link st m a n gw met)
  then show ?case by (intro inv_route_add(1)) (auto simp: live_def)
next
  case (set_bcast link st)
  then show ?case
    by (auto simp: pico_ipv4_route_set_bcast_link_def live_def ip4_inv_def lids_def split: option.splits)
qed (auto intro: inv_link_add inv_link_del inv_route_del inv_join inv_leave)

lemma reachable_inv: "ip4_reachable st \<Longrightarrow> ip4_inv st"
proof (induction rule: ip4_reachable.induct)
  case init
  then show ?case by (simp add: ip4_inv_def lids_def tsorted_def)
next
  case (step st st')
  then show ?case using inv_step by blast
qed

lemma find_rev_last:
  assumes "List.find P (rev xs) = Some x"
  obtains us vs where "xs = us @ x # vs" "P x" "\<forall>y\<in>set vs. \<not> P y"
proof -
  have "\<exists>us vs. xs = us @ x # vs \<and> P x \<and> (\<forall>y\<in>set vs. \<not> P y)"
    using assms
  proof (induction xs rule: rev_induct)
    case (snoc y ys)
    show ?case
    proof (cases "P y")
      case True
      then have "ys @ [y] = ys @ x # [] \<and> P x" using snoc.prems by simp
      then show ?thesis by fastforce
    next
      case False
      then obtain us vs where "ys = us @ x # vs" "P x" "\<forall>z\<in>set vs. \<not> P z" using snoc by auto
      then have "ys @ [y] = us @ x # (vs @ [y]) \<and> P x \<and> (\<forall>z\<in>set (vs @ [y]). \<not> P z)" using False by simp
      then show ?thesis by blast
    qed
  qed simp
  then show ?thesis using that by blast
qed

lemma find_rev_None: "List.find P (rev xs) = None \<longleftrightarrow> (\<forall>x\<in>set xs. \<not> P x)"
  by (auto simp: find_None_iff)

lemma route_less_mask: "ipv4_route_compare a b < 0 \<Longrightarrow> long_be (rmask a) \<le> long_be (rmask b)"
  by (auto simp: ipv4_route_compare_def Let_def split: if_splits)

lemma route_less_metric:
  "ipv4_route_compare a b < 0 \<Longrightarrow> rmask a = rmask b \<Longrightarrow> dest a = dest b \<Longrightarrow> metric a < metric b"
  by (auto simp: ipv4_route_compare_def Let_def pico_ipv4_compare_def split: if_splits)

section \<open>Properties\<close>

text \<open>C6: In every reachable state a route lookup other than for the broadcast address finds the matching route
  of longest netmask, and among routes to the same network the one with the largest metric; it finds none
  exactly when no route matches.\<close>

theorem route_find_longest_prefix:
  assumes "ip4_reachable st" "addr \<noteq> PICO_IP4_BCAST"
  shows "case route_find addr st of
      None \<Rightarrow> \<forall>r\<in>set (Routes st). \<not> route_match addr r
    | Some r \<Rightarrow> r \<in> set (Routes st) \<and> route_match addr r \<and>
        (\<forall>q\<in>set (Routes st). route_match addr q \<longrightarrow> long_be (rmask q) \<le> long_be (rmask r) \<and>
           (rmask q = rmask r \<longrightarrow> metric q \<le> metric r))"
proof (cases "route_find addr st")
  case None
  then have "List.find (route_match addr) (rev (Routes st)) = None" using assms(2) by (simp add: route_find_def)
  then have "\<forall>r\<in>set (Routes st). \<not> route_match addr r" by (simp add: find_rev_None)
  then show ?thesis using None by simp
next
  case (Some r)
  then have f: "List.find (route_match addr) (rev (Routes st)) = Some r" using assms(2) by (simp add: route_find_def)
  then obtain us vs where s: "Routes st = us @ r # vs" "route_match addr r" "\<forall>y\<in>set vs. \<not> route_match addr y"
    by (rule find_rev_last)
  have lt: "ipv4_route_compare q r < 0" if "q \<in> set us" for q
    using ip4_invD(1) [OF reachable_inv [OF assms(1)]] that s(1) by (auto simp: tsorted_def sorted_wrt_append)
  have "long_be (rmask q) \<le> long_be (rmask r) \<and> (rmask q = rmask r \<longrightarrow> metric q \<le> metric r)"
    if "q \<in> set (Routes st)" "route_match addr q" for q
  proof (cases "q = r")
    case False
    then have q: "ipv4_route_compare q r < 0" using that s lt by auto
    have "dest q = dest r" if "rmask q = rmask r" using that \<open>route_match addr q\<close> s(2) by (simp add: route_match_def)
    then show ?thesis using route_less_mask [OF q] route_less_metric [OF q] by (auto intro: less_imp_le)
  qed simp
  then show ?thesis using Some s by simp
qed


text \<open>Removing a link removes exactly the routes through it: every remaining route was there before and goes
  through another link, and no route through another link is lost unless it is the multicast route.\<close>

theorem pico_ipv4_link_del_routes:
  assumes "ip4_reachable st" "link_search (addr, Some d) st = Some found"
  shows "Routes (snd (pico_ipv4_link_del (Some d) addr st)) =
    filter (\<lambda>r. rlink r \<noteq> Some (lid found) \<and>
      (mcast_default_link st = Some (lid found) \<longrightarrow> route_key r \<noteq> (long_be 0xF0000000, long_be 0xE0000000, 1))) (Routes st)"
proof -
  note inv = reachable_inv [OF assms(1)]
  define st1 where "st1 = (if mcast_default_link st = Some (lid found)
    then snd (pico_ipv4_route_del (long_be 0xE0000000) (long_be 0xF0000000) 1 (st\<lparr>mcast_default_link := None\<rparr>)) else st)"
  define st3 where "st3 = upd_groups (lid found) (\<lambda>_. [])
    (snd (pico_ipv4_mcast_leave [] (Some addr) PICO_MCAST_ALL_HOSTS True MCAST_EXCLUDE None st1))"
  have i0: "ip4_inv (st\<lparr>mcast_default_link := None\<rparr>)" using inv by (auto simp: ip4_inv_def lids_def)
  have i1: "ip4_inv st1" unfolding st1_def using inv inv_route_del [OF i0] by simp
  have sk: "skel st3 = skel st1" unfolding st3_def by simp
  have i3: "ip4_inv st3" using i1 sk by (simp add: ip4_inv_skel)
  have "Routes (snd (pico_ipv4_link_del (Some d) addr st)) = Routes (pico_ipv4_cleanup_routes (lid found) st3)"
    unfolding pico_ipv4_link_del_def option.case assms(2) Let_def snd_conv st3_def st1_def by simp
  also have "\<dots> = filter (\<lambda>r. rlink r \<noteq> Some (lid found)) (Routes st1)"
    using cleanup_routes_filter [OF ip4_invD(1) [OF i3]] sk by (simp add: skel_def)
  also have "Routes st1 = filter (\<lambda>r. mcast_default_link st = Some (lid found) \<longrightarrow>
      route_key r \<noteq> (long_be 0xF0000000, long_be 0xE0000000, 1)) (Routes st)"
    unfolding st1_def using route_del_Routes(1) by simp
  finally show ?thesis by (simp add: conj_commute)
qed

subsection \<open>A host with one interface\<close>

definition ip4_init :: ip4 where
  "ip4_init = \<lparr>Tree_dev_link = [], Routes = [], mcast_default_link = None, bcast_link = None,
    next_link = 0, igmp_log = []\<rparr>"

definition all_mem :: link_mem where
  "all_mem = \<lparr>mem_link = True, mem_groups = True, mem_mroute = True, mem_join = True, mem_route = True\<rparr>"

definition one_link :: ip4 where
  "one_link = snd (pico_ipv4_link_add all_mem (Some 7) (long_from [10, 0, 0, 1]) (long_from [255, 0, 0, 0]) ip4_init)"

lemma one_link_reachable: "ip4_reachable one_link"
  unfolding one_link_def ip4_init_def by (rule ip4_reachable.step [OF ip4_reachable.init ip4_step.link_add])

theorem route_find_longest_prefix_witness:
  "case route_find (long_from [10, 0, 0, 9]) one_link of
      None \<Rightarrow> False | Some r \<Rightarrow> route_match (long_from [10, 0, 0, 9]) r"
proof -
  have "route_find (long_from [10, 0, 0, 9]) one_link \<noteq> None" by code_simp
  moreover have "long_from [10, 0, 0, 9] \<noteq> PICO_IP4_BCAST" by code_simp
  ultimately show ?thesis
    using route_find_longest_prefix [OF one_link_reachable, of "long_from [10, 0, 0, 9]"] by (auto split: option.splits)
qed


theorem pico_ipv4_link_del_routes_witness:
  "Routes (snd (pico_ipv4_link_del (Some 7) (long_from [10, 0, 0, 1]) one_link)) = []"
proof -
  have "link_search (long_from [10, 0, 0, 1], Some 7) one_link =
      Some (the (link_search (long_from [10, 0, 0, 1], Some 7) one_link))" by code_simp
  from pico_ipv4_link_del_routes [OF one_link_reachable this]
  have "Routes (snd (pico_ipv4_link_del (Some 7) (long_from [10, 0, 0, 1]) one_link)) =
    filter (\<lambda>r. rlink r \<noteq> Some (lid (the (link_search (long_from [10, 0, 0, 1], Some 7) one_link))) \<and>
      (mcast_default_link one_link = Some (lid (the (link_search (long_from [10, 0, 0, 1], Some 7) one_link))) \<longrightarrow>
        route_key r \<noteq> (long_be 0xF0000000, long_be 0xE0000000, 1))) (Routes one_link)" .
  also have "\<dots> = []" by code_simp
  finally show ?thesis .
qed

end
