(* ===== verification/PicoTreeCong.thy ===== *)
theory PicoTreeCong
  imports PicoTree
begin

text \<open>
  The operations of \<^verbatim>\<open>stack/pico_tree.c\<close> under a comparison that is not an order on all keys, as several
  modules pass one: what they do depends only on how it compares the keys of the tree and the key given.
\<close>

section \<open>The tree under an arbitrary comparison\<close>

text \<open>A search ends whatever the comparison is, and what it finds compares equal.\<close>

lemma find_loop_any:
  "repr m p a t \<Longrightarrow> \<exists>r. find_loop cmp m k a = Some r \<and> (\<forall>x. r = Some x \<longrightarrow> x \<in> set_tree t \<and> cmp (keyValue m x) k = 0)"
proof (induction t arbitrary: p a)
  case Leaf
  then show ?case by (subst find_loop.simps) simp
next
  case (Node l x r)
  have a: "a = x" "x \<noteq> LEAF" and rl: "repr m x (leftChild m x) l" "repr m x (rightChild m x) r"
    using Node.prems by auto
  show ?case using Node.IH(1) [OF rl(1)] Node.IH(2) [OF rl(2)] a by (subst find_loop.simps) (auto simp: Let_def)
qed

lemma find_loop_cong:
  "repr m p a t \<Longrightarrow> (\<And>x. x \<in> set_tree t \<Longrightarrow> cmp (keyValue m x) k = cmp' (keyValue m x) k) \<Longrightarrow>
   find_loop cmp m k a = find_loop cmp' m k a"
proof (induction t arbitrary: p a)
  case Leaf
  then show ?case by (subst (1 2) find_loop.simps) simp
next
  case (Node l x r)
  have a: "a = x" "x \<noteq> LEAF" and rl: "repr m x (leftChild m x) l" "repr m x (rightChild m x) r"
    using Node.prems(1) by auto
  have e: "cmp (keyValue m x) k = cmp' (keyValue m x) k" using Node.prems(2) by simp
  show ?case
    using Node.IH(1) [OF rl(1)] Node.IH(2) [OF rl(2)] Node.prems(2) a e by (subst (1 2) find_loop.simps) (simp add: Let_def)
qed

lemma insert_place_cong:
  "repr m p a t \<Longrightarrow> (\<And>x. x \<in> set_tree t \<Longrightarrow> cmp (keyValue m n) (keyValue m x) = cmp' (keyValue m n) (keyValue m x)) \<Longrightarrow>
   insert_place cmp m n q a = insert_place cmp' m n q a \<and>
   (\<forall>y. insert_place cmp' m n q a = Some y \<longrightarrow> y = q \<or> y \<in> set_tree t)"
proof (induction t arbitrary: p q a)
  case Leaf
  then show ?case by (subst (1 2 3) insert_place.simps) simp
next
  case (Node l x r)
  have a: "a = x" "x \<noteq> LEAF" and rl: "repr m x (leftChild m x) l" "repr m x (rightChild m x) r"
    using Node.prems(1) by auto
  have e: "cmp (keyValue m n) (keyValue m x) = cmp' (keyValue m n) (keyValue m x)" using Node.prems(2) by simp
  show ?case
    using Node.IH(1) [OF rl(1), of x] Node.IH(2) [OF rl(2), of x] Node.prems(2) a e
    by (subst (1 2 3) insert_place.simps) auto
qed

lemma insert_cong:
  assumes t: "is_tree m t" and n: "\<And>i. node = Some i \<Longrightarrow> i \<notin> set_tree t"
    and e: "\<And>x. x \<in> set (keys m t) \<Longrightarrow> cmp x k = cmp' x k \<and> cmp k x = cmp' k x"
  shows "pico_tree_insert cmp node k m = pico_tree_insert cmp' node k m"
proof -
  have re: "repr m LEAF (root m) t" using t by (simp add: is_tree_def)
  have e1: "x \<in> set_tree t \<Longrightarrow> cmp (keyValue m x) k = cmp' (keyValue m x) k \<and> cmp k (keyValue m x) = cmp' k (keyValue m x)" for x
    using e by (simp add: keys_def)
  have f: "pico_tree_findKey cmp m k = pico_tree_findKey cmp' m k"
    using find_loop_cong [OF re, of cmp k cmp'] e1 by (simp add: pico_tree_findKey_def)
  show ?thesis
  proof (cases node)
    case None
    then show ?thesis unfolding pico_tree_insert_def f None create_node_def by simp
  next
    case (Some i)
    define m1 where "m1 = snd (create_node (Some i) k m)"
    have c: "create_node (Some i) k m = (Some i, m1)" by (simp add: m1_def create_node_def)
    have kv: "keyValue m1 = (keyValue m)(i := k)" and ch: "root m1 = root m" by (simp_all add: m1_def create_node_def)
    have it: "i \<notin> set_tree t" using n Some by simp
    have re1: "repr m1 LEAF (root m1) t"
      using re it unfolding ch by (intro repr_cong [OF re]) (auto simp: m1_def create_node_def)
    have e2: "cmp (keyValue m1 i) (keyValue m1 x) = cmp' (keyValue m1 i) (keyValue m1 x)" if "x \<in> set_tree t" for x
      using e1 [OF that] it that by (auto simp: kv)
    have ip: "insert_place cmp m1 i LEAF (root m1) = insert_place cmp' m1 i LEAF (root m1)"
      "\<And>y. insert_place cmp' m1 i LEAF (root m1) = Some y \<Longrightarrow> y = LEAF \<or> y \<in> set_tree t"
      using insert_place_cong [OF re1, of cmp i cmp' LEAF, OF e2] by blast+
    let ?tail = "\<lambda>cmp. Option.bind (insert_place cmp m1 i LEAF (root m1)) (\<lambda>last_node.
        let m2 = set_parent i last_node m1;
            m3 = (if last_node = LEAF then set_root i m2
                  else if cmp (keyValue m2 i) (keyValue m2 last_node) < 0
                  then set_left last_node i m2 else set_right last_node i m2)
        in map_option (Pair (Inserted :: 'a insert_result)) (fix_insert_collisions i m3))"
    have tail: "?tail cmp = ?tail cmp'"
    proof (cases "insert_place cmp' m1 i LEAF (root m1)")
      case None
      then show ?thesis by (simp add: ip(1))
    next
      case y: (Some y)
      then show ?thesis using ip(2) [OF y] e2 [of y] by (cases "y = LEAF") (simp_all add: ip(1) Let_def)
    qed
    show ?thesis unfolding pico_tree_insert_def f Some c prod.case option.case tail ..
  qed
qed

lemma delete_any:
  assumes t: "is_tree m t"
  shows "\<exists>r m' t'. pico_tree_delete cmp k m = Some (r, m') \<and> is_tree m' t' \<and> keyValue m' = keyValue m \<and>
    (case r of None \<Rightarrow> m' = m \<and> t' = t
     | Some (x, d) \<Rightarrow> d \<in> set_tree t \<and> x = keyValue m d \<and> cmp x k = 0 \<and> inorder t' = filter (\<lambda>y. y \<noteq> d) (inorder t))"
proof -
  obtain r where r: "find_loop cmp m k (root m) = Some r"
      "\<And>x. r = Some x \<Longrightarrow> x \<in> set_tree t \<and> cmp (keyValue m x) k = 0"
    using find_loop_any [of m LEAF "root m" t cmp k] t by (auto simp: is_tree_def)
  show ?thesis
  proof (cases r)
    case None
    then show ?thesis using r(1) t by (auto simp: pico_tree_delete_def pico_tree_findNode_def)
  next
    case (Some d)
    then have dt: "d \<in> set_tree t" "cmp (keyValue m d) k = 0" using r(2) by auto
    then obtain c l rr where c: "t = plug c (Node l d rr)" using in_tree_plug by blast
    obtain kk temp m1 t1 where sw: "pico_tree_delete_check_switch d m = Some (kk, temp, m1)" "is_tree m1 t1"
        "inorder t1 = before c @ inorder l @ inorder rr @ after c" "keyValue m1 = keyValue m"
        "temp = LEAF \<or> temp \<in> set_tree t1"
      using delete_check_switch_ok t c by blast
    obtain m' t' where fx: "if_nodecolor_black_fix_collisions temp kk m1 = Some m'" "is_tree m' t'"
        "inorder t' = inorder t1" "keyValue m' = keyValue m1"
      using fix_delete_ok [OF sw(2,5)] by blast
    have ino: "inorder t = (before c @ inorder l) @ d # (inorder rr @ after c)" by (simp add: c inorder_path)
    have no: "filter (\<lambda>y. y \<noteq> d) xs = xs" if "d \<notin> set xs" for xs using that by (auto simp: filter_id_conv)
    have "distinct (inorder t)" using t by (simp add: is_tree_def)
    then have "inorder t' = filter (\<lambda>y. y \<noteq> d) (inorder t)" unfolding ino fx(3) sw(3) using no by simp
    moreover have "pico_tree_delete cmp k m = Some (Some (keyValue m d, d), m')"
      using r(1) Some sw(1) fx(1) by (simp add: pico_tree_delete_def pico_tree_findNode_def)
    ultimately show ?thesis using fx(2,4) sw(4) dt by auto
  qed
qed

lemma delete_cong:
  assumes t: "is_tree m t" and e: "\<And>x. x \<in> set (keys m t) \<Longrightarrow> cmp x k = cmp' x k"
  shows "pico_tree_delete cmp k m = pico_tree_delete cmp' k m"
proof -
  have re: "repr m LEAF (root m) t" using t by (simp add: is_tree_def)
  have "find_loop cmp m k (root m) = find_loop cmp' m k (root m)"
    using e by (intro find_loop_cong [OF re]) (simp add: keys_def)
  then show ?thesis by (simp add: pico_tree_delete_def pico_tree_findNode_def)
qed

lemma findKey_cong:
  assumes t: "is_tree m t" and e: "\<And>x. x \<in> set (keys m t) \<Longrightarrow> cmp x k = cmp' x k"
  shows "pico_tree_findKey cmp m k = pico_tree_findKey cmp' m k"
proof -
  have re: "repr m LEAF (root m) t" using t by (simp add: is_tree_def)
  have "find_loop cmp m k (root m) = find_loop cmp' m k (root m)"
    using e by (intro find_loop_cong [OF re]) (simp add: keys_def)
  then show ?thesis by (simp add: pico_tree_findKey_def)
qed

text \<open>The list operations depend on the comparison in the same way.\<close>

lemma tfind_cong: "(\<And>x. x \<in> set xs \<Longrightarrow> cmp x k = cmp' x k) \<Longrightarrow> tfind cmp k xs = tfind cmp' k xs"
  unfolding tfind_def by (induction xs) auto

lemma tinsert_cong:
  assumes "\<And>x. x \<in> set xs \<Longrightarrow> cmp x k = cmp' x k"
  shows "tinsert cmp k xs = tinsert cmp' k xs"
proof -
  have "takeWhile (\<lambda>x. cmp x k < 0) xs = takeWhile (\<lambda>x. cmp' x k < 0) xs"
    "dropWhile (\<lambda>x. cmp x k < 0) xs = dropWhile (\<lambda>x. cmp' x k < 0) xs"
    using assms by (induction xs) auto
  moreover have "tfind cmp k xs = tfind cmp' k xs" using assms by (rule tfind_cong)
  ultimately show ?thesis unfolding tinsert_def by (simp only:)
qed

lemma tdelete_cong: "(\<And>x. x \<in> set xs \<Longrightarrow> cmp x k = cmp' x k) \<Longrightarrow> tdelete cmp k xs = tdelete cmp' k xs"
  unfolding tdelete_def by (intro filter_cong) auto

end
