(* ===== verification/PicoIpfilter.thy ===== *)
theory PicoIpfilter
  imports PicoTreeCong Prelude
begin

text \<open>
  The packet filter of \<^verbatim>\<open>modules/pico_ipfilter.c\<close>. Rules are keys of the pointer tree of
  \<^verbatim>\<open>pico_tree.c\<close>; the same comparison function orders the rules among themselves, finds the rule of
  a packet (a key with identifier 0) and finds the rule to delete, and in the last two uses it is
  not an order. A device is its address, 0 for \<^verbatim>\<open>NULL\<close>.
\<close>

section \<open>Rules\<close>

datatype filter_action = FILTER_PRIORITY | FILTER_REJECT | FILTER_DROP

record filter_node =
  fdev :: nat
  out_addr :: u32
  out_addr_netmask :: u32
  in_addr :: u32
  in_addr_netmask :: u32
  out_port :: u16
  in_port :: u16
  proto :: u8
  priority :: "8 word"
  tos :: u8
  filter_id :: u32
  function_ptr :: filter_action

definition num_cmp :: "'a::linorder \<Rightarrow> 'a \<Rightarrow> int" where
  "num_cmp a b = (if a < b then - 1 else if b < a then 1 else 0)"

definition or_else :: "int \<Rightarrow> int \<Rightarrow> int" where
  "or_else c d = (if c \<noteq> 0 then c else d)"

definition filter_compare_ports :: "filter_node \<Rightarrow> filter_node \<Rightarrow> int" where
  "filter_compare_ports a b = or_else (num_cmp (in_port a) (in_port b)) (num_cmp (out_port a) (out_port b))"

definition filter_compare_addresses :: "filter_node \<Rightarrow> filter_node \<Rightarrow> int" where
  "filter_compare_addresses a b =
     or_else (num_cmp (in_addr a AND in_addr_netmask a) (in_addr b AND in_addr_netmask b))
       (num_cmp (out_addr a AND out_addr_netmask a) (out_addr b AND out_addr_netmask b))"

definition filter_compare_proto :: "filter_node \<Rightarrow> filter_node \<Rightarrow> int" where
  "filter_compare_proto a b = num_cmp (proto a) (proto b)"

definition filter_compare_address_port :: "filter_node \<Rightarrow> filter_node \<Rightarrow> int" where
  "filter_compare_address_port a b = or_else (filter_compare_addresses a b) (filter_compare_ports a b)"

section \<open>Matching a packet\<close>

definition filter_match_packet_dev :: "filter_node \<Rightarrow> filter_node \<Rightarrow> filter_node \<Rightarrow> int" where
  "filter_match_packet_dev a b rule = (if fdev rule \<noteq> 0 then num_cmp (fdev a) (fdev b) else 0)"

definition filter_match_packet_proto :: "filter_node \<Rightarrow> filter_node \<Rightarrow> filter_node \<Rightarrow> int" where
  "filter_match_packet_proto a b rule = (if proto rule \<noteq> 0 then filter_compare_proto a b else 0)"

definition filter_match_packet_addr_in :: "filter_node \<Rightarrow> filter_node \<Rightarrow> filter_node \<Rightarrow> int" where
  "filter_match_packet_addr_in a b rule =
     (if in_addr_netmask rule \<noteq> 0
      then num_cmp (in_addr a AND in_addr_netmask rule) (in_addr b AND in_addr_netmask rule) else 0)"

definition filter_match_packet_addr_out :: "filter_node \<Rightarrow> filter_node \<Rightarrow> filter_node \<Rightarrow> int" where
  "filter_match_packet_addr_out a b rule =
     (if out_addr_netmask rule \<noteq> 0
      then num_cmp (out_addr a AND out_addr_netmask rule) (out_addr b AND out_addr_netmask rule) else 0)"

definition filter_match_packet_port_in :: "filter_node \<Rightarrow> filter_node \<Rightarrow> filter_node \<Rightarrow> int" where
  "filter_match_packet_port_in a b rule = (if in_port rule \<noteq> 0 then num_cmp (in_port a) (in_port b) else 0)"

definition filter_match_packet_port_out :: "filter_node \<Rightarrow> filter_node \<Rightarrow> filter_node \<Rightarrow> int" where
  "filter_match_packet_port_out a b rule = (if out_port rule \<noteq> 0 then num_cmp (out_port a) (out_port b) else 0)"

definition filter_match_packet_dev_and_proto :: "filter_node \<Rightarrow> filter_node \<Rightarrow> filter_node \<Rightarrow> int" where
  "filter_match_packet_dev_and_proto a b rule =
     or_else (filter_match_packet_dev a b rule) (filter_match_packet_proto a b rule)"

definition filter_match_packet_addr :: "filter_node \<Rightarrow> filter_node \<Rightarrow> filter_node \<Rightarrow> int" where
  "filter_match_packet_addr a b rule =
     or_else (filter_match_packet_addr_in a b rule) (filter_match_packet_addr_out a b rule)"

definition filter_match_packet_port :: "filter_node \<Rightarrow> filter_node \<Rightarrow> filter_node \<Rightarrow> int" where
  "filter_match_packet_port a b rule =
     or_else (filter_match_packet_port_in a b rule) (filter_match_packet_port_out a b rule)"

definition filter_match_packet_find_rule :: "filter_node \<Rightarrow> filter_node \<Rightarrow> filter_node" where
  "filter_match_packet_find_rule a b = (if filter_id a = 0 then b else a)"

definition filter_match_packet :: "filter_node \<Rightarrow> filter_node \<Rightarrow> int" where
  "filter_match_packet a b =
     (let rule = filter_match_packet_find_rule a b in
      or_else (filter_match_packet_dev_and_proto a b rule)
        (or_else (filter_match_packet_addr a b rule) (filter_match_packet_port a b rule)))"

text \<open>The devices of two rules are not compared: the code compares one with itself.\<close>

definition filter_compare :: "filter_node \<Rightarrow> filter_node \<Rightarrow> int" where
  "filter_compare a b =
     (if filter_id a = 0 \<or> filter_id b = 0 then filter_match_packet a b
      else if filter_id a = filter_id b then 0
      else or_else (num_cmp (fdev a) (fdev a))
        (or_else (filter_compare_proto a b) (filter_compare_address_port a b)))"

section \<open>The table of rules\<close>

record ipf =
  filter_tree :: "filter_node pico_tree"
  next_filter_id :: u32

definition MAX_PRIORITY :: int where "MAX_PRIORITY = 10"
definition MIN_PRIORITY :: int where "MIN_PRIORITY = - 10"

text \<open>The action is the enumeration's number; \<^verbatim>\<open>fp_function\<close> has \<^verbatim>\<open>FILTER_COUNT\<close> entries.\<close>

definition fp_function :: "filter_action list" where
  "fp_function = [FILTER_PRIORITY, FILTER_REJECT, FILTER_DROP]"

definition pico_ipv4_filter_add_validate :: "8 word \<Rightarrow> nat \<Rightarrow> int" where
  "pico_ipv4_filter_add_validate prio action =
     (if sint prio > MAX_PRIORITY \<or> sint prio < MIN_PRIORITY then - 1
      else if action \<ge> length fp_function then - 1
      else 0)"

text \<open>The rule is a record without identifier or action; \<open>mem\<close> tells whether it can be allocated, \<open>node\<close>
  where its tree node is. A missing address is 0.\<close>

definition pico_ipv4_filter_add :: "bool \<Rightarrow> nat option \<Rightarrow> filter_node \<Rightarrow> nat \<Rightarrow> ipf \<Rightarrow> (u32 \<times> ipf) option" where
  "pico_ipv4_filter_add mem node rule action st =
     (if pico_ipv4_filter_add_validate (priority rule) action < 0 then Some (0, st)
      else if \<not> mem then Some (0, st)
      else
        let new_filter = rule\<lparr>filter_id := next_filter_id st, function_ptr := fp_function ! action\<rparr>;
            st1 = st\<lparr>next_filter_id := next_filter_id st + 1\<rparr>
        in Option.bind (pico_tree_insert filter_compare node new_filter (filter_tree st1))
             (\<lambda>(r, m). if r \<noteq> Inserted
                then Some (0, st1\<lparr>filter_tree := m, next_filter_id := next_filter_id st1 - 1\<rparr>)
                else Some (filter_id new_filter, st1\<lparr>filter_tree := m\<rparr>)))"

definition zero_node :: filter_node where
  "zero_node = \<lparr>fdev = 0, out_addr = 0, out_addr_netmask = 0, in_addr = 0, in_addr_netmask = 0, out_port = 0,
     in_port = 0, proto = 0, priority = 0, tos = 0, filter_id = 0, function_ptr = FILTER_PRIORITY\<rparr>"

definition pico_ipv4_filter_del :: "u32 \<Rightarrow> ipf \<Rightarrow> (int \<times> ipf) option" where
  "pico_ipv4_filter_del fid st =
     map_option (\<lambda>(r, m). (if r = None then - 1 else 0, st\<lparr>filter_tree := m\<rparr>))
       (pico_tree_delete filter_compare (zero_node\<lparr>filter_id := fid\<rparr>) (filter_tree st))"

section \<open>Filtering\<close>

text \<open>What a rule's function does with the frame, and what it returns.\<close>

datatype effect = Icmp_filtered | Discard

fun run_action :: "filter_action \<Rightarrow> effect list \<times> int" where
  "run_action FILTER_PRIORITY = ([], 0)"
| "run_action FILTER_REJECT = ([Icmp_filtered, Discard], 1)"
| "run_action FILTER_DROP = ([Discard], 1)"

definition ipfilter_apply_filter :: "filter_node \<Rightarrow> ipf \<Rightarrow> (int \<times> effect list) option" where
  "ipfilter_apply_filter pkt st =
     map_option (\<lambda>r. case r of
         Some filter_frame \<Rightarrow> (1, fst (run_action (function_ptr filter_frame)))
       | None \<Rightarrow> (0, []))
       (pico_tree_findKey filter_compare (filter_tree st) pkt)"

record packet =
  pdev :: nat
  psrc :: u32
  pdst :: u32
  pproto :: u8
  ptos :: u8
  pprio :: "8 word"
  transport_hdr :: bytes

definition PICO_PROTO_ICMP4 :: u8 where "PICO_PROTO_ICMP4 = 1"
definition PICO_PROTO_TCP :: u8 where "PICO_PROTO_TCP = 6"
definition PICO_PROTO_UDP :: u8 where "PICO_PROTO_UDP = 17"
definition PICO_ICMP_UNREACH :: u8 where "PICO_ICMP_UNREACH = 3"
definition PICO_ICMP_UNREACH_FILTER_PROHIB :: u8 where "PICO_ICMP_UNREACH_FILTER_PROHIB = 13"

definition has_ports :: "packet \<Rightarrow> bool" where
  "has_ports f \<longleftrightarrow> pproto f = PICO_PROTO_TCP \<or> pproto f = PICO_PROTO_UDP"

definition packet_key :: "packet \<Rightarrow> filter_node" where
  "packet_key f = zero_node\<lparr>fdev := pdev f, out_addr := pdst f, in_addr := psrc f,
     out_port := (if has_ports f then short_be (short_from (drop 2 (transport_hdr f))) else 0),
     in_port := (if has_ports f then short_be (short_from (transport_hdr f)) else 0),
     proto := pproto f, priority := pprio f, tos := ptos f\<rparr>"

text \<open>\<open>None\<close> is a read past the end of the frame; the exemption of ICMP errors tests the type twice.\<close>

definition ipfilter :: "packet \<Rightarrow> ipf \<Rightarrow> (int \<times> effect list) option" where
  "ipfilter f st =
     (if has_ports f \<and> length (transport_hdr f) < 4 then None
      else if \<not> has_ports f \<and> pproto f = PICO_PROTO_ICMP4 \<and> transport_hdr f = [] then None
      else if \<not> has_ports f \<and> pproto f = PICO_PROTO_ICMP4 \<and> transport_hdr f ! 0 = PICO_ICMP_UNREACH \<and>
              transport_hdr f ! 0 = PICO_ICMP_UNREACH_FILTER_PROHIB then Some (0, [])
      else ipfilter_apply_filter (packet_key f) st)"

section \<open>Installed rules\<close>

definition rule_cmp :: "filter_node \<Rightarrow> filter_node \<Rightarrow> int" where
  "rule_cmp a b = or_else (filter_compare_proto a b) (filter_compare_address_port a b)"

definition rule_key :: "filter_node \<Rightarrow> u8 \<times> u32 \<times> u32 \<times> u16 \<times> u16" where
  "rule_key r = (proto r, in_addr r AND in_addr_netmask r, out_addr r AND out_addr_netmask r, in_port r, out_port r)"

lemmas rule_cmp_defs = rule_cmp_def filter_compare_proto_def filter_compare_address_port_def
  filter_compare_addresses_def filter_compare_ports_def or_else_def num_cmp_def

lemma rule_cmp_zero: "rule_cmp a b = 0 \<longleftrightarrow> rule_key a = rule_key b"
  by (auto simp: rule_cmp_defs rule_key_def split: if_splits)

text \<open>Among themselves rules are ordered lexicographically by their keys.\<close>

lemma rule_cmp_less:
  "rule_cmp a b < 0 \<longleftrightarrow> (case (rule_key a, rule_key b) of ((p, i, j, x, y), (p', i', j', x', y')) \<Rightarrow>
     p < p' \<or> p = p' \<and> (i < i' \<or> i = i' \<and> (j < j' \<or> j = j' \<and> (x < x' \<or> x = x' \<and> y < y'))))"
  by (auto simp: rule_cmp_defs rule_key_def)

lemma rule_cmp_anti: "0 < rule_cmp b a \<longleftrightarrow> rule_cmp a b < 0"
  by (auto simp: rule_cmp_defs)

interpretation rule_order: tree_order rule_cmp
proof
  fix a b c :: filter_node
  show "rule_cmp a a = 0" by (simp add: rule_cmp_zero)
  show "rule_cmp a b < 0 \<longleftrightarrow> 0 < rule_cmp b a" by (simp add: rule_cmp_anti)
  show "rule_cmp a c < 0" if "rule_cmp a b < 0" "rule_cmp b c < 0"
    using that unfolding rule_cmp_less by (auto split: prod.splits)
  show "rule_cmp a c < 0 \<longleftrightarrow> rule_cmp b c < 0" if "rule_cmp a b = 0"
    using that unfolding rule_cmp_zero rule_cmp_less by simp
qed

lemma filter_compare_rules:
  "filter_id a \<noteq> 0 \<Longrightarrow> filter_id b \<noteq> 0 \<Longrightarrow> filter_id a \<noteq> filter_id b \<Longrightarrow> filter_compare a b = rule_cmp a b"
  by (simp add: filter_compare_def rule_cmp_def) (simp add: or_else_def num_cmp_def)

section \<open>Invariant\<close>

text \<open>Identifiers are below the next one, which has not wrapped around.\<close>

definition ipf_inv :: "ipf \<Rightarrow> nat tree \<Rightarrow> bool" where
  "ipf_inv st t \<longleftrightarrow> is_tree (filter_tree st) t \<and> tsorted rule_cmp (keys (filter_tree st) t) \<and> 0 < next_filter_id st \<and>
     (\<forall>r\<in>set (keys (filter_tree st) t). 0 < filter_id r \<and> filter_id r < next_filter_id st)"

definition ipf_init :: ipf where
  "ipf_init = \<lparr>filter_tree = \<lparr>root = LEAF, keyValue = (\<lambda>_. zero_node), parent = (\<lambda>_. LEAF), leftChild = (\<lambda>_. LEAF),
     rightChild = (\<lambda>_. LEAF), color = (\<lambda>_. BLACK)\<rparr>, next_filter_id = 1\<rparr>"

lemma ipf_inv_init: "ipf_inv ipf_init Leaf"
  by (simp add: ipf_inv_def ipf_init_def is_tree_def leaf_ok_def keys_def tsorted_def)

lemma word_less_next:
  assumes "(x :: u32) \<le> n" "n + 1 \<noteq> 0"
  shows "x < n + 1"
proof -
  have u: "unat (n + 1) = (unat n + 1) mod 2 ^ 32" by (simp add: unat_word_ariths)
  have "unat (n + 1) \<noteq> 0" using assms(2) by (simp only: unat_eq_zero not_False_eq_True)
  then have "unat n + 1 \<noteq> 2 ^ 32" using u by (metis mod_self)
  moreover have "unat n < 2 ^ 32" using unsigned_less [of n, where 'a = nat] by simp
  ultimately have "unat n + 1 < 2 ^ 32" by linarith
  then have "unat (n + 1) = unat n + 1" using u by (simp only: mod_less)
  then show ?thesis using assms(1) by (simp add: word_less_nat_alt word_le_nat_alt)
qed

lemma add_step:
  assumes inv: "ipf_inv st t" and n: "n \<noteq> LEAF" "n \<notin> set_tree t" and nw: "next_filter_id st + 1 \<noteq> 0"
    and ok: "pico_ipv4_filter_add_validate (priority rule) action = 0"
  defines "new \<equiv> rule\<lparr>filter_id := next_filter_id st, function_ptr := fp_function ! action\<rparr>"
  shows "if (\<exists>r\<in>set (keys (filter_tree st) t). rule_key r = rule_key rule)
    then pico_ipv4_filter_add True (Some n) rule action st = Some (0, st)
    else \<exists>st' t'. pico_ipv4_filter_add True (Some n) rule action st = Some (next_filter_id st, st') \<and> ipf_inv st' t' \<and>
      next_filter_id st' = next_filter_id st + 1 \<and> set (keys (filter_tree st') t') = insert new (set (keys (filter_tree st) t)) \<and>
      set_tree t' = insert n (set_tree t)"
proof -
  let ?m = "filter_tree st"
  have it: "is_tree ?m t" and so: "tsorted rule_cmp (keys ?m t)" and ids: "\<And>r. r \<in> set (keys ?m t) \<Longrightarrow>
      0 < filter_id r \<and> filter_id r < next_filter_id st" and nz: "0 < next_filter_id st"
    using inv by (auto simp: ipf_inv_def)
  have nk: "rule_key new = rule_key rule" "filter_id new = next_filter_id st" by (simp_all add: new_def rule_key_def)
  have "filter_compare x new = rule_cmp x new \<and> filter_compare new x = rule_cmp new x" if "x \<in> set (keys ?m t)" for x
    using ids [OF that] nz nk(2) filter_compare_rules [of x new] filter_compare_rules [of new x] by auto
  then have ins: "pico_tree_insert filter_compare (Some n) new ?m = pico_tree_insert rule_cmp (Some n) new ?m"
    using insert_cong [OF it, of "Some n" filter_compare new rule_cmp] n(2) by auto
  have tf: "tfind rule_cmp new (keys ?m t) = None \<longleftrightarrow> \<not> (\<exists>r\<in>set (keys ?m t). rule_key r = rule_key rule)"
    by (auto simp: tfind_def find_None_iff rule_cmp_zero nk)
  have add: "pico_ipv4_filter_add True (Some n) rule action st =
      Option.bind (pico_tree_insert rule_cmp (Some n) new ?m) (\<lambda>(r, m). if r \<noteq> Inserted
         then Some (0, st\<lparr>next_filter_id := next_filter_id st + 1, filter_tree := m, next_filter_id := next_filter_id st + 1 - 1\<rparr>)
         else Some (next_filter_id st, st\<lparr>next_filter_id := next_filter_id st + 1, filter_tree := m\<rparr>))"
    using ok ins nk(2)
    by (cases "pico_tree_insert rule_cmp (Some n) new ?m") (auto simp: pico_ipv4_filter_add_def new_def [symmetric] Let_def)
  show ?thesis
  proof (cases "tfind rule_cmp new (keys ?m t)")
    case (Some x)
    have fk: "pico_tree_findKey rule_cmp ?m new = Some (Some x)" using rule_order.findKey_ok [OF it so, of new] Some by simp
    have "root ?m \<noteq> LEAF"
    proof
      assume "root ?m = LEAF"
      then show False using fk by (simp add: pico_tree_findKey_def find_loop.simps)
    qed
    then have "pico_tree_insert rule_cmp (Some n) new ?m = Some (AlreadyIn x, ?m)"
      using fk by (simp add: pico_tree_insert_def)
    then show ?thesis using add Some tf by simp
  next
    case None
    obtain m' t' where m': "pico_tree_insert rule_cmp (Some n) new ?m = Some (Inserted, m')" "is_tree m' t'"
        "keys m' t' = tinsert rule_cmp new (keys ?m t)" "set_tree t' = insert n (set_tree t)"
      using rule_order.insert_new [OF it so None n] by blast
    have se: "set (keys m' t') = insert new (set (keys ?m t))"
      using None unfolding m'(3) tinsert_def by (auto dest: set_takeWhileD set_dropWhileD)
        (metis set_append Un_iff takeWhile_dropWhile_id)
    let ?st' = "st\<lparr>next_filter_id := next_filter_id st + 1, filter_tree := m'\<rparr>"
    have "ipf_inv ?st' t'"
      using m'(2) se ids nk(2) nz nw rule_order.tsorted_tinsert [OF so, of new] m'(3) word_less_next [OF _ nw]
      by (auto simp: ipf_inv_def word_neq_0_conv order_less_imp_le)
    then show ?thesis using add m'(1,4) se None tf by auto
  qed
qed

lemma insert_nomem:
  assumes "is_tree m t"
  shows "\<exists>r. pico_tree_insert cmp None k m = Some (r, m) \<and> r \<noteq> Inserted"
proof -
  obtain r where "find_loop cmp m k (root m) = Some r"
    using find_loop_any [of m LEAF "root m" t cmp k] assms by (auto simp: is_tree_def)
  then show ?thesis
    by (cases r) (auto simp: pico_tree_insert_def pico_tree_findKey_def create_node_def)
qed

lemma add_refused:
  assumes "ipf_inv st t" "mem \<longrightarrow> node = None \<or> pico_ipv4_filter_add_validate (priority rule) action < 0"
  shows "pico_ipv4_filter_add mem node rule action st = Some (0, st)"
proof (cases "pico_ipv4_filter_add_validate (priority rule) action < 0 \<or> \<not> mem")
  case True
  then show ?thesis by (auto simp: pico_ipv4_filter_add_def)
next
  case False
  then have "node = None" using assms(2) by simp
  moreover have "is_tree (filter_tree st) t" using assms(1) by (simp add: ipf_inv_def)
  note insert_nomem [OF this, of filter_compare "rule\<lparr>filter_id := next_filter_id st, function_ptr := fp_function ! action\<rparr>"]
  ultimately show ?thesis using False by (auto simp: pico_ipv4_filter_add_def Let_def)
qed

lemma del_step:
  assumes inv: "ipf_inv st t"
  shows "\<exists>r st' t'. pico_ipv4_filter_del fid st = Some (r, st') \<and> ipf_inv st' t'"
proof -
  let ?k = "zero_node\<lparr>filter_id := fid\<rparr>"
  have "is_tree (filter_tree st) t" using inv by (simp add: ipf_inv_def)
  from delete_any [OF this, of filter_compare ?k] obtain r m' t' where
      d: "pico_tree_delete filter_compare ?k (filter_tree st) = Some (r, m')"
      "is_tree m' t'" "keyValue m' = keyValue (filter_tree st)"
      "case r of None \<Rightarrow> m' = filter_tree st \<and> t' = t
       | Some (x, y) \<Rightarrow> y \<in> set_tree t \<and> x = keyValue (filter_tree st) y \<and> filter_compare x ?k = 0 \<and>
           inorder t' = filter (\<lambda>z. z \<noteq> y) (inorder t)"
    by (elim exE conjE) (rule that)
  have "\<exists>P. inorder t' = filter P (inorder t)"
  proof (cases r)
    case None
    then show ?thesis using d(4) by (auto intro: exI [of _ "\<lambda>_. True"])
  next
    case (Some q)
    then show ?thesis using d(4) by (cases q) auto
  qed
  then obtain P where P: "inorder t' = filter P (inorder t)" by blast
  have "tsorted rule_cmp (map f (filter P xs))" if "tsorted rule_cmp (map f xs)" for f :: "nat \<Rightarrow> filter_node" and xs
    using that by (simp add: tsorted_def sorted_wrt_map sorted_wrt_filter)
  then have "ipf_inv (st\<lparr>filter_tree := m'\<rparr>) t'"
    using inv d(2,3) P by (auto simp: ipf_inv_def keys_def)
  then show ?thesis using d(1) by (auto simp: pico_ipv4_filter_del_def)
qed

section \<open>Reachable tables\<close>

text \<open>The nodes in the tree, in the order of a traversal, and the rules they hold.\<close>

definition nodes :: "ipf \<Rightarrow> nat list" where
  "nodes st = (case pico_tree_foreach (filter_tree st) of Some ns \<Rightarrow> ns | None \<Rightarrow> [])"

definition rules :: "ipf \<Rightarrow> filter_node list" where
  "rules st = map (keyValue (filter_tree st)) (nodes st)"

lemma nodes_rules: "ipf_inv st t \<Longrightarrow> nodes st = inorder t \<and> rules st = keys (filter_tree st) t"
  using foreach_ok [of "filter_tree st" t] by (simp add: ipf_inv_def nodes_def rules_def keys_def)

inductive ipf_reach :: "ipf \<Rightarrow> bool" where
  init: "ipf_reach ipf_init"
| add: "ipf_reach st \<Longrightarrow> (\<And>n. node = Some n \<Longrightarrow> n \<noteq> LEAF \<and> n \<notin> set (nodes st)) \<Longrightarrow> next_filter_id st + 1 \<noteq> 0 \<Longrightarrow>
    pico_ipv4_filter_add mem node rule action st = Some (i, st') \<Longrightarrow> ipf_reach st'"
| del: "ipf_reach st \<Longrightarrow> pico_ipv4_filter_del fid st = Some (r, st') \<Longrightarrow> ipf_reach st'"

lemma validate_cases: "pico_ipv4_filter_add_validate p a = 0 \<or> pico_ipv4_filter_add_validate p a < 0"
  by (simp add: pico_ipv4_filter_add_validate_def)

lemma ipf_reach_inv: "ipf_reach st \<Longrightarrow> \<exists>t. ipf_inv st t"
proof (induction rule: ipf_reach.induct)
  case init
  then show ?case using ipf_inv_init by blast
next
  case (add st node mem rule action i st')
  then obtain t where t: "ipf_inv st t" by blast
  show ?case
  proof (cases "mem \<longrightarrow> node = None \<or> pico_ipv4_filter_add_validate (priority rule) action < 0")
    case True
    then show ?thesis using add_refused [OF t] add.hyps(4) t by fastforce
  next
    case False
    then obtain n where n: "node = Some n" "mem" "pico_ipv4_filter_add_validate (priority rule) action = 0"
      using validate_cases [of "priority rule" action] by (cases node) auto
    then have "n \<noteq> LEAF" "n \<notin> set_tree t" using add.hyps(2) nodes_rules [OF t] by auto
    then show ?thesis
      using add_step [OF t _ _ add.hyps(3) n(3), of n] add.hyps(4) n t by (auto split: if_splits)
  qed
next
  case (del st fid r st')
  then obtain t where t: "ipf_inv st t" by blast
  then show ?case using del_step [OF t, of fid] del.hyps by auto
qed

section \<open>Properties\<close>

text \<open>A packet matches a rule when it agrees with every field the rule specifies.\<close>

definition matches :: "filter_node \<Rightarrow> filter_node \<Rightarrow> bool" where
  "matches r k \<longleftrightarrow> (fdev r \<noteq> 0 \<longrightarrow> fdev r = fdev k) \<and> (proto r \<noteq> 0 \<longrightarrow> proto r = proto k) \<and>
     in_addr r AND in_addr_netmask r = in_addr k AND in_addr_netmask r \<and>
     out_addr r AND out_addr_netmask r = out_addr k AND out_addr_netmask r \<and>
     (in_port r \<noteq> 0 \<longrightarrow> in_port r = in_port k) \<and> (out_port r \<noteq> 0 \<longrightarrow> out_port r = out_port k)"

lemmas match_defs = filter_match_packet_def filter_match_packet_find_rule_def filter_match_packet_dev_and_proto_def
  filter_match_packet_dev_def filter_match_packet_proto_def filter_match_packet_addr_def filter_match_packet_addr_in_def
  filter_match_packet_addr_out_def filter_match_packet_port_def filter_match_packet_port_in_def
  filter_match_packet_port_out_def

lemma num_cmp_zero: "num_cmp a b = 0 \<longleftrightarrow> a = b"
  by (auto simp: num_cmp_def)

lemma or_else_zero: "or_else c d = 0 \<longleftrightarrow> c = 0 \<and> d = 0"
  by (simp add: or_else_def)

lemma match_packet: "filter_id r \<noteq> 0 \<Longrightarrow> filter_id k = 0 \<Longrightarrow> filter_compare r k = 0 \<longleftrightarrow> matches r k"
  by (auto simp: filter_compare_def match_defs matches_def or_else_zero num_cmp_zero Let_def filter_compare_proto_def)

text \<open>C32: In every reachable rule table a valid rule is accepted exactly when no installed rule has the same protocol,
  masked addresses and ports, whatever their devices are: it then gets a fresh identifier and joins the table;
  otherwise 0 is returned and nothing changes.\<close>

theorem pico_ipv4_filter_add_accepts:
  assumes "ipf_reach st" "n \<noteq> LEAF" "n \<notin> set (nodes st)" "next_filter_id st + 1 \<noteq> 0"
    "pico_ipv4_filter_add_validate (priority rule) action = 0"
  shows "if (\<exists>r\<in>set (rules st). rule_key r = rule_key rule)
    then pico_ipv4_filter_add True (Some n) rule action st = Some (0, st)
    else next_filter_id st \<noteq> 0 \<and> (\<forall>r\<in>set (rules st). filter_id r \<noteq> next_filter_id st) \<and>
      (\<exists>st'. pico_ipv4_filter_add True (Some n) rule action st = Some (next_filter_id st, st') \<and>
        set (rules st') = insert (rule\<lparr>filter_id := next_filter_id st, function_ptr := fp_function ! action\<rparr>) (set (rules st)))"
proof -
  obtain t where t: "ipf_inv st t" using ipf_reach_inv [OF assms(1)] by blast
  then have ru: "rules st = keys (filter_tree st) t" and nt: "n \<notin> set_tree t" using nodes_rules [OF t] assms(3) by auto
  have ids: "next_filter_id st \<noteq> 0 \<and> (\<forall>r\<in>set (rules st). filter_id r \<noteq> next_filter_id st)"
    using t ru by (auto simp: ipf_inv_def)
  note st = add_step [OF t assms(2) nt assms(4,5)]
  show ?thesis
  proof (cases "\<exists>r\<in>set (rules st). rule_key r = rule_key rule")
    case True
    then show ?thesis using st by (simp only: ru if_True)
  next
    case False
    then obtain st' t' where s: "pico_ipv4_filter_add True (Some n) rule action st = Some (next_filter_id st, st')" "ipf_inv st' t'"
        "set (keys (filter_tree st') t') =
          insert (rule\<lparr>filter_id := next_filter_id st, function_ptr := fp_function ! action\<rparr>) (set (keys (filter_tree st) t))"
      using st unfolding ru by (simp only: if_False) (elim exE conjE, rule that)
    have "set (rules st') = insert (rule\<lparr>filter_id := next_filter_id st, function_ptr := fp_function ! action\<rparr>) (set (rules st))"
      using s(3) nodes_rules [OF s(2)] ru by (simp only:)
    then show ?thesis unfolding if_not_P [OF False] using conjunct1 [OF ids] conjunct2 [OF ids] s(1)
      by (intro conjI exI [of _ st'])
  qed
qed

text \<open>C12: The filter is sound: on a frame with a complete transport header it always returns, and when it takes the frame
  some installed rule agrees with the frame in every field that rule specifies, and the frame gets that rule's treatment.\<close>

theorem ipfilter_sound:
  assumes "ipf_reach st" "4 \<le> length (transport_hdr f)"
  shows "\<exists>verdict effects. ipfilter f st = Some (verdict, effects) \<and>
    (verdict = 0 \<and> effects = [] \<or>
     verdict = 1 \<and> (\<exists>r\<in>set (rules st). matches r (packet_key f) \<and> effects = fst (run_action (function_ptr r))))"
proof -
  obtain t where t: "ipf_inv st t" using ipf_reach_inv [OF assms(1)] by blast
  then have re: "repr (filter_tree st) LEAF (root (filter_tree st)) t" by (simp add: ipf_inv_def is_tree_def)
  obtain r where r: "find_loop filter_compare (filter_tree st) (packet_key f) (root (filter_tree st)) = Some r"
      "\<And>x. r = Some x \<Longrightarrow> x \<in> set_tree t \<and> filter_compare (keyValue (filter_tree st) x) (packet_key f) = 0"
    using find_loop_any [OF re, of filter_compare "packet_key f"] by auto
  have "keyValue (filter_tree st) x \<in> set (rules st) \<and> matches (keyValue (filter_tree st) x) (packet_key f)" if "r = Some x" for x
  proof -
    have x: "keyValue (filter_tree st) x \<in> set (keys (filter_tree st) t)" using r(2) [OF that] by (simp add: keys_def)
    then have "filter_id (keyValue (filter_tree st) x) \<noteq> 0" using t by (auto simp: ipf_inv_def)
    then show ?thesis
      using r(2) [OF that] x nodes_rules [OF t] match_packet [of _ "packet_key f"]
      by (simp add: packet_key_def zero_node_def)
  qed
  then show ?thesis
    using r(1) assms(2)
    by (cases r) (auto simp: ipfilter_def ipfilter_apply_filter_def pico_tree_findKey_def)
qed

text \<open>Two rules: TCP to port 80, and anything from one address.\<close>

definition rule_web :: filter_node where
  "rule_web = zero_node\<lparr>proto := 6, out_port := 80\<rparr>"

definition rule_src :: filter_node where
  "rule_src = zero_node\<lparr>in_addr := 0x01020304, in_addr_netmask := 0xFFFFFFFF\<rparr>"

definition rule_any :: filter_node where
  "rule_any = zero_node\<lparr>fdev := 5\<rparr>"

definition add2 :: "filter_node \<Rightarrow> filter_node \<Rightarrow> (u32 \<times> ipf) option" where
  "add2 a b = Option.bind (pico_ipv4_filter_add True (Some 1) a 2 ipf_init)
     (\<lambda>(i, st). pico_ipv4_filter_add True (Some 2) b 2 st)"

lemma add2_reach: "add2 a b = Some (i, st) \<Longrightarrow> ipf_reach st"
proof -
  assume "add2 a b = Some (i, st)"
  then obtain j s1 where s1: "pico_ipv4_filter_add True (Some 1) a 2 ipf_init = Some (j, s1)"
      "pico_ipv4_filter_add True (Some 2) b 2 s1 = Some (i, st)"
    by (auto simp: add2_def split: bind_splits)
  have n0: "nodes ipf_init = []" using nodes_rules [OF ipf_inv_init] by simp
  have v: "pico_ipv4_filter_add_validate (priority a) 2 = 0 \<or> pico_ipv4_filter_add_validate (priority a) 2 < 0"
    by (rule validate_cases)
  have r1: "ipf_reach s1"
    using ipf_reach.add [OF ipf_reach.init _ _ s1(1)] n0 by (auto simp: ipf_init_def)
  have w: "next_filter_id ipf_init + 1 \<noteq> 0" by (simp add: ipf_init_def)
  have "next_filter_id s1 + 1 \<noteq> 0 \<and> 2 \<notin> set (nodes s1)"
  proof (cases "pico_ipv4_filter_add_validate (priority a) 2 < 0")
    case True
    then have "s1 = ipf_init" using add_refused [OF ipf_inv_init] s1(1) by auto
    then show ?thesis using n0 by (simp add: ipf_init_def)
  next
    case False
    then have "next_filter_id s1 = 2 \<and> (\<exists>t. ipf_inv s1 t \<and> set_tree t = {1})"
      using add_step [OF ipf_inv_init _ _ w, of 1 a 2] v s1(1) by (auto simp: keys_def ipf_init_def)
    then show ?thesis using nodes_rules by fastforce
  qed
  then show ?thesis using ipf_reach.add [OF r1 _ _ s1(2)] by auto
qed

theorem pico_ipv4_filter_add_accepts_witness:
  "\<exists>st'. pico_ipv4_filter_add True (Some 1) rule_web 2 ipf_init = Some (1, st')"
proof -
  have n0: "nodes ipf_init = []" "rules ipf_init = []" using nodes_rules [OF ipf_inv_init] by (simp_all add: keys_def)
  have v: "pico_ipv4_filter_add_validate (priority rule_web) 2 = 0" by code_simp
  have w: "next_filter_id ipf_init + 1 \<noteq> 0" "next_filter_id ipf_init = 1" by (simp_all add: ipf_init_def)
  show ?thesis
    using pico_ipv4_filter_add_accepts [OF ipf_reach.init _ _ w(1) v, of 1] unfolding n0 w(2) by auto
qed

definition web_packet :: packet where
  "web_packet = \<lparr>pdev = 5, psrc = 0x01020304, pdst = 0x0A000001, pproto = 6, ptos = 0, pprio = 0,
     transport_hdr = [0x10, 0x00, 0, 80]\<rparr>"

theorem ipfilter_sound_witness: "\<exists>verdict effects. ipfilter web_packet ipf_init = Some (verdict, effects)"
proof -
  have "4 \<le> length (transport_hdr web_packet)" by (simp add: web_packet_def)
  from ipfilter_sound [OF ipf_reach.init this] show ?thesis by blast
qed

text \<open>The filter is not complete: with rules that leave fields open the search can turn away from a rule that matches.
  A packet from the blocked address passes when the rule on another port was installed first.\<close>

theorem ipfilter_misses_matching_rule:
  "\<exists>st i f r. ipf_reach st \<and> add2 rule_web rule_src = Some (i, st) \<and> i \<noteq> 0 \<and> r \<in> set (rules st) \<and>
     matches r (packet_key f) \<and> function_ptr r = FILTER_DROP \<and> ipfilter f st = Some (0, [])"
proof -
  let ?f = "web_packet\<lparr>transport_hdr := [0x10, 0x00, 0, 81]\<rparr>"
  let ?r = "rule_src\<lparr>filter_id := 2, function_ptr := FILTER_DROP\<rparr>"
  have ex: "case add2 rule_web rule_src of None \<Rightarrow> False
      | Some (i, st) \<Rightarrow> i = 2 \<and> ?r \<in> set (rules st) \<and> matches ?r (packet_key ?f) \<and> ipfilter ?f st = Some (0, [])"
    by code_simp
  then obtain i st where st: "add2 rule_web rule_src = Some (i, st)" by (cases "add2 rule_web rule_src") auto
  show ?thesis
    using ex add2_reach [OF st] unfolding st
    by (intro exI [of _ st] exI [of _ i] exI [of _ ?f] exI [of _ ?r]) simp
qed

text \<open>Deletion by identifier can remove another rule: with a rule for a whole device installed first, deleting the
  second rule reports success and removes the first.\<close>

theorem pico_ipv4_filter_del_removes_other:
  "\<exists>st st'. ipf_reach st \<and> map filter_id (rules st) = [1, 2] \<and> pico_ipv4_filter_del 2 st = Some (0, st') \<and>
     map filter_id (rules st') = [2]"
proof -
  have ex: "case add2 rule_any rule_web of None \<Rightarrow> False
      | Some (i, st) \<Rightarrow> map filter_id (rules st) = [1, 2] \<and>
          (case pico_ipv4_filter_del 2 st of None \<Rightarrow> False | Some (r, st') \<Rightarrow> r = 0 \<and> map filter_id (rules st') = [2])"
    by code_simp
  then obtain i st where st: "add2 rule_any rule_web = Some (i, st)" by (cases "add2 rule_any rule_web") auto
  obtain r st' where d: "pico_ipv4_filter_del 2 st = Some (r, st')"
    using ex unfolding st by (cases "pico_ipv4_filter_del 2 st") auto
  show ?thesis
    using ex add2_reach [OF st] unfolding st option.case prod.case d
    by (intro exI [of _ st] exI [of _ st'] conjI) (simp_all only: d)
qed

end
