(* ===== verification/PicoFragments.thy ===== *)
theory PicoFragments
  imports PicoFrame PicoIPv4Route
begin

text \<open>
  Reassembly, \<^verbatim>\<open>modules/pico_fragments.c\<close>. The two trees of fragments are their sorted lists of keys, the
  contract the tree operations are proved to refine. A fragment is what the code reads of a frame:
  its \<^verbatim>\<open>frag\<close> field, network header, transport bytes and device. What leaves the component
  (reassembled frames, timers, notifications) is recorded in order. \<open>None\<close> is undefined behaviour:
  a write past the reassembly buffer, or a null frame used as a key.
\<close>

section \<open>State\<close>

datatype net = PICO_PROTO_IPV4 | PICO_PROTO_IPV6

record fragment =
  ff_frag :: u16
  ff_net :: bytes
  ff_transport :: bytes
  ff_dev :: nat

datatype frag_event = Receive u8 bytes bytes nat | Timer_add net int | Timer_cancel u32 | Frag_expired fragment

record frag_state =
  fragments :: "fragment list"
  cur_frag_id :: u32
  fragments_timer :: u32

record frag_sys =
  ipv4_frags :: frag_state
  ipv6_frags :: frag_state
  frag_log :: "frag_event list"

definition PICO_SIZE_IP4HDR :: nat where "PICO_SIZE_IP4HDR = 20"
definition PICO_SIZE_IP6HDR :: nat where "PICO_SIZE_IP6HDR = 40"
definition PICO_IPV4_FRAG_TIMEOUT :: int where "PICO_IPV4_FRAG_TIMEOUT = 15000"
definition PICO_IPV6_FRAG_TIMEOUT :: int where "PICO_IPV6_FRAG_TIMEOUT = 60000"

section \<open>Fields\<close>

definition IP4_FRAG_OFF :: "u16 \<Rightarrow> u32" where
  "IP4_FRAG_OFF fr = push_bit 3 (ucast fr AND 0x1FFF)"

definition IP4_FRAG_MORE :: "u16 \<Rightarrow> bool" where
  "IP4_FRAG_MORE fr \<longleftrightarrow> fr AND 0x2000 \<noteq> 0"

definition IP6_FRAG_OFF :: "u16 \<Rightarrow> u32" where
  "IP6_FRAG_OFF fr = ucast fr AND 0xFFF8"

definition IP6_FRAG_MORE :: "u16 \<Rightarrow> bool" where
  "IP6_FRAG_MORE fr \<longleftrightarrow> fr AND 1 \<noteq> 0"

definition FRAG_OFF :: "net \<Rightarrow> u16 \<Rightarrow> u32" where
  "FRAG_OFF nt fr = (if nt = PICO_PROTO_IPV4 then IP4_FRAG_OFF fr else IP6_FRAG_OFF fr)"

definition FRAG_MORE :: "net \<Rightarrow> u16 \<Rightarrow> bool" where
  "FRAG_MORE nt fr = (if nt = PICO_PROTO_IPV4 then IP4_FRAG_MORE fr else IP6_FRAG_MORE fr)"

text \<open>The header fields the code reads: identification, addresses, version.\<close>

definition hdr_id :: "bytes \<Rightarrow> u16" where "hdr_id h = short_from (drop 4 h)"
definition hdr_frag :: "bytes \<Rightarrow> u16" where "hdr_frag h = short_from (drop 6 h)"
definition ip4_src :: "bytes \<Rightarrow> bytes" where "ip4_src h = take 4 (drop 12 h)"
definition ip4_dst :: "bytes \<Rightarrow> bytes" where "ip4_dst h = take 4 (drop 16 h)"
definition ip6_src :: "bytes \<Rightarrow> bytes" where "ip6_src h = take 16 (drop 8 h)"
definition ip6_dst :: "bytes \<Rightarrow> bytes" where "ip6_dst h = take 16 (drop 24 h)"

definition IS_IPV4 :: "bytes \<Rightarrow> bool" where "IS_IPV4 h \<longleftrightarrow> h \<noteq> [] \<and> hd h AND 0xf0 = 0x40"
definition IS_IPV6 :: "bytes \<Rightarrow> bool" where "IS_IPV6 h \<longleftrightarrow> h \<noteq> [] \<and> hd h AND 0xf0 = 0x60"

definition frag_compare :: "net \<Rightarrow> fragment \<Rightarrow> fragment \<Rightarrow> int" where
  "frag_compare nt a b =
     (if FRAG_OFF nt (ff_frag a) > FRAG_OFF nt (ff_frag b) then 1
      else if FRAG_OFF nt (ff_frag a) < FRAG_OFF nt (ff_frag b) then - 1
      else 0)"

definition pico_ipv4_frag_match :: "fragment \<Rightarrow> fragment \<Rightarrow> bool" where
  "pico_ipv4_frag_match a b \<longleftrightarrow> ip4_src (ff_net a) = ip4_src (ff_net b) \<and> ip4_dst (ff_net a) = ip4_dst (ff_net b)"

definition pico_ipv6_frag_match :: "fragment \<Rightarrow> fragment \<Rightarrow> bool" where
  "pico_ipv6_frag_match a b \<longleftrightarrow> ip6_src (ff_net a) = ip6_src (ff_net b) \<and> ip6_dst (ff_net a) = ip6_dst (ff_net b)"

section \<open>Reassembly\<close>

definition memcpy_at :: "bytes \<Rightarrow> nat \<Rightarrow> bytes \<Rightarrow> bytes option" where
  "memcpy_at buf pos src =
     (if pos + length src \<le> length buf then Some (take pos buf @ src @ drop (pos + length src) buf) else None)"

fun copy_loop :: "nat \<Rightarrow> bytes \<Rightarrow> nat \<Rightarrow> fragment list \<Rightarrow> bytes option" where
  "copy_loop base buf bookmark [] = Some buf"
| "copy_loop base buf bookmark (f # fs) =
     Option.bind (memcpy_at buf (base + bookmark) (ff_transport f))
       (\<lambda>buf'. copy_loop base buf' (bookmark + length (ff_transport f)) fs)"

text \<open>
  The buffer has the size of a 16-bit length, rounded up by the allocator; every fragment in the
  tree is copied. \<open>mem\<close> tells whether the frame can be allocated. The result is the buffer.
\<close>

definition reassemble :: "nat \<Rightarrow> nat \<Rightarrow> fragment list \<Rightarrow> bytes option" where
  "reassemble hdrlen len fs =
     (case fs of
        [] \<Rightarrow> None
      | first # _ \<Rightarrow>
          Option.bind (memcpy_at (replicate (aligned (unat (of_nat (hdrlen + len) :: u16))) 0) 0 (take hdrlen (ff_net first)))
            (\<lambda>buf. copy_loop hdrlen buf 0 fs))"

definition pico_ipv4_fragments_complete :: "bool \<Rightarrow> nat \<Rightarrow> u8 \<Rightarrow> frag_sys \<Rightarrow> frag_sys option" where
  "pico_ipv4_fragments_complete mem len proto s =
     (let st = ipv4_frags s in
      if \<not> mem then Some s
      else map_option (\<lambda>buf.
          s\<lparr>ipv4_frags := st\<lparr>fragments := [], cur_frag_id := 0, fragments_timer := 0\<rparr>,
            frag_log := frag_log s @
              [Receive proto (take PICO_SIZE_IP4HDR buf)
                 (take (unat (of_nat len :: u16)) (drop PICO_SIZE_IP4HDR buf)) (ff_dev (hd (fragments st))),
               Timer_cancel (fragments_timer st)]\<rparr>)
        (reassemble PICO_SIZE_IP4HDR len (fragments st)))"

definition pico_ipv6_fragments_complete :: "bool \<Rightarrow> nat \<Rightarrow> u8 \<Rightarrow> frag_sys \<Rightarrow> frag_sys option" where
  "pico_ipv6_fragments_complete mem len proto s =
     (let st = ipv6_frags s in
      if \<not> mem then Some s
      else map_option (\<lambda>buf.
          s\<lparr>ipv6_frags := st\<lparr>fragments := [], fragments_timer := 0\<rparr>,
            frag_log := frag_log s @
              [Receive proto (take PICO_SIZE_IP6HDR buf)
                 (take (unat (of_nat len :: u16)) (drop PICO_SIZE_IP6HDR buf)) (ff_dev (hd (fragments st))),
               Timer_cancel (fragments_timer st)]\<rparr>)
        (reassemble PICO_SIZE_IP6HDR len (fragments st)))"

definition pico_fragments_complete :: "bool \<Rightarrow> nat \<Rightarrow> u8 \<Rightarrow> net \<Rightarrow> frag_sys \<Rightarrow> frag_sys option" where
  "pico_fragments_complete mem bookmark proto nt s =
     (if nt = PICO_PROTO_IPV4 then pico_ipv4_fragments_complete mem bookmark proto s
      else pico_ipv6_fragments_complete mem bookmark proto s)"

text \<open>The length up to the last fragment, when there is no gap before it.\<close>

fun complete_length :: "net \<Rightarrow> nat \<Rightarrow> fragment list \<Rightarrow> nat option" where
  "complete_length nt bookmark [] = None"
| "complete_length nt bookmark (cur # fs) =
     (if unat (FRAG_OFF nt (ff_frag cur)) \<noteq> bookmark then None
      else if \<not> FRAG_MORE nt (ff_frag cur) then Some (bookmark + length (ff_transport cur))
      else complete_length nt (bookmark + length (ff_transport cur)) fs)"

definition tree_of :: "net \<Rightarrow> frag_sys \<Rightarrow> fragment list" where
  "tree_of nt s = (if nt = PICO_PROTO_IPV4 then fragments (ipv4_frags s) else fragments (ipv6_frags s))"

definition pico_fragments_check_complete :: "bool \<Rightarrow> u8 \<Rightarrow> net \<Rightarrow> frag_sys \<Rightarrow> frag_sys option" where
  "pico_fragments_check_complete mem proto nt s =
     (case complete_length nt 0 (tree_of nt s) of
        None \<Rightarrow> Some s
      | Some bookmark \<Rightarrow> pico_fragments_complete mem bookmark proto nt s)"

section \<open>Arrival\<close>

record frag_mem =
  mem_copy :: bool
  mem_node :: bool
  mem_full :: bool
  timer_id :: u32

definition pico_ipv4_frag_timer_on :: "u32 \<Rightarrow> frag_sys \<Rightarrow> frag_sys" where
  "pico_ipv4_frag_timer_on tid s =
     s\<lparr>ipv4_frags := (ipv4_frags s)\<lparr>fragments_timer := tid\<rparr>,
       frag_log := frag_log s @ [Timer_add PICO_PROTO_IPV4 PICO_IPV4_FRAG_TIMEOUT]\<rparr>"

definition pico_ipv6_frag_timer_on :: "u32 \<Rightarrow> frag_sys \<Rightarrow> frag_sys" where
  "pico_ipv6_frag_timer_on tid s =
     s\<lparr>ipv6_frags := (ipv6_frags s)\<lparr>fragments_timer := tid\<rparr>,
       frag_log := frag_log s @ [Timer_add PICO_PROTO_IPV6 PICO_IPV6_FRAG_TIMEOUT]\<rparr>"

text \<open>The offset tested first is the one the frame had before the header's is stored in it.\<close>

definition pico_ipv4_process_frag :: "frag_mem \<Rightarrow> fragment \<Rightarrow> u8 \<Rightarrow> frag_sys \<Rightarrow> frag_sys option" where
  "pico_ipv4_process_frag mm f proto s =
     (let st = ipv4_frags s;
          fid = ucast (hdr_id (ff_net f)) :: u32;
          flush = (fragments st \<noteq> [] \<and> fid \<noteq> cur_frag_id st \<and> IP4_FRAG_OFF (ff_frag f) = 0);
          st1 = (if flush then st\<lparr>fragments := [], cur_frag_id := 0\<rparr> else st);
          s1 = s\<lparr>ipv4_frags := st1\<rparr>;
          f1 = f\<lparr>ff_frag := short_be (hdr_frag (ff_net f))\<rparr>
      in if fragments st1 = [] \<and> cur_frag_id st1 \<noteq> 0 \<and> fid = cur_frag_id st1 then Some s1
         else
           let s2 = (if fragments st1 = []
                     then (let s' = pico_ipv4_frag_timer_on (timer_id mm) s1
                           in s'\<lparr>ipv4_frags := (ipv4_frags s')\<lparr>cur_frag_id := fid\<rparr>\<rparr>)
                     else s1);
               st2 = ipv4_frags s2;
               take_it = (fragments st1 = [] \<or> pico_ipv4_frag_match f1 (hd (fragments st1)) \<and> fid = cur_frag_id st2)
           in if take_it \<and> \<not> mem_copy mm then None
              else
                let s3 = (if take_it \<and> mem_node mm
                          then s2\<lparr>ipv4_frags := st2\<lparr>fragments := tinsert (frag_compare PICO_PROTO_IPV4) f1 (fragments st2)\<rparr>\<rparr>
                          else s2)
                in pico_fragments_check_complete (mem_full mm) proto PICO_PROTO_IPV4 s3)"

definition IP6_FRAG_ID :: "bytes \<Rightarrow> u32" where
  "IP6_FRAG_ID b = push_bit 24 (ucast (b ! 0)) + push_bit 16 (ucast (b ! 1)) + push_bit 8 (ucast (b ! 2)) + ucast (b ! 3)"

definition pico_ipv6_process_frag :: "frag_mem \<Rightarrow> bytes \<Rightarrow> fragment \<Rightarrow> u8 \<Rightarrow> frag_sys \<Rightarrow> frag_sys option" where
  "pico_ipv6_process_frag mm idb f proto s =
     (let st = ipv6_frags s;
          fid = IP6_FRAG_ID idb
      in if fragments st = [] \<and> cur_frag_id st \<noteq> 0 \<and> fid = cur_frag_id st then Some s
         else
           let s2 = (if fragments st = []
                     then (let s' = pico_ipv6_frag_timer_on (timer_id mm) s
                           in s'\<lparr>ipv6_frags := (ipv6_frags s')\<lparr>cur_frag_id := fid\<rparr>\<rparr>)
                     else s);
               st2 = ipv6_frags s2;
               take_it = (fragments st = [] \<or> pico_ipv6_frag_match f (hd (fragments st)) \<and> fid = cur_frag_id st2)
           in if take_it \<and> \<not> mem_copy mm then None
              else
                let s3 = (if take_it \<and> mem_node mm
                          then s2\<lparr>ipv6_frags := st2\<lparr>fragments := tinsert (frag_compare PICO_PROTO_IPV6) f (fragments st2)\<rparr>\<rparr>
                          else s2)
                in pico_fragments_check_complete (mem_full mm) proto PICO_PROTO_IPV6 s3)"

section \<open>Expiry\<close>

definition pico_frame_dst_is_unicast :: "ip4 \<Rightarrow> bytes \<Rightarrow> bool" where
  "pico_frame_dst_is_unicast ipst h =
     (if IS_IPV4 h then
        \<not> (pico_ipv4_is_multicast (long_from (ip4_dst h)) \<or> pico_ipv4_is_broadcast (long_from (ip4_dst h)) ipst)
      else if IS_IPV6 h then \<not> (hd (ip6_dst h) = 0xff \<or> ip6_dst h = replicate 16 0)
      else False)"

definition pico_frag_expire :: "ip4 \<Rightarrow> net \<Rightarrow> frag_sys \<Rightarrow> frag_sys" where
  "pico_frag_expire ipst tree s =
     (case tree_of tree s of
        [] \<Rightarrow> s
      | first # _ \<Rightarrow>
          let nt = (if IS_IPV6 (ff_net first) then PICO_PROTO_IPV6 else if IS_IPV4 (ff_net first) then PICO_PROTO_IPV4
                    else PICO_PROTO_IPV6);
              s1 = (if tree = PICO_PROTO_IPV4 then s\<lparr>ipv4_frags := (ipv4_frags s)\<lparr>fragments := []\<rparr>\<rparr>
                    else s\<lparr>ipv6_frags := (ipv6_frags s)\<lparr>fragments := []\<rparr>\<rparr>)
          in if FRAG_OFF nt (ff_frag first) = 0 \<and> pico_frame_dst_is_unicast ipst (ff_net first)
             then s1\<lparr>frag_log := frag_log s1 @ [Frag_expired first]\<rparr> else s1)"

section \<open>Order of the fragments\<close>

interpretation frag_order: tree_order "frag_compare nt"
  by unfold_locales (auto simp: frag_compare_def split: if_splits)

lemma tsorted_unique:
  assumes "tree_order cmp"
  shows "tsorted cmp xs \<Longrightarrow> tsorted cmp ys \<Longrightarrow> set xs = set ys \<Longrightarrow> xs = ys"
proof (induction xs arbitrary: ys)
  case (Cons x xs)
  then obtain y ys' where ys: "ys = y # ys'" by (cases ys) auto
  have lt: "\<And>z. z \<in> set xs \<Longrightarrow> cmp x z < 0" "\<And>z. z \<in> set ys' \<Longrightarrow> cmp y z < 0" and ts: "tsorted cmp xs" "tsorted cmp ys'"
    using Cons.prems(1,2) by (auto simp: ys tsorted_def)
  have irr: "\<not> cmp a a < 0" and asym: "cmp a b < 0 \<Longrightarrow> \<not> cmp b a < 0" for a b
    using tree_order.cmp_refl [OF assms] tree_order.cmp_anti [OF assms, of a b] by auto
  have xy: "x = y"
  proof (rule ccontr)
    assume "x \<noteq> y"
    then have "x \<in> set ys'" "y \<in> set xs" using Cons.prems(3) by (auto simp: ys)
    then show False using lt asym by blast
  qed
  have "x \<notin> set xs" "x \<notin> set ys'" using lt irr xy by blast+
  then have "set xs = set ys'" using Cons.prems(3) xy by (auto simp: ys)
  then show ?case using Cons.IH [OF ts] xy ys by simp
qed simp

lemma order_distinct: "tree_order cmp \<Longrightarrow> tsorted cmp xs \<Longrightarrow> distinct xs"
  using tree_order.cmp_refl [of cmp] by (induction xs) (auto simp: tsorted_def dest: bspec)

section \<open>Tilings\<close>

text \<open>The fragments of one datagram in order: they follow each other without gap, and only the last has no successor.\<close>

fun tiles :: "net \<Rightarrow> nat \<Rightarrow> fragment list \<Rightarrow> bool" where
  "tiles nt b [] \<longleftrightarrow> False"
| "tiles nt b (f # fs) \<longleftrightarrow> unat (FRAG_OFF nt (ff_frag f)) = b \<and>
     (if fs = [] then \<not> FRAG_MORE nt (ff_frag f)
      else FRAG_MORE nt (ff_frag f) \<and> ff_transport f \<noteq> [] \<and> tiles nt (b + length (ff_transport f)) fs)"

definition payload :: "fragment list \<Rightarrow> bytes" where
  "payload fs = concat (map ff_transport fs)"

lemma tiles_offset: "tiles nt b fs \<Longrightarrow> f \<in> set fs \<Longrightarrow> b \<le> unat (FRAG_OFF nt (ff_frag f))"
proof (induction nt b fs rule: tiles.induct)
  case (2 nt b g fs)
  show ?case
  proof (cases "fs = []")
    case True
    then show ?thesis using "2.prems" by simp
  next
    case False
    then show ?thesis using "2.IH" [OF False] "2.prems" by (auto split: if_splits)
  qed
qed simp

lemma tiles_later:
  assumes "tiles nt b (f # fs)" "g \<in> set fs"
  shows "b < unat (FRAG_OFF nt (ff_frag g))" "frag_compare nt f g < 0"
proof -
  have ne: "fs \<noteq> []" using assms(2) by auto
  then have "b + length (ff_transport f) \<le> unat (FRAG_OFF nt (ff_frag g))" "length (ff_transport f) > 0"
    using assms tiles_offset [of nt "b + length (ff_transport f)" fs g] by (auto split: if_splits)
  then show b: "b < unat (FRAG_OFF nt (ff_frag g))" by linarith
  have "unat (FRAG_OFF nt (ff_frag f)) = b" using assms(1) by simp
  then have "FRAG_OFF nt (ff_frag f) < FRAG_OFF nt (ff_frag g)" using b by (simp add: word_less_nat_alt)
  then show "frag_compare nt f g < 0" by (simp add: frag_compare_def)
qed

lemma tiles_sorted: "tiles nt b fs \<Longrightarrow> tsorted (frag_compare nt) fs"
proof (induction nt b fs rule: tiles.induct)
  case (2 nt b f fs)
  then show ?case
    using tiles_later(2) [OF "2.prems"] by (cases "fs = []") (auto simp: tsorted_def)
qed simp

text \<open>Only the whole datagram passes the completeness check.\<close>

lemma complete_length_filter:
  "tiles nt b fs \<Longrightarrow> complete_length nt b (filter P fs) =
     (if (\<forall>f\<in>set fs. P f) then Some (b + length (payload fs)) else None)"
proof (induction nt b fs rule: tiles.induct)
  case (2 nt b f fs)
  show ?case
  proof (cases "P f")
    case True
    show ?thesis
    proof (cases "fs = []")
      case True
      then show ?thesis using "2.prems" \<open>P f\<close> by (simp add: payload_def)
    next
      case False
      then show ?thesis using "2.prems" \<open>P f\<close> "2.IH" [OF False] by (simp add: payload_def)
    qed
  next
    case False
    have "complete_length nt b (filter P fs) = None"
    proof (cases "filter P fs")
      case (Cons g gs)
      then have "g \<in> set (filter P fs)" by simp
      then have "g \<in> set fs" by simp
      then show ?thesis using tiles_later(1) [OF "2.prems"] Cons by force
    qed simp
    then show ?thesis using False by simp
  qed
qed simp

section \<open>Copying\<close>

lemma copy_loop_ok:
  "base + bm + length (payload fs) \<le> length buf \<Longrightarrow>
   copy_loop base buf bm fs = Some (take (base + bm) buf @ payload fs @ drop (base + bm + length (payload fs)) buf)"
proof (induction fs arbitrary: bm buf)
  case (Cons f fs)
  let ?n = "length (ff_transport f)"
  let ?buf = "take (base + bm) buf @ ff_transport f @ drop (base + bm + ?n) buf"
  have le: "base + bm + ?n \<le> length buf" using Cons.prems by (simp add: payload_def)
  then have l: "length ?buf = length buf" "length (take (base + bm) buf) = base + bm" by simp_all
  have "copy_loop base ?buf (bm + ?n) fs =
      Some (take (base + (bm + ?n)) ?buf @ payload fs @ drop (base + (bm + ?n) + length (payload fs)) ?buf)"
    using Cons.prems l(1) by (intro Cons.IH) (simp add: payload_def)
  moreover have "take (base + (bm + ?n)) ?buf = take (base + bm) buf @ ff_transport f"
    using le by simp
  moreover have "drop (base + (bm + ?n) + length (payload fs)) ?buf = drop (base + bm + length (payload (f # fs))) buf"
    using le by (simp add: drop_append payload_def add_ac)
  ultimately show ?case using le by (simp add: memcpy_at_def payload_def)
qed (simp add: payload_def)

lemma aligned_ge: "n \<le> aligned n"
  using mod_less_divisor [of 4 n] unfolding aligned_def Let_def by auto

lemma unat_u16: "n < 65536 \<Longrightarrow> unat (of_nat n :: u16) = n"
  by (simp add: unat_of_nat)

lemma reassemble_ok:
  assumes "fs = first # rest" "hdrlen \<le> length (ff_net first)" "hdrlen + length (payload fs) < 65536"
  shows "\<exists>tail. reassemble hdrlen (length (payload fs)) fs = Some (take hdrlen (ff_net first) @ payload fs @ tail)"
proof -
  let ?n = "hdrlen + length (payload fs)"
  have n: "unat (of_nat ?n :: u16) = ?n" by (rule unat_u16 [OF assms(3)])
  let ?z = "replicate (aligned ?n) (0 :: u8)"
  have al: "?n \<le> length ?z" using aligned_ge [of ?n] by simp
  have h: "length (take hdrlen (ff_net first)) = hdrlen" using assms(2) by simp
  let ?b = "take hdrlen (ff_net first) @ drop hdrlen ?z"
  have m: "memcpy_at ?z 0 (take hdrlen (ff_net first)) = Some ?b" using al h by (simp add: memcpy_at_def)
  have "copy_loop hdrlen ?b 0 fs = Some (take (hdrlen + 0) ?b @ payload fs @ drop (hdrlen + 0 + length (payload fs)) ?b)"
    using al h by (intro copy_loop_ok) simp
  moreover have "take hdrlen ?b = take hdrlen (ff_net first)" using h by simp
  ultimately show ?thesis using m n assms(1) unfolding reassemble_def by auto
qed

section \<open>Arrival of the fragments of one datagram\<close>

definition stored :: "fragment \<Rightarrow> fragment" where
  "stored f = f\<lparr>ff_frag := short_be (hdr_frag (ff_net f))\<rparr>"

definition good_mem :: "frag_mem \<Rightarrow> bool" where
  "good_mem mm \<longleftrightarrow> mem_copy mm \<and> mem_node mm \<and> mem_full mm"

fun process_all :: "frag_mem \<Rightarrow> u8 \<Rightarrow> fragment list \<Rightarrow> frag_sys \<Rightarrow> frag_sys option" where
  "process_all mm proto [] s = Some s"
| "process_all mm proto (f # fs) s = Option.bind (pico_ipv4_process_frag mm f proto s) (process_all mm proto fs)"

lemma process_next:
  assumes "good_mem mm" "fragments (ipv4_frags s) \<noteq> []" "ucast (hdr_id (ff_net f)) = cur_frag_id (ipv4_frags s)"
    "pico_ipv4_frag_match (stored f) (hd (fragments (ipv4_frags s)))"
  shows "pico_ipv4_process_frag mm f proto s = pico_fragments_check_complete True proto PICO_PROTO_IPV4
    (s\<lparr>ipv4_frags := (ipv4_frags s)\<lparr>fragments := tinsert (frag_compare PICO_PROTO_IPV4) (stored f) (fragments (ipv4_frags s))\<rparr>\<rparr>)"
  using assms by (simp add: pico_ipv4_process_frag_def Let_def stored_def good_mem_def)

lemma process_first:
  assumes "good_mem mm" "fragments (ipv4_frags s) = []"
    "cur_frag_id (ipv4_frags s) \<noteq> 0 \<longrightarrow> ucast (hdr_id (ff_net f)) \<noteq> cur_frag_id (ipv4_frags s)"
  shows "pico_ipv4_process_frag mm f proto s = pico_fragments_check_complete True proto PICO_PROTO_IPV4
    (s\<lparr>ipv4_frags := \<lparr>fragments = [stored f], cur_frag_id = ucast (hdr_id (ff_net f)), fragments_timer = timer_id mm\<rparr>,
       frag_log := frag_log s @ [Timer_add PICO_PROTO_IPV4 PICO_IPV4_FRAG_TIMEOUT]\<rparr>)"
proof -
  obtain fr cu ti where st: "ipv4_frags s = \<lparr>fragments = fr, cur_frag_id = cu, fragments_timer = ti\<rparr>"
    by (cases "ipv4_frags s")
  show ?thesis
    using assms st
    by (cases s) (auto simp: pico_ipv4_process_frag_def Let_def stored_def good_mem_def pico_ipv4_frag_timer_on_def
        tinsert_def tfind_def)
qed

lemma tinsert_filter:
  assumes ti: "tiles nt b fs" and f: "f \<in> set fs" "\<not> P f"
  shows "tinsert (frag_compare nt) f (filter P fs) = filter (\<lambda>g. P g \<or> g = f) fs"
proof (rule tsorted_unique [OF frag_order.tree_order_axioms])
  have so: "tsorted (frag_compare nt) (filter Q fs)" for Q
    using tiles_sorted [OF ti] by (simp add: tsorted_def sorted_wrt_filter)
  show "tsorted (frag_compare nt) (tinsert (frag_compare nt) f (filter P fs))"
    by (rule frag_order.tsorted_tinsert [OF so])
  show "tsorted (frag_compare nt) (filter (\<lambda>g. P g \<or> g = f) fs)" by (rule so)
  have "frag_compare nt g f \<noteq> 0" if "g \<in> set fs" "g \<noteq> f" for g
  proof -
    have "frag_compare nt g f < 0 \<or> frag_compare nt f g < 0"
      using tiles_sorted [OF ti] that f(1) by (induction fs) (auto simp: tsorted_def)
    then show ?thesis using frag_order.cmp_anti [of nt f g] by auto
  qed
  then have "tfind (frag_compare nt) f (filter P fs) = None" using f(2) by (auto simp: frag_order.tfind_None)
  then show "set (tinsert (frag_compare nt) f (filter P fs)) = set (filter (\<lambda>g. P g \<or> g = f) fs)"
    using f by (auto simp: frag_order.set_tinsert)
qed

text \<open>The datagram: its tiles, a common header identification and addresses, and a size a 16-bit length holds.\<close>

definition datagram :: "u16 \<Rightarrow> bytes \<Rightarrow> bytes \<Rightarrow> fragment list \<Rightarrow> bool" where
  "datagram i sa da fs \<longleftrightarrow> tiles PICO_PROTO_IPV4 0 fs \<and> PICO_SIZE_IP4HDR + length (payload fs) < 65536 \<and>
     (\<forall>f\<in>set fs. PICO_SIZE_IP4HDR \<le> length (ff_net f) \<and> hdr_id (ff_net f) = i \<and> ip4_src (ff_net f) = sa \<and> ip4_dst (ff_net f) = da)"

definition delivered :: "u8 \<Rightarrow> fragment list \<Rightarrow> frag_event" where
  "delivered proto fs = Receive proto (take PICO_SIZE_IP4HDR (ff_net (hd fs))) (payload fs) (ff_dev (hd fs))"

lemma complete_ok:
  assumes dg: "datagram i sa da fs" and fs: "fragments (ipv4_frags s) = fs"
  shows "pico_fragments_complete True (length (payload fs)) proto PICO_PROTO_IPV4 s =
    Some (s\<lparr>ipv4_frags := \<lparr>fragments = [], cur_frag_id = 0, fragments_timer = 0\<rparr>,
      frag_log := frag_log s @ [delivered proto fs, Timer_cancel (fragments_timer (ipv4_frags s))]\<rparr>)"
proof -
  obtain first rest where fr: "fs = first # rest" using dg by (cases fs) (auto simp: datagram_def)
  have h: "PICO_SIZE_IP4HDR \<le> length (ff_net first)" and sz: "PICO_SIZE_IP4HDR + length (payload fs) < 65536"
    using dg fr by (auto simp: datagram_def)
  obtain tail where r: "reassemble PICO_SIZE_IP4HDR (length (payload fs)) fs =
      Some (take PICO_SIZE_IP4HDR (ff_net first) @ payload fs @ tail)"
    using reassemble_ok [OF fr h sz] by blast
  have n: "unat (of_nat (length (payload fs)) :: u16) = length (payload fs)" using sz by (intro unat_u16) simp
  have l: "length (take PICO_SIZE_IP4HDR (ff_net first)) = PICO_SIZE_IP4HDR" using h by simp
  show ?thesis
    unfolding pico_fragments_complete_def pico_ipv4_fragments_complete_def fs Let_def r n
    using l by (simp add: delivered_def fr)
qed

lemma check_subset:
  assumes dg: "datagram i sa da fs" and fs: "fragments (ipv4_frags s) = filter P fs"
  shows "pico_fragments_check_complete True proto PICO_PROTO_IPV4 s =
    (if \<forall>f\<in>set fs. P f then Some (s\<lparr>ipv4_frags := \<lparr>fragments = [], cur_frag_id = 0, fragments_timer = 0\<rparr>,
      frag_log := frag_log s @ [delivered proto fs, Timer_cancel (fragments_timer (ipv4_frags s))]\<rparr>) else Some s)"
proof -
  have cl: "complete_length PICO_PROTO_IPV4 0 (filter P fs) =
      (if \<forall>f\<in>set fs. P f then Some (length (payload fs)) else None)"
    using dg complete_length_filter [of PICO_PROTO_IPV4 0 fs P] by (simp add: datagram_def)
  show ?thesis
  proof (cases "\<forall>f\<in>set fs. P f")
    case True
    then have "fragments (ipv4_frags s) = fs" using fs by (simp add: filter_id_conv)
    from complete_ok [OF dg this] show ?thesis
      using True cl fs by (simp add: pico_fragments_check_complete_def tree_of_def)
  next
    case False
    show ?thesis
      unfolding if_not_P [OF False]
      using cl [unfolded if_not_P [OF False]] fs by (simp add: pico_fragments_check_complete_def tree_of_def)
  qed
qed

text \<open>The state after some, but not all, of the fragments.\<close>

definition partial :: "u16 \<Rightarrow> u32 \<Rightarrow> fragment list \<Rightarrow> fragment set \<Rightarrow> frag_sys \<Rightarrow> bool" where
  "partial i tid fs S s \<longleftrightarrow> fragments (ipv4_frags s) = filter (\<lambda>f. f \<in> S) fs \<and> S \<noteq> {} \<and> S \<subseteq> set fs \<and>
     cur_frag_id (ipv4_frags s) = ucast i \<and> fragments_timer (ipv4_frags s) = tid"

lemma stored_net [simp]: "ff_net (stored f) = ff_net f"
  by (simp add: stored_def)

lemma distinct_map_tl: "distinct (map h (x # xs)) \<Longrightarrow> h x \<notin> set (map h xs)"
  by simp

lemma run_rest:
  assumes dg: "datagram i sa da fs" and mm: "good_mem mm"
  shows "partial i tid fs S s \<Longrightarrow> distinct (map stored gs) \<Longrightarrow> set (map stored gs) = set fs - S \<Longrightarrow> gs \<noteq> [] \<Longrightarrow>
    process_all mm proto gs s = Some (s\<lparr>ipv4_frags := \<lparr>fragments = [], cur_frag_id = 0, fragments_timer = 0\<rparr>,
      frag_log := frag_log s @ [delivered proto fs, Timer_cancel tid]\<rparr>)"
proof (induction gs arbitrary: S s)
  case (Cons g gs)
  let ?f = "stored g"
  have f: "?f \<in> set fs" "?f \<notin> S" using Cons.prems(3) by auto
  have ti: "tiles PICO_PROTO_IPV4 0 fs" using dg by (simp add: datagram_def)
  have fr: "fragments (ipv4_frags s) = filter (\<lambda>f. f \<in> S) fs" and ne: "S \<noteq> {}" "S \<subseteq> set fs"
      and id: "cur_frag_id (ipv4_frags s) = ucast i" "fragments_timer (ipv4_frags s) = tid"
    using Cons.prems(1) by (auto simp: partial_def)
  have fne: "fragments (ipv4_frags s) \<noteq> []" using ne unfolding fr by (auto simp: filter_empty_conv)
  then have "hd (fragments (ipv4_frags s)) \<in> set fs" using hd_in_set [OF fne] unfolding fr by auto
  then have ma: "pico_ipv4_frag_match ?f (hd (fragments (ipv4_frags s)))" "ucast (hdr_id (ff_net g)) = cur_frag_id (ipv4_frags s)"
    using dg f(1) id unfolding datagram_def pico_ipv4_frag_match_def by (metis stored_net)+
  let ?s1 = "s\<lparr>ipv4_frags := (ipv4_frags s)\<lparr>fragments := filter (\<lambda>h. h \<in> insert ?f S) fs\<rparr>\<rparr>"
  have "tinsert (frag_compare PICO_PROTO_IPV4) ?f (filter (\<lambda>f. f \<in> S) fs) = filter (\<lambda>h. h \<in> insert ?f S) fs"
    using tinsert_filter [OF ti f(1), of "\<lambda>f. f \<in> S"] f(2) by (simp add: disj_commute)
  then have p: "pico_ipv4_process_frag mm g proto s = pico_fragments_check_complete True proto PICO_PROTO_IPV4 ?s1"
    using process_next [OF mm fne ma(2,1)] fr by simp
  have c: "pico_fragments_check_complete True proto PICO_PROTO_IPV4 ?s1 =
    (if \<forall>f\<in>set fs. f \<in> insert ?f S then Some (?s1\<lparr>ipv4_frags := \<lparr>fragments = [], cur_frag_id = 0, fragments_timer = 0\<rparr>,
      frag_log := frag_log ?s1 @ [delivered proto fs, Timer_cancel (fragments_timer (ipv4_frags ?s1))]\<rparr>) else Some ?s1)"
    by (rule check_subset [OF dg]) simp
  have nx: "set (map stored gs) = set fs - insert ?f S" 
    using Cons.prems(3) f(2) distinct_map_tl [OF Cons.prems(2)] by (simp only: list.map list.set) blast
  show ?case
  proof (cases "gs = []")
    case True
    then have "\<forall>f\<in>set fs. f \<in> insert ?f S" using nx by auto
    then show ?thesis using p c True id by simp
  next
    case False
    then have "set (map stored gs) \<noteq> {}" by simp
    then have "\<not> (\<forall>f\<in>set fs. f \<in> insert ?f S)" unfolding nx by blast
    then have p1: "pico_ipv4_process_frag mm g proto s = Some ?s1" using p c by (simp only: if_False)
    have "partial i tid fs (insert ?f S) ?s1" using f(1) ne id by (simp add: partial_def)
    from Cons.IH [OF this _ nx False] have "process_all mm proto gs ?s1 =
      Some (?s1\<lparr>ipv4_frags := \<lparr>fragments = [], cur_frag_id = 0, fragments_timer = 0\<rparr>,
        frag_log := frag_log ?s1 @ [delivered proto fs, Timer_cancel tid]\<rparr>)"
      using Cons.prems(2) by simp
    then show ?thesis using p1 by simp
  qed
qed simp

text \<open>C7: Reassembly works in any order of arrival: when the fragments of a datagram of at most 65535 bytes arrive, each
  once and in any order, on an idle reassembler, exactly one datagram is handed to the transport layer, with the first
  fragment's header and the concatenated payloads, and the reassembler is idle again.\<close>

theorem pico_ipv4_process_frag_reassembles:
  assumes dg: "datagram i sa da fs" and mm: "good_mem mm" and gs: "distinct (map stored gs)" "set (map stored gs) = set fs"
    and idle: "fragments (ipv4_frags s) = []" "cur_frag_id (ipv4_frags s) \<noteq> 0 \<longrightarrow> ucast i \<noteq> cur_frag_id (ipv4_frags s)"
  shows "process_all mm proto gs s = Some (s\<lparr>ipv4_frags := \<lparr>fragments = [], cur_frag_id = 0, fragments_timer = 0\<rparr>,
    frag_log := frag_log s @ [Timer_add PICO_PROTO_IPV4 PICO_IPV4_FRAG_TIMEOUT,
      Receive proto (take PICO_SIZE_IP4HDR (ff_net (hd fs))) (payload fs) (ff_dev (hd fs)), Timer_cancel (timer_id mm)]\<rparr>)"
proof -
  obtain g gs' where g: "gs = g # gs'" using gs(2) dg by (cases gs) (auto simp: datagram_def)
  have f: "stored g \<in> set fs" using gs(2) g by auto
  have i: "hdr_id (ff_net g) = i" using dg f unfolding datagram_def by (metis stored_net)
  let ?s1 = "s\<lparr>ipv4_frags := \<lparr>fragments = [stored g], cur_frag_id = ucast i, fragments_timer = timer_id mm\<rparr>,
    frag_log := frag_log s @ [Timer_add PICO_PROTO_IPV4 PICO_IPV4_FRAG_TIMEOUT]\<rparr>"
  have p: "pico_ipv4_process_frag mm g proto s = pico_fragments_check_complete True proto PICO_PROTO_IPV4 ?s1"
    using process_first [OF mm idle(1), of g proto] idle(2) i by simp
  have "distinct fs" using order_distinct [OF frag_order.tree_order_axioms tiles_sorted] dg by (auto simp: datagram_def)
  then have fl: "filter (\<lambda>h. h \<in> {stored g}) fs = [stored g]" using f by (induction fs) (auto simp: filter_empty_conv)
  have c: "pico_fragments_check_complete True proto PICO_PROTO_IPV4 ?s1 =
    (if \<forall>f\<in>set fs. f \<in> {stored g} then Some (?s1\<lparr>ipv4_frags := \<lparr>fragments = [], cur_frag_id = 0, fragments_timer = 0\<rparr>,
      frag_log := frag_log ?s1 @ [delivered proto fs, Timer_cancel (fragments_timer (ipv4_frags ?s1))]\<rparr>) else Some ?s1)"
    using fl by (intro check_subset [OF dg]) simp
  show ?thesis
  proof (cases "gs' = []")
    case True
    then have "\<forall>f\<in>set fs. f \<in> {stored g}" using gs(2) g by auto
    then show ?thesis using p c True g by (simp add: delivered_def)
  next
    case False
    have nx: "set (map stored gs') = set fs - {stored g}"
      using gs(2) distinct_map_tl [OF gs(1) [unfolded g]] unfolding g by (simp only: list.map list.set) blast
    have "set (map stored gs') \<noteq> {}" using False by simp
    then have "\<not> (\<forall>f\<in>set fs. f \<in> {stored g})" unfolding nx by blast
    then have p1: "pico_ipv4_process_frag mm g proto s = Some ?s1" using p c by (simp only: if_False)
    have pa: "partial i (timer_id mm) fs {stored g} ?s1" using f fl by (simp add: partial_def)
    have "process_all mm proto gs' ?s1 = Some (?s1\<lparr>ipv4_frags := \<lparr>fragments = [], cur_frag_id = 0, fragments_timer = 0\<rparr>,
        frag_log := frag_log ?s1 @ [delivered proto fs, Timer_cancel (timer_id mm)]\<rparr>)"
      using run_rest [OF dg mm pa _ nx False] gs(1) g by simp
    then show ?thesis using p1 g by (simp add: delivered_def)
  qed
qed

text \<open>A datagram of three fragments of eight bytes each, and a fragment of the same datagram far beyond its end.\<close>

definition demo_frag :: "u16 \<Rightarrow> u8 \<Rightarrow> fragment" where
  "demo_frag fr b = \<lparr>ff_frag = 0,
     ff_net = [0x45, 0, 0, 28] @ bytes_of_u16 7 @ bytes_of_u16 (short_be fr) @ [64, 17, 0, 0] @ [10, 0, 0, 1] @ [10, 0, 0, 2],
     ff_transport = replicate 8 b, ff_dev = 1\<rparr>"

definition demo_mem :: frag_mem where
  "demo_mem = \<lparr>mem_copy = True, mem_node = True, mem_full = True, timer_id = 9\<rparr>"

definition idle_sys :: frag_sys where
  "idle_sys = \<lparr>ipv4_frags = \<lparr>fragments = [], cur_frag_id = 0, fragments_timer = 0\<rparr>,
     ipv6_frags = \<lparr>fragments = [], cur_frag_id = 0, fragments_timer = 0\<rparr>, frag_log = []\<rparr>"

definition demo_tiles :: "fragment list" where
  "demo_tiles = map stored [demo_frag 0x2000 1, demo_frag 0x2001 2, demo_frag 2 3]"

theorem pico_ipv4_process_frag_reassembles_witness:
  "\<exists>s. process_all demo_mem 17 [demo_frag 2 3, demo_frag 0x2000 1, demo_frag 0x2001 2] idle_sys = Some s \<and>
     fragments (ipv4_frags s) = [] \<and>
     frag_log s ! 1 = Receive 17 (take 20 (ff_net (demo_frag 0x2000 1))) (replicate 8 1 @ replicate 8 2 @ replicate 8 3) 1"
proof -
  have "tiles PICO_PROTO_IPV4 0 demo_tiles" "length (payload demo_tiles) = 24"
      "\<forall>f\<in>set demo_tiles. PICO_SIZE_IP4HDR \<le> length (ff_net f) \<and> hdr_id (ff_net f) = 7 \<and>
         ip4_src (ff_net f) = [10, 0, 0, 1] \<and> ip4_dst (ff_net f) = [10, 0, 0, 2]"
    by code_simp+
  then have dg: "datagram 7 [10, 0, 0, 1] [10, 0, 0, 2] demo_tiles" by (simp add: datagram_def PICO_SIZE_IP4HDR_def)
  have mm: "good_mem demo_mem" by code_simp
  have gs: "distinct (map stored [demo_frag 2 3, demo_frag 0x2000 1, demo_frag 0x2001 2])"
      "set (map stored [demo_frag 2 3, demo_frag 0x2000 1, demo_frag 0x2001 2]) = set demo_tiles"
    by code_simp+
  have idle: "fragments (ipv4_frags idle_sys) = []" "cur_frag_id (ipv4_frags idle_sys) = 0" by (simp_all add: idle_sys_def)
  have ev: "hd demo_tiles = stored (demo_frag 0x2000 1)" "payload demo_tiles = replicate 8 1 @ replicate 8 2 @ replicate 8 3"
      "ff_dev (stored (demo_frag 0x2000 1)) = 1" "PICO_SIZE_IP4HDR = 20" "frag_log idle_sys = []"
    by code_simp+
  show ?thesis
    using pico_ipv4_process_frag_reassembles [OF dg mm gs idle(1), of 17] idle(2) ev by simp
qed




end
