(* ===== verification/PicoTcp.thy ===== *)
theory PicoTcp
  imports PicoStack PicoTree
begin

text \<open>
  The state of a TCP socket, \<^verbatim>\<open>struct pico_socket_tcp\<close> of \<^verbatim>\<open>modules/pico_tcp.c\<close>, and its segment
  queues. A queue's tree is its list of segments in order, the contract the tree operations are
  proved to refine; \<^verbatim>\<open>pico_seq_compare\<close> is an order only within half of the sequence space, and
  the theory \<open>PicoTcpPool\<close> shows that the contract holds there.
\<close>

section \<open>Segments and queues\<close>

text \<open>
  An input segment (\<^verbatim>\<open>struct tcp_input_segment\<close>) or an outgoing frame: \<open>esize\<close> is what
  \<^verbatim>\<open>enqueue_segment_len\<close> returns for it, the payload's length or the frame's \<^verbatim>\<open>buffer_len\<close>. The time stamp, the
  mark of a selective acknowledgement, the header's flags and \<^verbatim>\<open>transport_flags_saved\<close> are the frame's.
\<close>

record tseg =
  seq :: u32
  payload :: bytes
  esize :: u16
  tstamp :: u64
  sacked :: bool
  hflags :: u8
  ts_saved :: bool

definition plen :: "tseg \<Rightarrow> nat" where "plen f = length (payload f)"

record tcpq =
  pool :: "tseg list"
  max_size :: u32
  size :: u32
  frames :: u32

definition segment_compare :: "tseg \<Rightarrow> tseg \<Rightarrow> int" where
  "segment_compare a b = pico_seq_compare (seq a) (seq b)"

definition peek_segment :: "tcpq \<Rightarrow> u32 \<Rightarrow> tseg option" where
  "peek_segment tq s = List.find (\<lambda>x. pico_seq_compare (seq x) s = 0) (pool tq)"

definition first_segment :: "tcpq \<Rightarrow> tseg option" where
  "first_segment tq = (case pool tq of [] \<Rightarrow> None | x # _ \<Rightarrow> Some x)"

definition next_segment :: "tcpq \<Rightarrow> tseg \<Rightarrow> tseg option" where
  "next_segment tq cur = peek_segment tq (seq cur + of_nat (plen cur))"

text \<open>\<open>mem\<close>: the tree node can be allocated.\<close>

definition do_enqueue_segment :: "bool \<Rightarrow> tseg \<Rightarrow> u16 \<Rightarrow> tcpq \<Rightarrow> int \<times> tcpq" where
  "do_enqueue_segment mem f payload_len tq =
     (if size tq + ucast payload_len > max_size tq then (0, tq)
      else if tfind segment_compare f (pool tq) \<noteq> None \<or> \<not> mem then (0, tq)
      else (int (unat payload_len),
            tq\<lparr>pool := tinsert segment_compare f (pool tq), size := size tq + ucast payload_len,
               frames := (if payload_len > 0 then frames tq + 1 else frames tq)\<rparr>))"

definition pico_enqueue_segment :: "bool \<Rightarrow> tseg option \<Rightarrow> tcpq \<Rightarrow> int \<times> tcpq" where
  "pico_enqueue_segment mem fo tq =
     (case fo of
        None \<Rightarrow> (- 1, tq)
      | Some f \<Rightarrow> if esize f = 0 then (- 1, tq) else do_enqueue_segment mem f (esize f) tq)"

definition pico_discard_segment :: "tseg \<Rightarrow> tcpq \<Rightarrow> tcpq" where
  "pico_discard_segment f tq =
     (if tfind segment_compare f (pool tq) \<noteq> None
      then tq\<lparr>pool := tdelete segment_compare f (pool tq), size := size tq - ucast (esize f),
              frames := (if esize f > 0 then frames tq - 1 else frames tq)\<rparr>
      else tq)"

lemma seq_compare_refl [simp]: "pico_seq_compare a a = 0"
  by (simp add: pico_seq_compare_def)

lemma discard_shrinks: "cur \<in> set (pool q) \<Longrightarrow> length (pool (pico_discard_segment cur q)) < length (pool q)"
proof -
  assume c: "cur \<in> set (pool q)"
  then have "tfind segment_compare cur (pool q) \<noteq> None"
    by (auto simp: tfind_def find_None_iff segment_compare_def)
  moreover have "length (filter (\<lambda>x. segment_compare x cur \<noteq> 0) (pool q)) < length (pool q)"
    by (rule length_filter_less [OF c]) (simp add: segment_compare_def)
  ultimately show ?thesis by (simp add: pico_discard_segment_def tdelete_def)
qed

text \<open>A segment to look at next is always one of the pool, so the loop ends with it.\<close>

function release_loop :: "tseg option \<Rightarrow> u32 \<Rightarrow> tcpq \<Rightarrow> nat \<Rightarrow> nat \<times> tcpq" where
  "release_loop h s q ret =
     (case h of
        None \<Rightarrow> (ret, q)
      | Some cur \<Rightarrow>
          if cur \<in> set (pool q) \<and> pico_seq_compare (seq cur + of_nat (plen cur)) s \<le> 0
          then release_loop (next_segment q cur) s (pico_discard_segment cur q) (ret + 1)
          else (ret, q))"
  by pat_completeness auto

termination
  by (relation "measure (\<lambda>(h, s, q, ret). length (pool q))") (auto intro: discard_shrinks)

declare release_loop.simps [simp del]

definition release_until :: "u32 \<Rightarrow> tcpq \<Rightarrow> nat \<times> tcpq" where
  "release_until s q = release_loop (first_segment q) s q 0"

text \<open>\<open>input\<close> is \<^verbatim>\<open>IS_INPUT_QUEUE\<close>. The result carries the count and the time stamp of the exactly acknowledged frame.\<close>

fun release_all_loop :: "bool \<Rightarrow> u32 \<Rightarrow> tseg list \<Rightarrow> tcpq \<Rightarrow> nat \<Rightarrow> u64 \<Rightarrow> nat \<times> u64 \<times> tcpq" where
  "release_all_loop inq s [] q ret ts = (ret, ts, q)"
| "release_all_loop inq s (f # fs) q ret ts =
     (let r = pico_seq_compare (seq f + of_nat (plen f)) s in
      if r \<le> 0
      then release_all_loop inq s fs (pico_discard_segment f q) (ret + 1) (if r = 0 \<and> \<not> inq then tstamp f else ts)
      else (ret, ts, q))"

definition release_all_until :: "bool \<Rightarrow> u32 \<Rightarrow> tcpq \<Rightarrow> nat \<times> u64 \<times> tcpq" where
  "release_all_until inq s q = release_all_loop inq s (pool q) q 0 0"

section \<open>The socket\<close>

text \<open>
  \<^verbatim>\<open>struct pico_socket_tcp\<close> with the fields of the generic socket that TCP uses: its state, the pending events,
  the no-delay option, whether it has a callback and a parent, and the connections waiting for an accept. Fields the code never reads
  (\<^verbatim>\<open>scale_ok\<close>, \<^verbatim>\<open>dupacks\<close>) and the bits \<^verbatim>\<open>jumbo\<close> copies into headers are left out.
\<close>

record pico_socket_tcp =
  state :: u16
  ev_pending :: u16
  nodelay :: bool
  has_wakeup :: bool
  has_parent :: bool
  number_of_pending_conn :: u16
  max_backlog :: u16
  tcpq_in :: tcpq
  tcpq_out :: tcpq
  tcpq_hold :: tcpq
  snd_nxt :: u32
  snd_last :: u32
  snd_old_ack :: u32
  snd_retry :: u32
  snd_last_out :: u32
  avg_rtt :: u32
  rttvar :: u32
  rto :: u32
  in_flight :: u32
  retrans_tmr :: u32
  retrans_tmr_due :: u64
  cwnd_counter :: u16
  cwnd :: u16
  ssthresh :: u16
  recv_wnd :: u16
  recv_wnd_scale :: u16
  rcv_nxt :: u32
  rcv_ackd :: u32
  rcv_processed :: u32
  wnd :: u16
  wnd_scale :: u16
  remote_closed :: bool
  ts_nxt :: u32
  mss :: u16
  sack_ok :: bool
  ts_ok :: bool
  mss_ok :: bool
  sacks :: "(u32 \<times> u32) list"
  linger_timeout :: u32
  x_mode :: u8
  backoff :: u8
  localZeroWindow :: bool
  keepalive_tmr :: u32
  ack_timestamp :: u64
  ka_time :: u32
  ka_intvl :: u32
  ka_probes :: u32
  ka_retries_count :: u32
  fin_tmr :: u32

definition pico_tcp_queue_in_is_empty :: "pico_socket_tcp \<Rightarrow> bool" where
  "pico_tcp_queue_in_is_empty t \<longleftrightarrow> frames (tcpq_in t) = 0"

definition PICO_TCP_FIN :: u8 where "PICO_TCP_FIN = 0x01"
definition PICO_TCP_SYN :: u8 where "PICO_TCP_SYN = 0x02"
definition PICO_TCP_RST :: u8 where "PICO_TCP_RST = 0x04"
definition PICO_TCP_PSH :: u8 where "PICO_TCP_PSH = 0x08"
definition PICO_TCP_ACK :: u8 where "PICO_TCP_ACK = 0x10"

section \<open>Round-trip time and congestion window\<close>

definition PICO_TCP_RTO_MIN :: u32 where "PICO_TCP_RTO_MIN = 70"
definition PICO_TCP_RTO_MAX :: u32 where "PICO_TCP_RTO_MAX = 120000"

definition rto_set :: "u32 \<Rightarrow> pico_socket_tcp \<Rightarrow> pico_socket_tcp" where
  "rto_set r t =
     (let r1 = (if r < PICO_TCP_RTO_MIN then PICO_TCP_RTO_MIN else r);
          r2 = (if r1 > PICO_TCP_RTO_MAX then PICO_TCP_RTO_MAX else r1)
      in t\<lparr>rto := r2\<rparr>)"

definition time_diff :: "u64 \<Rightarrow> u64 \<Rightarrow> u16" where
  "time_diff a b = (if a \<ge> b then ucast (a - b) else ucast (b - a))"

definition tcp_rtt :: "u32 \<Rightarrow> pico_socket_tcp \<Rightarrow> pico_socket_tcp" where
  "tcp_rtt rtt t =
     (let avg = avg_rtt t; rvar = rttvar t in
      if avg = 0 then
        let t1 = t\<lparr>avg_rtt := rtt, rttvar := drop_bit 1 rtt\<rparr>
        in rto_set (avg_rtt t1 + push_bit 2 (rttvar t1)) t1
      else
        let d = avg_rtt t - rtt;
            var = (if d <s 0 then 0 - d else d);
            t1 = t\<lparr>rttvar := drop_bit 2 (push_bit 2 (rttvar t) - rvar + var)\<rparr>;
            t2 = t1\<lparr>avg_rtt := drop_bit 3 (push_bit 3 (avg_rtt t1) - avg + rtt)\<rparr>
        in rto_set (avg_rtt t2 + push_bit 2 (rttvar t2)) t2)"

definition PICO_TCP_LOOKAHEAD :: u8 where "PICO_TCP_LOOKAHEAD = 0"

definition tcp_congestion_control :: "pico_socket_tcp \<Rightarrow> pico_socket_tcp" where
  "tcp_congestion_control t =
     (if x_mode t > PICO_TCP_LOOKAHEAD then t
      else if cwnd t < ssthresh t then t\<lparr>cwnd := cwnd t + 1\<rparr>
      else
        let t1 = t\<lparr>cwnd_counter := cwnd_counter t + 1\<rparr> in
        if cwnd_counter t1 \<ge> cwnd t1 then t1\<lparr>cwnd := cwnd t1 + 1, cwnd_counter := 0\<rparr> else t1)"

definition tcp_ack_advance_una :: "u32 \<Rightarrow> pico_socket_tcp \<Rightarrow> nat \<times> u64 \<times> pico_socket_tcp" where
  "tcp_ack_advance_una ackn t =
     (let (ret, ts, q) = release_all_until False ackn (tcpq_out t);
          t1 = t\<lparr>tcpq_out := q\<rparr>
      in (ret, ts, if ret > 0 then t1\<lparr>ev_pending := ev_pending t1 OR 2\<rparr> else t1))"

end
