(* ===== verification/PicoTcpPool.thy ===== *)
theory PicoTcpPool
  imports PicoTcp PicoTreeCong
begin

text \<open>
  The segment queues of \<^verbatim>\<open>modules/pico_tcp.c\<close> are trees of \<^verbatim>\<open>stack/pico_tree.c\<close> ordered by
  \<^verbatim>\<open>pico_seq_compare\<close>, which is not transitive: it compares within half of the sequence space. As long as the
  queued segments and the given one lie in such a half, the tree does what the list of \<open>PicoTcp\<close> does.
\<close>

section \<open>The order within a window\<close>

definition offset :: "u32 \<Rightarrow> tseg \<Rightarrow> nat" where "offset b x = unat (seq x - b)"

definition window_cmp :: "u32 \<Rightarrow> tseg \<Rightarrow> tseg \<Rightarrow> int" where
  "window_cmp b x y = int (offset b x) - int (offset b y)"

definition in_window :: "u32 \<Rightarrow> tseg \<Rightarrow> bool" where "in_window b x \<longleftrightarrow> offset b x < 2 ^ 31"

interpretation window_order: tree_order "window_cmp b" for b
  by unfold_locales (auto simp: window_cmp_def)

lemma compare_in_window:
  assumes "in_window b x" "in_window b y"
  shows "segment_compare x y = window_cmp b x y"
proof -
  have s: "seq z = b + of_nat (offset b z)" for z by (simp add: offset_def)
  have "pico_seq_compare (b + of_nat (offset b x)) (b + of_nat (offset b y)) = int (offset b x) - int (offset b y)"
    using assms unfolding in_window_def by (rule seq_compare_window)
  then show ?thesis unfolding segment_compare_def window_cmp_def by (simp flip: s)
qed

section \<open>The tree of a queue\<close>

text \<open>Tree \<open>m\<close> of shape \<open>t\<close> holds the segments of a pool, in order from a base.\<close>

definition pool_tree :: "u32 \<Rightarrow> tseg pico_tree \<Rightarrow> nat tree \<Rightarrow> tseg list \<Rightarrow> bool" where
  "pool_tree b m t xs \<longleftrightarrow> is_tree m t \<and> keys m t = xs \<and> tsorted (window_cmp b) xs \<and> (\<forall>x\<in>set xs. in_window b x)"

text \<open>C8: A TCP segment queue, a red-black tree ordered by the wrapping comparison of sequence numbers, finds, inserts and
  deletes exactly as the sorted list of its segments does, and keeps their order, as long as all of them lie
  within half of the sequence space, wherever in it that half begins.
\<close>

theorem segment_tree_refines_list:
  assumes p: "pool_tree b m t xs" and f: "in_window b f" and n: "n \<noteq> LEAF" "n \<notin> set_tree t"
  shows "pico_tree_findKey segment_compare m f = Some (tfind segment_compare f xs) \<and>
    (case tfind segment_compare f xs of
       Some x \<Rightarrow> pico_tree_insert segment_compare (Some n) f m = Some (AlreadyIn x, m) \<and>
         (\<exists>d m' t'. pico_tree_delete segment_compare f m = Some (Some (x, d), m') \<and>
            pool_tree b m' t' (tdelete segment_compare f xs) \<and> set_tree t' = set_tree t - {d})
     | None \<Rightarrow> pico_tree_delete segment_compare f m = Some (None, m) \<and>
         (\<exists>m' t'. pico_tree_insert segment_compare (Some n) f m = Some (Inserted, m') \<and>
            pool_tree b m' t' (tinsert segment_compare f xs) \<and> set_tree t' = insert n (set_tree t)))"
proof -
  have it: "is_tree m t" and k: "keys m t = xs" and so: "tsorted (window_cmp b) (keys m t)" and w: "\<And>x. x \<in> set xs \<Longrightarrow> in_window b x"
    using p by (auto simp: pool_tree_def)
  have e: "segment_compare x f = window_cmp b x f" "segment_compare f x = window_cmp b f x" if "x \<in> set xs" for x
    using compare_in_window w [OF that] f by auto
  have tf: "tfind segment_compare f xs = tfind (window_cmp b) f xs" using e(1) by (rule tfind_cong)
  have ti: "tinsert segment_compare f xs = tinsert (window_cmp b) f xs" using e(1) by (rule tinsert_cong)
  have td: "tdelete segment_compare f xs = tdelete (window_cmp b) f xs" using e(1) by (rule tdelete_cong)
  have fi: "pico_tree_findKey segment_compare m f = pico_tree_findKey (window_cmp b) m f"
    using e k by (intro findKey_cong [OF it]) auto
  have ins: "pico_tree_insert segment_compare (Some n) f m = pico_tree_insert (window_cmp b) (Some n) f m"
    using e k n by (intro insert_cong [OF it]) auto
  have del: "pico_tree_delete segment_compare f m = pico_tree_delete (window_cmp b) f m"
    using e k by (intro delete_cong [OF it]) auto
  note fk = window_order.findKey_ok [OF it so, of f]
  show ?thesis
  proof (cases "tfind (window_cmp b) f xs")
    case None
    obtain m' t' where i: "pico_tree_insert (window_cmp b) (Some n) f m = Some (Inserted, m')" "is_tree m' t'"
        "keys m' t' = tinsert (window_cmp b) f xs" "set_tree t' = insert n (set_tree t)"
      using window_order.insert_new [OF it so _ n, of f] None k by auto
    have "pool_tree b m' t' (tinsert (window_cmp b) f xs)"
      using i window_order.tsorted_tinsert [OF so, of f] k w f
      by (auto simp: pool_tree_def tinsert_def dest: set_takeWhileD set_dropWhileD)
    then show ?thesis
      using i fk None window_order.delete_absent [OF it so, of f] k unfolding fi ins del tf ti td by auto
  next
    case (Some x)
    have "root m \<noteq> LEAF" using it Some k repr_root by (cases t) (auto simp: is_tree_def keys_def tfind_def)
    then have i: "pico_tree_insert (window_cmp b) (Some n) f m = Some (AlreadyIn x, m)"
      using fk Some k by (simp add: pico_tree_insert_def)
    obtain d m' t' where d: "pico_tree_delete (window_cmp b) f m = Some (Some (x, d), m')" "is_tree m' t'"
        "keys m' t' = tdelete (window_cmp b) f xs" "set_tree t' = set_tree t - {d}"
      using window_order.delete_found [OF it so, of f x] Some k by auto
    have "pool_tree b m' t' (tdelete (window_cmp b) f xs)"
      using d window_order.tsorted_tdelete [OF so, of f] k w by (auto simp: pool_tree_def tdelete_def)
    then show ?thesis using i d fk Some k unfolding fi ins del tf ti td by auto
  qed
qed

text \<open>Segments before and after the wrap-around, base just below it.\<close>

definition seg_at :: "u32 \<Rightarrow> tseg" where "seg_at s = \<lparr>seq = s, payload = [0], esize = 1, tstamp = 0, sacked = False, hflags = 0, ts_saved = False\<rparr>"

definition one_segment :: "tseg pico_tree" where
  "one_segment = \<lparr>root = 1, keyValue = (\<lambda>_. seg_at 0xFFFFFFFE), parent = (\<lambda>_. LEAF), leftChild = (\<lambda>_. LEAF),
     rightChild = (\<lambda>_. LEAF), color = (\<lambda>_. BLACK)\<rparr>"

lemma one_segment_pool: "pool_tree 0xFFFFFFF0 one_segment (Node Leaf 1 Leaf) [seg_at 0xFFFFFFFE]"
  by (simp add: one_segment_def pool_tree_def is_tree_def leaf_ok_def keys_def tsorted_def in_window_def offset_def seg_at_def)

theorem segment_tree_refines_list_witness:
  "\<exists>m' t'. pico_tree_insert segment_compare (Some 2) (seg_at 1) one_segment = Some (Inserted, m') \<and>
     pool_tree 0xFFFFFFF0 m' t' [seg_at 0xFFFFFFFE, seg_at 1]"
proof -
  have w: "in_window 0xFFFFFFF0 (seg_at 1)" by (simp add: in_window_def offset_def seg_at_def)
  have c: "segment_compare (seg_at 0xFFFFFFFE) (seg_at 1) = - 3" by (simp add: segment_compare_def seg_at_def pico_seq_compare_def)
  then have "tfind segment_compare (seg_at 1) [seg_at 0xFFFFFFFE] = None"
    "tinsert segment_compare (seg_at 1) [seg_at 0xFFFFFFFE] = [seg_at 0xFFFFFFFE, seg_at 1]"
    by (simp_all add: tfind_def tinsert_def)
  then show ?thesis using segment_tree_refines_list [OF one_segment_pool w, of 2] by auto
qed

end
