(* ===== verification/PicoTcpOptions.thy ===== *)
theory PicoTcpOptions
  imports PicoTcp
begin

text \<open>
  TCP options, \<^verbatim>\<open>modules/pico_tcp.c\<close>: their size, how they are written into a header and how a received
  header's are parsed. Reading past the end of the segment is \<open>Oob\<close>; the parsing loop has fuel, and
  \<open>Loop\<close> means it is used up, which for a body that returns it never is when there is one unit per byte.
\<close>

section \<open>Writing\<close>

definition PICO_TCP_OPTION_END :: u8 where "PICO_TCP_OPTION_END = 0"
definition PICO_TCP_OPTION_NOOP :: u8 where "PICO_TCP_OPTION_NOOP = 1"
definition PICO_TCP_OPTION_MSS :: u8 where "PICO_TCP_OPTION_MSS = 2"
definition PICO_TCP_OPTION_WS :: u8 where "PICO_TCP_OPTION_WS = 3"
definition PICO_TCP_OPTION_SACK_OK :: u8 where "PICO_TCP_OPTION_SACK_OK = 4"
definition PICO_TCP_OPTION_SACK :: u8 where "PICO_TCP_OPTION_SACK = 5"
definition PICO_TCP_OPTION_TIMESTAMP :: u8 where "PICO_TCP_OPTION_TIMESTAMP = 8"

lemmas option_kinds = PICO_TCP_OPTION_END_def PICO_TCP_OPTION_NOOP_def PICO_TCP_OPTION_MSS_def PICO_TCP_OPTION_WS_def
  PICO_TCP_OPTION_SACK_OK_def PICO_TCP_OPTION_SACK_def PICO_TCP_OPTION_TIMESTAMP_def

text \<open>The size with SYN counts the number of the SACK-permitted option, 4, instead of its length, 2.\<close>

definition tcp_options_size :: "pico_socket_tcp \<Rightarrow> u8 \<Rightarrow> nat" where
  "tcp_options_size t flags =
     (let base = (if flags AND PICO_TCP_SYN \<noteq> 0 then 4 + 4 + 3 + 10
                  else 3 + (if ts_ok t then 10 else 0) + 1);
          sz = base + (if flags AND PICO_TCP_ACK \<noteq> 0 \<and> sack_ok t \<and> sacks t \<noteq> [] then 2 + 8 * length (sacks t) else 0)
      in (sz + 3) div 4 * 4 mod 65536)"

definition tcp_add_sack_option :: "pico_socket_tcp \<Rightarrow> u8 \<Rightarrow> bytes \<times> pico_socket_tcp" where
  "tcp_add_sack_option t flags =
     (if flags AND PICO_TCP_ACK \<noteq> 0 \<and> sack_ok t \<and> sacks t \<noteq> []
      then ([PICO_TCP_OPTION_SACK, of_nat (2 + 8 * length (sacks t))] @
              concat (map (\<lambda>(l, r). bytes_of_u32 l @ bytes_of_u32 r) (sacks t)), t\<lparr>sacks := []\<rparr>)
      else ([], t))"

text \<open>\<open>now\<close> is \<^verbatim>\<open>TCP_TIME\<close>. The area is filled with no-ops first; \<open>None\<close> is a write past its end.\<close>

definition tcp_add_options :: "u32 \<Rightarrow> pico_socket_tcp \<Rightarrow> u8 \<Rightarrow> nat \<Rightarrow> (bytes \<times> pico_socket_tcp) option" where
  "tcp_add_options now t flags optsiz =
     (let tsval = long_be now; tsecr = long_be (ts_nxt t);
          syn = (if flags AND PICO_TCP_SYN \<noteq> 0
                 then [PICO_TCP_OPTION_MSS, 4, ucast (drop_bit 8 (mss t)) AND 0xFF, ucast (mss t) AND 0xFF,
                       PICO_TCP_OPTION_SACK_OK, 2] else []);
          ws = [PICO_TCP_OPTION_WS, 3, ucast (wnd_scale t)];
          tm = (if flags AND PICO_TCP_SYN \<noteq> 0 \<or> ts_ok t
                then [PICO_TCP_OPTION_TIMESTAMP, 10] @ bytes_of_u32 tsval @ bytes_of_u32 tsecr else []);
          (sk, t1) = tcp_add_sack_option t flags;
          body = syn @ ws @ tm @ sk;
          area = body @ replicate (optsiz - length body) PICO_TCP_OPTION_NOOP
      in if length body > optsiz then None
         else Some (if length body < optsiz then area[optsiz - 1 := PICO_TCP_OPTION_END] else area, t1))"

section \<open>Parsing\<close>

text \<open>SACK blocks mark the outgoing segments that start at their left edge.\<close>

fun tcp_sack_marker :: "tseg \<Rightarrow> u32 \<Rightarrow> u32 \<Rightarrow> nat \<Rightarrow> int \<times> tseg \<times> nat" where
  "tcp_sack_marker f start ende count =
     (let cmp = pico_seq_compare (seq f) start in
      if cmp > 0 then (0, f, count)
      else if cmp = 0 then (pico_seq_compare (seq f + of_nat (plen f)) ende, f\<lparr>sacked := True\<rparr>, count + 1)
      else (cmp, f, count))"

fun sack_loop :: "u32 \<Rightarrow> u32 \<Rightarrow> tseg list \<Rightarrow> nat \<Rightarrow> tseg list \<times> nat" where
  "sack_loop start ende [] count = ([], count)"
| "sack_loop start ende (f # fs) count =
     (case tcp_sack_marker f start ende count of (r, f', count') \<Rightarrow>
        if r = 0 then (f' # fs, count')
        else case sack_loop start ende fs count' of (fs', c) \<Rightarrow> (f' # fs', c))"

definition tcp_process_sack :: "u32 \<Rightarrow> u32 \<Rightarrow> pico_socket_tcp \<Rightarrow> pico_socket_tcp" where
  "tcp_process_sack start ende t =
     (let (fs, count) = sack_loop start ende (pool (tcpq_out t)) 0;
          c = of_nat count :: u16;
          t1 = t\<lparr>tcpq_out := (tcpq_out t)\<lparr>pool := fs\<rparr>\<rparr>
      in if x_mode t1 > PICO_TCP_LOOKAHEAD
         then t1\<lparr>in_flight := (if in_flight t1 > ucast c then in_flight t1 - ucast c else 0)\<rparr> else t1)"

datatype 'a parse = Loop | Oob | Parsed 'a

fun sack_blocks :: "bytes \<Rightarrow> nat \<Rightarrow> pico_socket_tcp \<Rightarrow> pico_socket_tcp parse" where
  "sack_blocks opt 0 t = Parsed t"
| "sack_blocks opt (Suc n) t =
     (if length opt < 8 then Oob
      else sack_blocks (drop 8 opt) n (tcp_process_sack (long_be (long_from opt)) (long_be (long_from (drop 4 opt))) t))"

definition tcp_rcv_sack :: "bytes \<Rightarrow> int \<Rightarrow> pico_socket_tcp \<Rightarrow> pico_socket_tcp parse" where
  "tcp_rcv_sack opt len t = (if len < 0 \<or> len mod 8 \<noteq> 0 then Parsed t else sack_blocks opt (nat len div 8) t)"

text \<open>The state of the parser: the socket, the frame's time stamp and the index. \<open>expect\<close> is \<^verbatim>\<open>tcpopt_len_check\<close>.\<close>

type_synonym popt = "pico_socket_tcp \<times> u32 \<times> nat"

definition expect :: "nat \<Rightarrow> nat \<Rightarrow> popt \<Rightarrow> popt parse \<Rightarrow> popt parse" where
  "expect len expected s k = (if len \<noteq> expected then (case s of (t, ts, i) \<Rightarrow> Parsed (t, ts, i + len - 2)) else k)"

definition tcp_parse_option_ws :: "bytes \<Rightarrow> nat \<Rightarrow> popt \<Rightarrow> popt parse" where
  "tcp_parse_option_ws opt len s = (case s of (t, ts, i) \<Rightarrow>
     expect len 3 s (if i < length opt then Parsed (t\<lparr>recv_wnd_scale := ucast (opt ! i)\<rparr>, ts, i + 1) else Oob))"

definition tcp_parse_option_sack_ok :: "u8 \<Rightarrow> nat \<Rightarrow> popt \<Rightarrow> popt parse" where
  "tcp_parse_option_sack_ok flags len s = (case s of (t, ts, i) \<Rightarrow>
     expect len 2 s (Parsed (if flags AND PICO_TCP_SYN \<noteq> 0 then t\<lparr>sack_ok := True\<rparr> else t, ts, i)))"

definition tcp_parse_option_mss :: "bytes \<Rightarrow> nat \<Rightarrow> popt \<Rightarrow> popt parse" where
  "tcp_parse_option_mss opt len s = (case s of (t, ts, i) \<Rightarrow>
     expect len 4 s
       (if i + 2 > length opt then Oob
        else let m = short_be (short_from (drop i opt)); t1 = t\<lparr>mss_ok := True\<rparr>
             in Parsed (if mss t1 > m then t1\<lparr>mss := m\<rparr> else t1, ts, i + 2)))"

definition tcp_parse_option_timestamp :: "bytes \<Rightarrow> nat \<Rightarrow> popt \<Rightarrow> popt parse" where
  "tcp_parse_option_timestamp opt len s = (case s of (t, ts, i) \<Rightarrow>
     expect len 10 s
       (if i + 8 > length opt then Oob
        else Parsed (t\<lparr>ts_ok := True, ts_nxt := long_be (long_from (drop i opt))\<rparr>,
                     long_be (long_from (drop (i + 4) opt)), i + 8)))"

definition parse_one :: "bytes \<Rightarrow> u8 \<Rightarrow> u8 \<Rightarrow> nat \<Rightarrow> popt \<Rightarrow> popt parse" where
  "parse_one opt flags type len s = (case s of (t, ts, i) \<Rightarrow>
     if type = PICO_TCP_OPTION_NOOP \<or> type = PICO_TCP_OPTION_END then Parsed s
     else if type = PICO_TCP_OPTION_WS then tcp_parse_option_ws opt len s
     else if type = PICO_TCP_OPTION_SACK_OK then tcp_parse_option_sack_ok flags len s
     else if type = PICO_TCP_OPTION_MSS then tcp_parse_option_mss opt len s
     else if type = PICO_TCP_OPTION_TIMESTAMP then tcp_parse_option_timestamp opt len s
     else if type = PICO_TCP_OPTION_SACK then
       (case tcp_rcv_sack (drop i opt) (int len - 2) t of
          Parsed t1 \<Rightarrow> Parsed (t1, ts, i + len - 2) | Loop \<Rightarrow> Loop | Oob \<Rightarrow> Oob)
     else Parsed (t, ts, i + len - 2))"

text \<open>\<open>opt\<close> is the segment after the fixed header, \<open>pay\<close> the offset of the payload in it, if the frame has one.\<close>

fun opt_loop :: "nat \<Rightarrow> bytes \<Rightarrow> u8 \<Rightarrow> int option \<Rightarrow> popt \<Rightarrow> popt parse" where
  "opt_loop fuel opt flags pay (t, ts, i) =
     (if \<not> i < length opt then Parsed (t, ts, i)
      else case fuel of
        0 \<Rightarrow> Loop
      | Suc n \<Rightarrow>
          let type = opt ! i;
              (len, i2) = (if i + 1 < length opt \<and> type > 1 then (unat (opt ! (i + 1)), i + 2) else (1, i + 1))
          in if (case pay of None \<Rightarrow> False | Some p \<Rightarrow> int i2 > p) then Parsed (t, ts, i2)
             else case parse_one opt flags type len (t, ts, i2) of
               Parsed s \<Rightarrow> opt_loop n opt flags pay s | Loop \<Rightarrow> Loop | Oob \<Rightarrow> Oob)"

declare opt_loop.simps [simp del]

definition tcp_parse_options :: "nat \<Rightarrow> bytes \<Rightarrow> u8 \<Rightarrow> int option \<Rightarrow> pico_socket_tcp \<Rightarrow> (pico_socket_tcp \<times> u32) parse" where
  "tcp_parse_options fuel opt flags pay t =
     (case opt_loop fuel opt flags pay (t, 0, 0) of Parsed (t1, ts, _) \<Rightarrow> Parsed (t1, ts) | Loop \<Rightarrow> Loop | Oob \<Rightarrow> Oob)"

section \<open>Well-formed options\<close>

datatype topt = End | Noop | Mss u16 | Ws u8 | SackOk | Tstamp u32 u32 | Sack "(u32 \<times> u32) list" | Other u8 bytes

fun encode :: "topt \<Rightarrow> bytes" where
  "encode End = [0]"
| "encode Noop = [1]"
| "encode (Mss m) = [2, 4] @ bytes_of_u16 (short_be m)"
| "encode (Ws s) = [3, 3, s]"
| "encode SackOk = [4, 2]"
| "encode (Tstamp a b) = [8, 10] @ bytes_of_u32 (long_be a) @ bytes_of_u32 (long_be b)"
| "encode (Sack bs) = [5, of_nat (2 + 8 * length bs)] @ concat (map (\<lambda>(l, r). bytes_of_u32 (long_be l) @ bytes_of_u32 (long_be r)) bs)"
| "encode (Other k d) = [k, of_nat (2 + length d)] @ d"

fun topt_ok :: "topt \<Rightarrow> bool" where
  "topt_ok (Sack bs) \<longleftrightarrow> length bs \<le> 31"
| "topt_ok (Other k d) \<longleftrightarrow> (k = 6 \<or> k = 7 \<or> k > 8) \<and> length d \<le> 253"
| "topt_ok _ \<longleftrightarrow> True"

fun apply_opt :: "u8 \<Rightarrow> topt \<Rightarrow> pico_socket_tcp \<times> u32 \<Rightarrow> pico_socket_tcp \<times> u32" where
  "apply_opt flags (Mss m) (t, ts) = ((if mss t > m then t\<lparr>mss_ok := True, mss := m\<rparr> else t\<lparr>mss_ok := True\<rparr>), ts)"
| "apply_opt flags (Ws s) (t, ts) = (t\<lparr>recv_wnd_scale := ucast s\<rparr>, ts)"
| "apply_opt flags SackOk (t, ts) = (if flags AND PICO_TCP_SYN \<noteq> 0 then t\<lparr>sack_ok := True\<rparr> else t, ts)"
| "apply_opt flags (Tstamp a b) (t, ts) = (t\<lparr>ts_ok := True, ts_nxt := a\<rparr>, b)"
| "apply_opt flags (Sack bs) (t, ts) = (fold (\<lambda>(l, r). tcp_process_sack l r) bs t, ts)"
| "apply_opt flags _ (t, ts) = (t, ts)"

definition encodes :: "topt list \<Rightarrow> bytes" where
  "encodes os = concat (map encode os)"

definition apply_opts :: "u8 \<Rightarrow> topt list \<Rightarrow> pico_socket_tcp \<times> u32 \<Rightarrow> pico_socket_tcp \<times> u32" where
  "apply_opts flags os s = fold (apply_opt flags) os s"

lemma sack_blocks_ok:
  "sack_blocks (concat (map (\<lambda>(l, r). bytes_of_u32 (long_be l) @ bytes_of_u32 (long_be r)) bs) @ rest) (length bs) t =
     Parsed (fold (\<lambda>(l, r). tcp_process_sack l r) bs t)"
proof (induction bs arbitrary: t)
  case (Cons b bs)
  obtain l r where b: "b = (l, r)" by (cases b)
  let ?tl = "concat (map (\<lambda>(l, r). bytes_of_u32 (long_be l) @ bytes_of_u32 (long_be r)) bs) @ rest"
  let ?opt = "bytes_of_u32 (long_be l) @ bytes_of_u32 (long_be r) @ ?tl"
  have "long_from ?opt = long_be l" "long_from (drop 4 ?opt) = long_be r" "drop 8 ?opt = ?tl" "\<not> length ?opt < 8"
    by (simp_all add: long_from_append)
  then show ?case using Cons.IH b by (simp del: sack_blocks.simps add: sack_blocks.simps(2))
qed simp

text \<open>One turn of the loop on an option of one byte, and on one with a length byte.\<close>

lemma loop_short:
  assumes "opt = pre @ k # rest" "k \<le> 1" "int (length pre) + 1 \<le> p"
  shows "opt_loop (Suc n) opt flags (Some p) (t, ts, length pre) = opt_loop n opt flags (Some p) (t, ts, length pre + 1)"
proof -
  have "k = 0 \<or> k = 1"
  proof -
    have "unat k \<le> 1" using assms(2) by (simp add: word_le_nat_alt)
    then have "unat k = 0 \<or> unat k = 1" by linarith
    then show ?thesis by (metis unat_0 unat_1 word_unat_eq_iff)
  qed
  then show ?thesis
    using assms by (subst opt_loop.simps) (auto simp: parse_one_def option_kinds)
qed

lemma loop_long:
  assumes "opt = pre @ k # l # rest" "k > 1" "int (length pre) + 2 \<le> p"
  shows "opt_loop (Suc n) opt flags (Some p) (t, ts, length pre) =
    (case parse_one opt flags k (unat l) (t, ts, length pre + 2) of
       Parsed s \<Rightarrow> opt_loop n opt flags (Some p) s | Loop \<Rightarrow> Loop | Oob \<Rightarrow> Oob)"
proof -
  have "opt ! length pre = k" "opt ! (length pre + 1) = l" "length pre + 1 < length opt"
    using assms(1) by (simp_all add: nth_append)
  then show ?thesis using assms(2,3) by (subst opt_loop.simps) (simp split: if_splits)
qed

lemma unat_u8: "n < 256 \<Longrightarrow> unat (of_nat n :: u8) = n"
  by (simp add: unat_of_nat)

lemma parse_step:
  assumes ok: "topt_ok opn" and opt: "opt = pre @ encode opn @ rest" and p: "int (length pre + length (encode opn)) \<le> p"
  shows "opt_loop (Suc n) opt flags (Some p) (t, ts, length pre) =
    (case apply_opt flags opn (t, ts) of (t', ts') \<Rightarrow>
       opt_loop n opt flags (Some p) (t', ts', length pre + length (encode opn)))"
proof -
  have dr: "drop (length pre + 2) (pre @ k # l # body) = body" for k l :: u8 and body by simp
  show ?thesis
  proof (cases opn)
    case End
    then show ?thesis using loop_short [of opt pre 0] opt p by simp
  next
    case Noop
    then show ?thesis using loop_short [of opt pre 1] opt p by simp
  next
    case (Mss m)
    have "parse_one opt flags 2 4 (t, ts, length pre + 2) =
        Parsed (fst (apply_opt flags opn (t, ts)), ts, length pre + 4)"
      unfolding opt Mss by (simp add: parse_one_def option_kinds tcp_parse_option_mss_def expect_def)
    then show ?thesis using loop_long [of opt pre 2 4] opt p Mss by simp
  next
    case (Ws s)
    have "parse_one opt flags 3 3 (t, ts, length pre + 2) = Parsed (t\<lparr>recv_wnd_scale := ucast s\<rparr>, ts, Suc (Suc (Suc (length pre))))"
      unfolding opt Ws by (simp add: parse_one_def option_kinds tcp_parse_option_ws_def expect_def nth_append)
    then show ?thesis using loop_long [of opt pre 3 3] opt p Ws by simp
  next
    case SackOk
    have "parse_one opt flags 4 2 (t, ts, length pre + 2) =
        Parsed (if flags AND PICO_TCP_SYN \<noteq> 0 then t\<lparr>sack_ok := True\<rparr> else t, ts, length pre + 2)"
      by (simp add: parse_one_def option_kinds tcp_parse_option_sack_ok_def expect_def)
    then show ?thesis using loop_long [of opt pre 4 2] opt p SackOk by simp
  next
    case (Tstamp a b)
    have d: "drop (length pre + 2) opt = bytes_of_u32 (long_be a) @ bytes_of_u32 (long_be b) @ rest"
        "drop (length pre + 2 + 4) opt = bytes_of_u32 (long_be b) @ rest" "\<not> length pre + 2 + 8 > length opt"
      unfolding opt Tstamp by simp_all
    have "parse_one opt flags 8 10 (t, ts, length pre + 2) = tcp_parse_option_timestamp opt 10 (t, ts, length pre + 2)"
      by (simp add: parse_one_def option_kinds)
    also have "\<dots> = Parsed (t\<lparr>ts_ok := True, ts_nxt := a\<rparr>, b, length pre + 2 + 8)"
      unfolding tcp_parse_option_timestamp_def expect_def prod.case d if_not_P [OF d(3)] by simp
    finally have "parse_one opt flags 8 10 (t, ts, length pre + 2) =
        Parsed (t\<lparr>ts_ok := True, ts_nxt := a\<rparr>, b, length pre + 10)"
      by simp
    then show ?thesis using loop_long [of opt pre 8 10] opt p Tstamp by simp
  next
    case (Sack bs)
    have l: "unat (of_nat (2 + 8 * length bs) :: u8) = 2 + 8 * length bs" using ok Sack by (intro unat_u8) simp
    have len: "length (concat (map (\<lambda>(l, r). bytes_of_u32 (long_be l) @ bytes_of_u32 (long_be r)) bs)) = 8 * length bs"
      by (induction bs) auto
    have "parse_one opt flags 5 (2 + 8 * length bs) (t, ts, length pre + 2) =
        Parsed (fold (\<lambda>(l, r). tcp_process_sack l r) bs t, ts, length pre + (2 + 8 * length bs))"
      unfolding opt Sack
      by (simp add: parse_one_def option_kinds tcp_rcv_sack_def nat_mult_distrib sack_blocks_ok)
    moreover have "opt_loop (Suc n) opt flags (Some p) (t, ts, length pre) =
        (case parse_one opt flags 5 (unat (of_nat (2 + 8 * length bs) :: u8)) (t, ts, length pre + 2) of
           Parsed s \<Rightarrow> opt_loop n opt flags (Some p) s | Loop \<Rightarrow> Loop | Oob \<Rightarrow> Oob)"
      by (rule loop_long) (use opt p Sack in auto)
    moreover have "length (encode opn) = 2 + 8 * length bs" unfolding Sack using len by simp
    ultimately show ?thesis unfolding l Sack by simp
  next
    case (Other k d)
    have l: "unat (of_nat (2 + length d) :: u8) = 2 + length d" using ok Other by (intro unat_u8) simp
    have k: "k > 1" "k \<noteq> 0" "k \<noteq> 1" "k \<noteq> 2" "k \<noteq> 3" "k \<noteq> 4" "k \<noteq> 5" "k \<noteq> 8" using ok Other by (auto simp: word_less_nat_alt)
    have "parse_one opt flags k (2 + length d) (t, ts, length pre + 2) = Parsed (t, ts, length pre + (2 + length d))"
      using k by (simp add: parse_one_def option_kinds)
    moreover have "opt_loop (Suc n) opt flags (Some p) (t, ts, length pre) =
        (case parse_one opt flags k (unat (of_nat (2 + length d) :: u8)) (t, ts, length pre + 2) of
           Parsed s \<Rightarrow> opt_loop n opt flags (Some p) s | Loop \<Rightarrow> Loop | Oob \<Rightarrow> Oob)"
      by (rule loop_long) (use opt p Other k(1) in auto)
    moreover have "length (encode opn) = 2 + length d" unfolding Other by simp
    ultimately show ?thesis unfolding l Other by simp
  qed
qed

lemma parse_all:
  assumes "\<forall>opn\<in>set os. topt_ok opn" "opt = pre @ encodes os @ rest" "int (length pre + length (encodes os)) \<le> p"
  shows "opt_loop (length os + n) opt flags (Some p) (t, ts, length pre) =
    (case apply_opts flags os (t, ts) of (t', ts') \<Rightarrow>
       opt_loop n opt flags (Some p) (t', ts', length pre + length (encodes os)))"
  using assms
proof (induction os arbitrary: pre t ts)
  case (Cons opn os)
  obtain t1 ts1 where a: "apply_opt flags opn (t, ts) = (t1, ts1)" by (cases "apply_opt flags opn (t, ts)")
  have "opt_loop (Suc (length os + n)) opt flags (Some p) (t, ts, length pre) =
      opt_loop (length os + n) opt flags (Some p) (t1, ts1, length (pre @ encode opn))"
    using parse_step [of opn opt pre "encodes os @ rest" p "length os + n" flags t ts] Cons.prems a
    by (simp add: encodes_def)
  also have "\<dots> = (case apply_opts flags os (t1, ts1) of (t', ts') \<Rightarrow>
       opt_loop n opt flags (Some p) (t', ts', length (pre @ encode opn) + length (encodes os)))"
    using Cons.prems by (intro Cons.IH) (simp_all add: encodes_def)
  finally show ?case using a by (simp add: apply_opts_def encodes_def add_ac split: prod.splits)
qed (simp add: encodes_def apply_opts_def)

lemma parse_end:
  assumes "int (length pre) = p" "opt = pre @ data"
  shows "\<exists>i. opt_loop (Suc n) opt flags (Some p) (t, ts, length pre) = Parsed (t, ts, i)"
  using assms by (subst opt_loop.simps) (auto simp: Let_def)

lemma bytes_short_be: "bytes_of_u16 (short_be m) = [ucast (drop_bit 8 m) AND 0xFF, ucast m AND 0xFF]"
proof -
  have "x AND 0xFF = x" for x :: u8 unfolding mask_FF by (rule bit_word_eqI) (auto simp: bit_simps)
  moreover have "ucast (short_be m) = (ucast (drop_bit 8 m) :: u8)" "ucast (drop_bit 8 (short_be m)) = (ucast m :: u8)"
    unfolding short_be_def mask_FF by (rule bit_word_eqI; auto simp: bit_simps)+
  ultimately show ?thesis by (simp add: bytes_of_u16_def)
qed

lemma correct_parse:
  assumes "\<forall>opn\<in>set os. topt_ok opn" "length os < fuel"
  shows "tcp_parse_options fuel (encodes os @ data) flags (Some (int (length (encodes os)))) t =
    Parsed (apply_opts flags os (t, 0))"
proof -
  obtain n where n: "fuel = length os + Suc n" using assms(2) by (metis add_Suc_right less_imp_Suc_add)
  obtain t1 ts1 where a: "apply_opts flags os (t, 0) = (t1, ts1)" by (cases "apply_opts flags os (t, 0)")
  have "opt_loop fuel (encodes os @ data) flags (Some (int (length (encodes os)))) (t, 0, 0) =
      opt_loop (Suc n) (encodes os @ data) flags (Some (int (length (encodes os)))) (t1, ts1, length (encodes os))"
    using parse_all [OF assms(1), of "encodes os @ data" "[]" data "int (length (encodes os))" "Suc n" flags t 0] a n by simp
  moreover obtain i where "opt_loop (Suc n) (encodes os @ data) flags (Some (int (length (encodes os))))
      (t1, ts1, length (encodes os)) = Parsed (t1, ts1, i)"
    using parse_end [of "encodes os"] by blast
  ultimately show ?thesis using a by (simp add: tcp_parse_options_def)
qed

section \<open>Properties\<close>

text \<open>C14: The option parser is correct on every well-formed option list, whatever follows it as payload: it ends, reads
  nothing out of bounds, and its effect is that of the options one after the other.\<close>

theorem tcp_parse_options_correct:
  assumes "\<forall>opn\<in>set os. topt_ok opn" "length os < fuel"
  shows "tcp_parse_options fuel (encodes os @ data) flags (Some (int (length (encodes os)))) t =
    Parsed (apply_opts flags os (t, 0))"
  by (rule correct_parse [OF assms])


text \<open>C36: What a peer announces in a SYN arrives: the options written into a SYN segment fill the computed size exactly,
  and parsing them gives the receiver the smaller segment size, the scale, SACK permission and both time stamps.\<close>

theorem tcp_syn_options_roundtrip:
  assumes "flags AND PICO_TCP_SYN \<noteq> 0" "sacks ts = []"
  shows "\<exists>area. tcp_add_options now ts flags (tcp_options_size ts flags) = Some (area, ts) \<and>
    length area = tcp_options_size ts flags \<and>
    tcp_parse_options 10 area flags (Some (int (length area))) t =
      Parsed (t\<lparr>mss_ok := True, mss := min (mss t) (mss ts), sack_ok := True,
        recv_wnd_scale := ucast (ucast (wnd_scale ts) :: u8), ts_ok := True, ts_nxt := now\<rparr>, ts_nxt ts)"
proof -
  let ?os = "[Mss (mss ts), SackOk, Ws (ucast (wnd_scale ts)), Tstamp now (ts_nxt ts), Noop, Noop, Noop, Noop, End]"
  have sz: "tcp_options_size ts flags = 24" using assms by (simp add: tcp_options_size_def)
  have enc: "encodes ?os = [2, 4, ucast (drop_bit 8 (mss ts)) AND 0xFF, ucast (mss ts) AND 0xFF, 4, 2, 3, 3, ucast (wnd_scale ts),
      8, 10] @ bytes_of_u32 (long_be now) @ bytes_of_u32 (long_be (ts_nxt ts)) @ [1, 1, 1, 1, 0]"
    unfolding encodes_def by (simp add: bytes_short_be)
  have len: "length (encodes ?os) = 24" unfolding enc by simp
  have "tcp_add_options now ts flags 24 = Some (encodes ?os, ts)"
    unfolding enc using assms
    by (simp add: tcp_add_options_def tcp_add_sack_option_def option_kinds Let_def bytes_of_u32_def numeral_eq_Suc)
  moreover have "tcp_parse_options 10 (encodes ?os @ []) flags (Some (int (length (encodes ?os)))) t = Parsed (apply_opts flags ?os (t, 0))"
    by (rule correct_parse) simp_all
  moreover have "apply_opts flags ?os (t, 0) =
      (t\<lparr>mss_ok := True, mss := min (mss t) (mss ts), sack_ok := True,
        recv_wnd_scale := ucast (ucast (wnd_scale ts) :: u8), ts_ok := True, ts_nxt := now\<rparr>, ts_nxt ts)"
    using assms(1) by (simp add: apply_opts_def min_def not_less)
  ultimately show ?thesis using sz len by (intro exI [of _ "encodes ?os"]) simp
qed

section \<open>A concrete socket\<close>

definition fresh_tcp :: pico_socket_tcp where
  "fresh_tcp = \<lparr>state = 0x0500, ev_pending = 0, nodelay = True, has_wakeup = True, has_parent = False, number_of_pending_conn = 0, max_backlog = 0,
     tcpq_in = \<lparr>pool = [], max_size = 6144, size = 0, frames = 0\<rparr>,
     tcpq_out = \<lparr>pool = [], max_size = 6144, size = 0, frames = 0\<rparr>, tcpq_hold = \<lparr>pool = [], max_size = 2920, size = 0, frames = 0\<rparr>,
     snd_nxt = 0, snd_last = 0, snd_old_ack = 0, snd_retry = 0, snd_last_out = 0, avg_rtt = 0, rttvar = 0, rto = 70, in_flight = 0,
     retrans_tmr = 0, retrans_tmr_due = 0, cwnd_counter = 0, cwnd = 2, ssthresh = 40, recv_wnd = 0, recv_wnd_scale = 0,
     rcv_nxt = 0, rcv_ackd = 0, rcv_processed = 0, wnd = 6144,
     wnd_scale = 0, remote_closed = False, ts_nxt = 7, mss = 1460, sack_ok = False, ts_ok = False, mss_ok = False, sacks = [],
     linger_timeout = 3000, x_mode = 0, backoff = 0, localZeroWindow = False, keepalive_tmr = 1, ack_timestamp = 0,
     ka_time = 0, ka_intvl = 0, ka_probes = 0, ka_retries_count = 0, fin_tmr = 0\<rparr>"

theorem tcp_parse_options_correct_witness:
  "tcp_parse_options 3 (encodes [Mss 536, Noop] @ [7]) PICO_TCP_SYN (Some 5) fresh_tcp =
     Parsed (apply_opts PICO_TCP_SYN [Mss 536, Noop] (fresh_tcp, 0))"
proof -
  have "length (encodes [Mss 536, Noop]) = 5" by (simp add: encodes_def)
  then show ?thesis using tcp_parse_options_correct [of "[Mss 536, Noop]" 3 "[7]" PICO_TCP_SYN fresh_tcp] by simp
qed


theorem tcp_syn_options_roundtrip_witness:
  "\<exists>area. tcp_add_options 5 fresh_tcp PICO_TCP_SYN (tcp_options_size fresh_tcp PICO_TCP_SYN) = Some (area, fresh_tcp)"
proof -
  have "PICO_TCP_SYN AND PICO_TCP_SYN \<noteq> 0" "sacks fresh_tcp = []" by (simp_all add: PICO_TCP_SYN_def fresh_tcp_def)
  from tcp_syn_options_roundtrip [OF this, of 5 fresh_tcp] show ?thesis by blast
qed

text \<open>What one option keeps the whole parse keeps.\<close>

lemma opt_loop_keeps:
  assumes one: "\<And>opt flags k len t ts i t' ts' i'. parse_one opt flags k len (t, ts, i) = Parsed (t', ts', i') \<Longrightarrow> v t' = v t"
  shows "opt_loop n opt flags pay (t, ts, i) = Parsed (t', ts', i') \<Longrightarrow> v t' = v t"
proof (induction n arbitrary: t ts i)
  case 0
  then show ?case by (subst (asm) opt_loop.simps) (auto split: if_splits)
next
  case (Suc n)
  show ?case
  proof (cases "i < length opt")
    case False
    then show ?thesis using Suc.prems by (subst (asm) opt_loop.simps) simp
  next
    case True
    obtain len i2 where l: "(if i + 1 < length opt \<and> opt ! i > 1 then (unat (opt ! (i + 1)), i + 2) else (1, i + 1)) = (len, i2)"
      by (metis surj_pair)
    show ?thesis
    proof (cases "case pay of None \<Rightarrow> False | Some p \<Rightarrow> int i2 > p")
      case T: True
      then show ?thesis using Suc.prems True l by (subst (asm) opt_loop.simps) simp
    next
      case F: False
      then obtain s where s: "parse_one opt flags (opt ! i) len (t, ts, i2) = Parsed s" "opt_loop n opt flags pay s = Parsed (t', ts', i')"
        using Suc.prems True l by (subst (asm) opt_loop.simps) (auto split: parse.splits)
      then show ?thesis using Suc.IH one by (metis surj_pair)
    qed
  qed
qed

end
