(* ===== verification/PicoTcpIn.thy ===== *)
theory PicoTcpIn
  imports PicoTcpOptions
begin

text \<open>
  The receiving side of \<^verbatim>\<open>modules/pico_tcp.c\<close>: segments arriving (\<^verbatim>\<open>tcp_data_in\<close>), the window the socket
  advertises, acknowledgements, and reading (\<^verbatim>\<open>pico_tcp_read\<close>). What the socket sends, the
  events it signals and the timers it sets are recorded in order; the callback of the socket is \<^verbatim>\<open>handle_wakeup\<close>
  of the wrapper, which does not call back into the socket. \<open>None\<close> is undefined behaviour, or an endless loop in the
  option parser.
\<close>

section \<open>Window and acknowledgements\<close>

datatype tmr_kind = Initconn | Retrans | Fin | Keepalive | Collect

datatype tcp_event = Sent u8 u32 u32 u16 bytes | SentFrame u8 u32 u32 u16 bytes bytes | ReplyRst u8 u32 u32
  | Wakeup u16 | WakeupParent u16 | SetTimer tmr_kind u64 | CancelTimer u32 | Deleted

type_synonym tcps = "pico_socket_tcp \<times> tcp_event list"

fun window_shift :: "nat \<Rightarrow> nat \<Rightarrow> nat \<times> nat" where
  "window_shift space shift = (if space > 0xFFFF then window_shift (space div 2) (shift + 1) else (space, shift))"

declare window_shift.simps [simp del]

definition tcp_space :: "pico_socket_tcp \<Rightarrow> nat" where
  "tcp_space t =
     (let q = tcpq_in t; s = (if max_size q = 0 then 2 ^ 30 else sint (max_size q - size q))
      in if s < 0 then 0 else nat s)"

text \<open>Whether the peer has to be told that a closed window has opened, and the new state.\<close>

definition tcp_set_space_check_winupdate :: "nat \<Rightarrow> nat \<Rightarrow> pico_socket_tcp \<Rightarrow> bool \<times> pico_socket_tcp" where
  "tcp_set_space_check_winupdate space shift t =
     (if space \<noteq> unat (wnd t) \<or> shift \<noteq> unat (wnd_scale t) \<or> int space - int (unat (wnd t)) > int (space div 4)
      then let t1 = t\<lparr>wnd := of_nat space, wnd_scale := of_nat shift\<rparr>
           in if wnd t1 = 0 then (False, t1\<lparr>localZeroWindow := True\<rparr>)
              else if localZeroWindow t1 then (True, t1\<lparr>localZeroWindow := False\<rparr>)
              else (False, t1)
      else (False, t))"

text \<open>\<^verbatim>\<open>tcp_set_space\<close> and \<^verbatim>\<open>tcp_send_empty\<close> call each other; each takes what it calls as an argument.\<close>

definition set_space_with :: "(tcps \<Rightarrow> tcps) \<Rightarrow> tcps \<Rightarrow> tcps" where
  "set_space_with send s =
     (let (t, lg) = s;
          (space, shift) = window_shift (tcp_space t) 0;
          (upd, t1) = tcp_set_space_check_winupdate space shift t
      in if upd then send (t1, lg) else (t1, lg))"

definition send_empty_with :: "(tcps \<Rightarrow> tcps) \<Rightarrow> bool \<Rightarrow> u32 \<Rightarrow> u8 \<Rightarrow> bool \<Rightarrow> tcps \<Rightarrow> tcps" where
  "send_empty_with send mem now flags is_keepalive s =
     (let opt_len = tcp_options_size (fst s) flags in
      if \<not> mem then s
      else
        let (t, lg) = set_space_with send s
        in case tcp_add_options now t flags opt_len of
             None \<Rightarrow> (t, lg)
           | Some (opts, t1) \<Rightarrow>
               (t1\<lparr>rcv_ackd := rcv_nxt t1\<rparr>,
                lg @ [Sent flags (if is_keepalive then snd_nxt t1 - 1 else snd_nxt t1)
                        (if flags AND PICO_TCP_ACK \<noteq> 0 then rcv_nxt t1 else 0) (wnd t1) opts]))"

primrec send_ack :: "nat \<Rightarrow> bool \<Rightarrow> u32 \<Rightarrow> tcps \<Rightarrow> tcps" where
  "send_ack 0 mem now s = s"
| "send_ack (Suc d) mem now s = send_empty_with (send_ack d mem now) mem now PICO_TCP_ACK False s"

text \<open>Two levels are all there is: the nested update finds the window as it should be.\<close>

definition tcp_send_ack :: "bool \<Rightarrow> u32 \<Rightarrow> tcps \<Rightarrow> tcps" where
  "tcp_send_ack = send_ack 2"

definition tcp_set_space :: "bool \<Rightarrow> u32 \<Rightarrow> tcps \<Rightarrow> tcps" where
  "tcp_set_space mem now = set_space_with (send_ack 1 mem now)"

definition tcp_send_probe :: "bool \<Rightarrow> u32 \<Rightarrow> tcps \<Rightarrow> tcps" where
  "tcp_send_probe mem now = send_empty_with (send_ack 1 mem now) mem now (PICO_TCP_PSH OR PICO_TCP_ACK) True"

section \<open>Selective acknowledgements\<close>

text \<open>One turn per segment at most; the lengths of the queued segments are far from adding up to the sequence space.\<close>

fun sack_prepare_loop ::
  "nat \<Rightarrow> bool \<Rightarrow> tcpq \<Rightarrow> u32 \<Rightarrow> tseg option \<Rightarrow> nat \<Rightarrow> u32 \<Rightarrow> u32 \<Rightarrow> (u32 \<times> u32) list \<Rightarrow> (u32 \<times> u32) list" where
  "sack_prepare_loop 0 mem q nxt pkt n lft rgt sb = sb"
| "sack_prepare_loop (Suc k) mem q nxt pkt n lft rgt sb =
     (if n \<ge> 3 then sb
      else case pkt of
        None \<Rightarrow> if lft \<noteq> 0 \<and> mem then (long_be lft, long_be rgt) # sb else sb
      | Some p \<Rightarrow>
          if seq p < nxt then sack_prepare_loop k mem q nxt (next_segment q p) n lft rgt sb
          else if lft = 0 then
            sack_prepare_loop k mem q nxt (next_segment q p) n (seq p) (seq p + of_nat (plen p)) sb
          else if seq p = rgt then
            sack_prepare_loop k mem q nxt (next_segment q p) n lft (rgt + of_nat (plen p)) sb
          else if \<not> mem then sb
          else sack_prepare_loop k mem q nxt (next_segment q p) (n + 1) 0 0 ((long_be lft, long_be rgt) # sb))"

definition tcp_sack_prepare :: "bool \<Rightarrow> pico_socket_tcp \<Rightarrow> pico_socket_tcp" where
  "tcp_sack_prepare mem t =
     (if sacks t \<noteq> [] then t
      else t\<lparr>sacks := sack_prepare_loop (length (pool (tcpq_in t)) + 1) mem (tcpq_in t) (rcv_nxt t)
               (first_segment (tcpq_in t)) 0 0 0 []\<rparr>)"

section \<open>Arrival\<close>

record tcp_mem =
  mem_seg :: bool
  mem_node :: bool
  mem_sack :: bool
  mem_ack :: bool

definition segment_from_frame :: "bool \<Rightarrow> u32 \<Rightarrow> bytes \<Rightarrow> tseg option" where
  "segment_from_frame mem s data =
     (if \<not> mem \<or> data = [] then None
      else Some \<lparr>seq = s, payload = data, esize = of_nat (length data), tstamp = 0, sacked = False, hflags = 0, ts_saved = False\<rparr>)"

text \<open>\<^verbatim>\<open>rcv_nxt\<close> moves over the segments that follow; each turn passes one, and fuel is one per segment.\<close>

fun scroll :: "nat \<Rightarrow> tcpq \<Rightarrow> u32 \<Rightarrow> u32" where
  "scroll 0 q nxt = nxt"
| "scroll (Suc k) q nxt =
     (case peek_segment q nxt of None \<Rightarrow> nxt | Some p \<Rightarrow> scroll k q (nxt + of_nat (plen p)))"

definition tcp_data_in_expected :: "tcp_mem \<Rightarrow> u32 \<Rightarrow> bytes \<Rightarrow> pico_socket_tcp \<Rightarrow> int \<times> pico_socket_tcp" where
  "tcp_data_in_expected m s data t =
     (if pico_seq_compare s (rcv_nxt t) = 0 then
        (case segment_from_frame (mem_seg m) s data of
           None \<Rightarrow> (- 1, t)
         | Some input \<Rightarrow>
             (case pico_enqueue_segment (mem_node m) (Some input) (tcpq_in t) of
                (r, q) \<Rightarrow>
                  if r \<le> 0 then (- 1, t\<lparr>tcpq_in := q\<rparr>)
                  else (0, t\<lparr>tcpq_in := q, rcv_nxt := scroll (length (pool q) + 1) q (s + of_nat (length data)),
                             ev_pending := ev_pending t OR 1\<rparr>)))
      else (0, t))"

definition tcp_data_in_high_segment :: "tcp_mem \<Rightarrow> u32 \<Rightarrow> bytes \<Rightarrow> pico_socket_tcp \<Rightarrow> int \<times> pico_socket_tcp" where
  "tcp_data_in_high_segment m s data t =
     (if sack_ok t then
        (case segment_from_frame (mem_seg m) s data of
           None \<Rightarrow> (- 1, t)
         | Some input \<Rightarrow>
             (case pico_enqueue_segment (mem_node m) (Some input) (tcpq_in t) of
                (r, q) \<Rightarrow>
                  if r \<le> 0 then (- 1, t\<lparr>tcpq_in := q\<rparr>)
                  else (0, tcp_sack_prepare (mem_sack m) (t\<lparr>tcpq_in := q\<rparr>))))
      else (0, t))"

definition tcp_state :: "pico_socket_tcp \<Rightarrow> u16" where "tcp_state t = state t AND 0xFF00"

definition tcp_data_in_send_ack :: "tcp_mem \<Rightarrow> u32 \<Rightarrow> u8 \<Rightarrow> tcps \<Rightarrow> tcps" where
  "tcp_data_in_send_ack m now flags s =
     (if tcp_state (fst s) \<noteq> 0x0600 \<and> tcp_state (fst s) \<noteq> 0x0300 \<and> tcp_state (fst s) \<noteq> 0x0400 \<and> flags AND PICO_TCP_RST = 0
      then tcp_send_ack (mem_ack m) now s else s)"

definition SEQN :: "bytes \<Rightarrow> u32" where "SEQN f = long_be (long_from (drop 4 f))"
definition hdr_flags :: "bytes \<Rightarrow> u8" where "hdr_flags f = f ! 13"
definition hdr_len :: "bytes \<Rightarrow> nat" where "hdr_len f = unat (drop_bit 2 (f ! 12 AND 0xf0))"

definition store_segment :: "tcp_mem \<Rightarrow> u32 \<Rightarrow> bytes \<Rightarrow> pico_socket_tcp \<Rightarrow> int \<times> pico_socket_tcp" where
  "store_segment m s data t =
     (if pico_seq_compare s (rcv_nxt t) \<le> 0 then tcp_data_in_expected m s data t else tcp_data_in_high_segment m s data t)"

text \<open>\<open>f\<close> is the whole segment, header included; \<^verbatim>\<open>pico_tcp_input\<close> has set the payload's address.\<close>

definition tcp_data_in :: "tcp_mem \<Rightarrow> nat \<Rightarrow> u32 \<Rightarrow> bytes \<Rightarrow> tcps \<Rightarrow> (int \<times> tcps) option" where
  "tcp_data_in m fuel now f s =
     (if length f < 20 then None
      else if hdr_len f \<le> length f then
        (case tcp_parse_options fuel (drop 20 f) (hdr_flags f) (Some (int (hdr_len f) - 20)) (fst s) of
           Parsed (t, _) \<Rightarrow>
             (case store_segment m (SEQN f) (drop (hdr_len f) f) t of
                (r, t1) \<Rightarrow> Some (r, tcp_data_in_send_ack m now (hdr_flags f) (t1, snd s)))
         | _ \<Rightarrow> None)
      else Some (- 1, s))"

section \<open>Reading\<close>

definition tcp_read_finish :: "bool \<Rightarrow> u32 \<Rightarrow> tcps \<Rightarrow> tcps" where
  "tcp_read_finish mem now s =
     (let (t, lg) = tcp_set_space mem now s;
          t1 = (if size (tcpq_in t) = 0 then t\<lparr>ev_pending := ev_pending t AND NOT 1\<rparr> else t)
      in if remote_closed t1
         then (t1\<lparr>ev_pending := ev_pending t1 OR 8, state := (state t1 AND 0x00FF) OR 0x0600 OR 0x0002\<rparr>,
               if has_wakeup t1 then lg @ [Wakeup 8] else lg)
         else (t1, lg))"

definition tcp_read_in_frame_len :: "tseg \<Rightarrow> int \<Rightarrow> nat \<Rightarrow> nat \<Rightarrow> nat" where
  "tcp_read_in_frame_len f off tot len =
     (let l = (if off > 0 then nat ((int (plen f) - off) mod 2 ^ 32) else plen f)
      in if (l + tot) mod 2 ^ 32 > len then nat ((int len - int tot) mod 2 ^ 32) else l)"

definition tcp_read_check_segment_done :: "tseg \<Rightarrow> nat \<Rightarrow> tcpq \<Rightarrow> tcpq" where
  "tcp_read_check_segment_done f l q = (if l = 0 \<or> l = plen f then pico_discard_segment f q else q)"

lemma release_loop_length: "length (pool (snd (release_loop h s q r))) \<le> length (pool q)"
proof (induction h s q r rule: release_loop.induct)
  case (1 h s q r)
  show ?case
  proof (cases "\<exists>cur. h = Some cur \<and> cur \<in> set (pool q) \<and> pico_seq_compare (seq cur + of_nat (plen cur)) s \<le> 0")
    case True
    then obtain cur where c: "h = Some cur" "cur \<in> set (pool q)" "pico_seq_compare (seq cur + of_nat (plen cur)) s \<le> 0" by blast
    then show ?thesis
      using "1.IH" [of cur] discard_shrinks [of cur q] by (subst release_loop.simps) simp
  next
    case False
    then show ?thesis by (subst release_loop.simps) (auto split: option.splits)
  qed
qed

lemma discard_le: "length (pool (pico_discard_segment f q)) \<le> length (pool q)"
  by (simp add: pico_discard_segment_def tdelete_def)

text \<open>The loop on the queue and \<^verbatim>\<open>rcv_processed\<close>: the bytes copied, or a copy from outside the segment.\<close>

function read_loop :: "nat \<Rightarrow> tcpq \<Rightarrow> u32 \<Rightarrow> bytes \<Rightarrow> (bytes \<times> tcpq \<times> u32) option" where
  "read_loop len q processed out =
     (if \<not> length out < len then Some (out, q, processed)
      else
        let q1 = snd (release_until processed q) in
        case first_segment q1 of
          None \<Rightarrow> Some (out, q1, processed)
        | Some f \<Rightarrow>
            let off = pico_seq_compare processed (seq f) in
            if off < 0 then Some (out, q1, processed)
            else
              let l = tcp_read_in_frame_len f off (length out) len in
              if nat off + l > plen f then None
              else read_loop len (tcp_read_check_segment_done f l q1) (processed + of_nat l)
                     (out @ take l (drop (nat off) (payload f))))"
  by pat_completeness auto

termination
proof (relation "measure (\<lambda>(len, q, p, out). (len - length out) + length (pool q))", goal_cases)
  case 1
  show ?case by simp
next
  case (2 len q processed out q1 f off l)
  have le: "length (pool q1) \<le> length (pool q)" using 2(2) release_loop_length by (simp add: release_until_def)
  have f: "f \<in> set (pool q1)" using 2(3) by (auto simp: first_segment_def split: list.splits)
  have ln: "length (take l (drop (nat off) (payload f))) = l" using 2(7) by (simp add: plen_def)
  have "length (pool (tcp_read_check_segment_done f l q1)) \<le> length (pool q1)"
    "l = 0 \<Longrightarrow> length (pool (tcp_read_check_segment_done f l q1)) < length (pool q1)"
    using discard_le discard_shrinks [OF f] by (simp_all add: tcp_read_check_segment_done_def)
  then show ?case using 2(1) le ln by (cases "l = 0") auto
qed

declare read_loop.simps [simp del]

definition pico_tcp_read :: "bool \<Rightarrow> u32 \<Rightarrow> nat \<Rightarrow> tcps \<Rightarrow> (bytes \<times> tcps) option" where
  "pico_tcp_read mem now len s =
     (case read_loop len (tcpq_in (fst s)) (rcv_processed (fst s)) [] of
        None \<Rightarrow> None
      | Some (out, q, p) \<Rightarrow>
          Some (out, tcp_read_finish mem now ((fst s)\<lparr>tcpq_in := q, rcv_processed := p\<rparr>, snd s)))"

end
