(* ===== verification/PicoTcpStream.thy ===== *)
theory PicoTcpStream
  imports PicoTcpIn
begin

text \<open>
  What the application reads from a TCP socket is the stream the peer sent. Positions in the stream are
  unbounded; sequence numbers are the initial one plus the position, wrapped to 32 bits, and the
  peer keeps within a window of \<^verbatim>\<open>ONE_GIGABYTE\<close>, the largest the code advertises.
\<close>

section \<open>Positions\<close>

type_synonym piece = "nat \<times> nat"

definition sg :: "u32 \<Rightarrow> (nat \<Rightarrow> u8) \<Rightarrow> piece \<Rightarrow> tseg" where
  "sg isn S x = \<lparr>seq = isn + of_nat (fst x), payload = map S [fst x..<fst x + snd x], esize = of_nat (snd x), tstamp = 0, sacked = False, hflags = 0, ts_saved = False\<rparr>"

lemma sg_sel [simp]: "seq (sg isn S x) = isn + of_nat (fst x)" "plen (sg isn S x) = snd x" "esize (sg isn S x) = of_nat (snd x)"
  "payload (sg isn S x) = map S [fst x..<fst x + snd x]"
  by (simp_all add: sg_def plen_def)

lemma compare_pos:
  assumes "i < j + 2 ^ 31" "j < i + 2 ^ 31"
  shows "pico_seq_compare (isn + of_nat i) (isn + of_nat j) = int i - int j"
proof -
  define b where "b = min i j"
  have "isn + of_nat i = (isn + of_nat b) + of_nat (i - b)" "isn + of_nat j = (isn + of_nat b) + of_nat (j - b)"
    by (simp_all add: b_def flip: of_nat_add)
  moreover have "i - b < 2 ^ 31" "j - b < 2 ^ 31" using assms by (auto simp: b_def)
  ultimately show ?thesis using seq_compare_window [of "i - b" "j - b" "isn + of_nat b"] by (simp add: b_def of_nat_diff)
qed

definition near :: "nat \<Rightarrow> nat \<Rightarrow> bool" where "near i j \<longleftrightarrow> i < j + 2 ^ 31 \<and> j < i + 2 ^ 31"

lemma compare_near: "near i j \<Longrightarrow> pico_seq_compare (isn + of_nat i) (isn + of_nat j) = int i - int j"
  unfolding near_def by (intro compare_pos) auto

definition all_near :: "piece list \<Rightarrow> nat \<Rightarrow> bool" where "all_near L k \<longleftrightarrow> (\<forall>x\<in>set L. near (fst x) k)"

section \<open>Queue operations on positions\<close>

lemma find_map: "List.find Q (map f xs) = map_option f (List.find (\<lambda>x. Q (f x)) xs)"
  by (induction xs) auto

lemma find_cong': "(\<And>x. x \<in> set xs \<Longrightarrow> Q x = R x) \<Longrightarrow> List.find Q xs = List.find R xs"
  by (induction xs) auto

lemma peek_pos:
  assumes "pool q = map (sg isn S) L" "all_near L k"
  shows "peek_segment q (isn + of_nat k) = map_option (sg isn S) (List.find (\<lambda>x. fst x = k) L)"
proof -
  have "List.find (\<lambda>x. pico_seq_compare (seq (sg isn S x)) (isn + of_nat k) = 0) L = List.find (\<lambda>x. fst x = k) L"
    using assms(2) by (intro find_cong') (auto simp: all_near_def compare_near)
  then show ?thesis using assms(1) by (simp add: peek_segment_def find_map del: sg_sel)
qed

lemma cmp_sg: "near (fst x) (fst y) \<Longrightarrow> segment_compare (sg isn S x) (sg isn S y) = int (fst x) - int (fst y)"
  by (simp add: segment_compare_def compare_near)

lemma tfind_pos:
  assumes "all_near L (fst y)"
  shows "tfind segment_compare (sg isn S y) (map (sg isn S) L) = map_option (sg isn S) (List.find (\<lambda>x. fst x = fst y) L)"
proof -
  have "List.find (\<lambda>x. segment_compare (sg isn S x) (sg isn S y) = 0) L = List.find (\<lambda>x. fst x = fst y) L"
    using assms by (intro find_cong') (auto simp: all_near_def cmp_sg)
  then show ?thesis by (simp add: tfind_def find_map)
qed

lemma discard_pos:
  assumes "pool q = map (sg isn S) L" "y \<in> set L" "all_near L (fst y)"
  shows "pool (pico_discard_segment (sg isn S y) q) = map (sg isn S) (filter (\<lambda>x. fst x \<noteq> fst y) L)"
proof -
  have "List.find (\<lambda>x. fst x = fst y) L \<noteq> None" unfolding find_None_iff using assms(2) by blast
  moreover have "filter ((\<lambda>x. segment_compare x (sg isn S y) \<noteq> 0) \<circ> sg isn S) L = filter (\<lambda>x. fst x \<noteq> fst y) L"
    using assms(3) by (intro filter_cong) (auto simp: all_near_def cmp_sg)
  ultimately show ?thesis
    using assms(1) tfind_pos [OF assms(3)] by (simp add: pico_discard_segment_def tdelete_def filter_map)
qed

lemma tinsert_pos:
  assumes "all_near L (fst y)" "List.find (\<lambda>x. fst x = fst y) L = None"
  shows "tinsert segment_compare (sg isn S y) (map (sg isn S) L) =
    map (sg isn S) (takeWhile (\<lambda>x. fst x < fst y) L @ y # dropWhile (\<lambda>x. fst x < fst y) L)"
proof -
  have c: "segment_compare (sg isn S x) (sg isn S y) < 0 \<longleftrightarrow> fst x < fst y" if "x \<in> set L" for x
    using assms(1) that by (auto simp: all_near_def cmp_sg)
  have "takeWhile (\<lambda>x. segment_compare x (sg isn S y) < 0) (map (sg isn S) L) = map (sg isn S) (takeWhile (\<lambda>x. fst x < fst y) L)"
    "dropWhile (\<lambda>x. segment_compare x (sg isn S y) < 0) (map (sg isn S) L) = map (sg isn S) (dropWhile (\<lambda>x. fst x < fst y) L)"
    using c by (induction L) auto
  then show ?thesis using tfind_pos [OF assms(1)] assms(2) by (simp add: tinsert_def)
qed

section \<open>The shape of the queue\<close>

text \<open>A run of pieces without gap from one position to another, and pieces in order from a position on.\<close>

fun chain :: "nat \<Rightarrow> piece list \<Rightarrow> nat \<Rightarrow> bool" where
  "chain a [] N \<longleftrightarrow> a = N"
| "chain a (x # xs) N \<longleftrightarrow> fst x = a \<and> 0 < snd x \<and> snd x < 65536 \<and> chain (a + snd x) xs N"

fun spaced :: "nat \<Rightarrow> piece list \<Rightarrow> bool" where
  "spaced b [] \<longleftrightarrow> True"
| "spaced b (x # xs) \<longleftrightarrow> b \<le> fst x \<and> 0 < snd x \<and> snd x < 65536 \<and> spaced (fst x + snd x) xs"

lemma chain_le: "chain a A N \<Longrightarrow> a \<le> N"
  by (induction a A N rule: chain.induct) auto

lemma chain_mem: "chain a A N \<Longrightarrow> x \<in> set A \<Longrightarrow> a \<le> fst x \<and> fst x + snd x \<le> N \<and> 0 < snd x"
proof (induction a A N rule: chain.induct)
  case (2 a y ys N)
  then show ?case using chain_le [of "a + snd y" ys N] by (cases "x = y") auto
qed simp

lemma spaced_mem: "spaced b B \<Longrightarrow> x \<in> set B \<Longrightarrow> b \<le> fst x \<and> 0 < snd x \<and> snd x < 65536"
proof (induction b B rule: spaced.induct)
  case (2 b y ys)
  then show ?case by (cases "x = y") force+
qed simp

definition rcv_inv :: "u32 \<Rightarrow> (nat \<Rightarrow> u8) \<Rightarrow> nat \<Rightarrow> nat \<Rightarrow> tcpq \<Rightarrow> piece list \<Rightarrow> piece list \<Rightarrow> bool" where
  "rcv_inv isn S P N q A B \<longleftrightarrow> pool q = map (sg isn S) (A @ B) \<and> P \<le> N \<and> N \<le> P + 2 ^ 30 \<and>
     (case A of [] \<Rightarrow> P = N | x # _ \<Rightarrow> chain (fst x) A N \<and> fst x \<le> P \<and> P \<le> fst x + snd x) \<and>
     spaced (N + 1) B \<and> (\<forall>x\<in>set B. fst x + snd x \<le> P + 2 ^ 30)"

lemma rcv_inv_mem:
  assumes "rcv_inv isn S P N q A B" "x \<in> set (A @ B)"
  shows "P < fst x + 65536" "fst x \<le> P + 2 ^ 30"
proof -
  have "P < fst x + 65536 \<and> fst x \<le> P + 2 ^ 30"
  proof (cases "x \<in> set A")
    case True
    then obtain y ys where A: "A = y # ys" by (cases A) auto
    have c: "chain (fst y) A N" "fst y \<le> P" "P \<le> fst y + snd y" "N \<le> P + 2 ^ 30"
      using assms(1) A by (auto simp: rcv_inv_def)
    then show ?thesis using chain_mem [OF c(1) True] A by auto
  next
    case False
    then have "x \<in> set B" using assms(2) by auto
    then show ?thesis using assms(1) spaced_mem [of "N + 1" B x] by (auto simp: rcv_inv_def)
  qed
  then show "P < fst x + 65536" "fst x \<le> P + 2 ^ 30" by auto
qed

lemma rcv_inv_near:
  assumes "rcv_inv isn S P N q A B" "P < k + 2 ^ 30" "k \<le> P + 2 ^ 30"
  shows "all_near (A @ B) k"
  unfolding all_near_def near_def
proof
  fix x assume "x \<in> set (A @ B)"
  from rcv_inv_mem [OF assms(1) this] show "fst x < k + 2 ^ 31 \<and> k < fst x + 2 ^ 31" using assms(2,3) by simp
qed

section \<open>Reading\<close>

lemma chain_hd_less: "chain a A N \<Longrightarrow> A \<noteq> [] \<Longrightarrow> a < N"
  using chain_mem [of a A N "hd A"] by (cases A) auto

lemma rcv_inv_spaced: "rcv_inv isn S P N q A B \<Longrightarrow> x \<in> set B \<Longrightarrow> N < fst x"
  using spaced_mem [of "N + 1" B x] by (auto simp: rcv_inv_def)

lemma rcv_inv_tl:
  assumes "rcv_inv isn S P N q (x # A) B"
  shows "filter (\<lambda>y. fst y \<noteq> fst x) ((x # A) @ B) = A @ B" "pool (pico_discard_segment (sg isn S x) q) = map (sg isn S) (A @ B)"
proof -
  have c: "chain (fst x + snd x) A N" "0 < snd x" "fst x + snd x \<le> N"
    using assms chain_le [of "fst x + snd x" A N] by (auto simp: rcv_inv_def)
  have "fst y \<noteq> fst x" if "y \<in> set (A @ B)" for y
    using that chain_mem [OF c(1), of y] rcv_inv_spaced [OF assms, of y] c(2,3) by auto
  then show f: "filter (\<lambda>y. fst y \<noteq> fst x) ((x # A) @ B) = A @ B" by simp
  have "all_near ((x # A) @ B) (fst x)"
    using rcv_inv_mem [OF assms, of x] by (intro rcv_inv_near [OF assms]) auto
  then show "pool (pico_discard_segment (sg isn S x) q) = map (sg isn S) (A @ B)"
    using discard_pos [of q isn S "(x # A) @ B" x] assms unfolding f by (simp add: rcv_inv_def)
qed

text \<open>A run whose first piece is not read to the end.\<close>

definition trimmed :: "nat \<Rightarrow> piece list \<Rightarrow> bool" where
  "trimmed P A \<longleftrightarrow> (case A of [] \<Rightarrow> True | x # _ \<Rightarrow> P < fst x + snd x)"

lemma release_stops:
  assumes "seq cur + of_nat (plen cur) = isn + of_nat e" "P < e" "e < P + 2 ^ 31"
  shows "release_loop (Some cur) (isn + of_nat P) q r = (r, q)"
  using compare_pos [of e P isn] assms by (subst release_loop.simps) simp

lemma sg_end: "seq (sg isn S x) + of_nat (plen (sg isn S x)) = isn + of_nat (fst x + snd x)"
  by simp

lemma release_trimmed:
  assumes "rcv_inv isn S P N q A B" "trimmed P A"
  shows "release_until (isn + of_nat P) q = (0, q)"
proof (cases "A @ B")
  case Nil
  then have "first_segment q = None" using assms(1) by (simp add: rcv_inv_def first_segment_def)
  then show ?thesis by (simp add: release_until_def release_loop.simps)
next
  case (Cons x L)
  then have h: "first_segment q = Some (sg isn S x)" using assms(1) by (simp add: rcv_inv_def first_segment_def)
  have "P < fst x + snd x"
    using assms Cons rcv_inv_spaced [OF assms(1), of x] by (cases A) (auto simp: trimmed_def rcv_inv_def)
  moreover have "fst x + snd x < P + 2 ^ 31"
  proof (cases A)
    case Nil
    then show ?thesis using assms(1) Cons by (auto simp: rcv_inv_def)
  next
    case (Cons y ys)
    then show ?thesis using assms(1) \<open>A @ B = x # L\<close> chain_mem [of "fst y" A N y] by (auto simp: rcv_inv_def)
  qed
  ultimately show ?thesis unfolding release_until_def h by (intro release_stops [OF sg_end])
qed

lemma release_ok:
  assumes "rcv_inv isn S P N q A B"
  obtains A' where "rcv_inv isn S P N (snd (release_until (isn + of_nat P) q)) A' B" "trimmed P A'" "set A' \<subseteq> set A"
proof (cases "trimmed P A")
  case True
  then show ?thesis using release_trimmed [OF assms True] assms that [of A] by simp
next
  case False
  then obtain x A1 where A: "A = x # A1" "P = fst x + snd x"
    using assms by (cases A) (auto simp: trimmed_def rcv_inv_def)
  let ?q1 = "pico_discard_segment (sg isn S x) q"
  have pl: "pool ?q1 = map (sg isn S) (A1 @ B)" using rcv_inv_tl(2) [of isn S P N q x A1 B] assms A(1) by simp
  have i: "rcv_inv isn S P N ?q1 A1 B"
    using assms A pl by (cases A1) (auto simp: rcv_inv_def)
  have t: "trimmed P A1" using assms A by (cases A1) (auto simp: rcv_inv_def trimmed_def)
  have h: "first_segment q = Some (sg isn S x)" "sg isn S x \<in> set (pool q)"
    using assms A by (auto simp: rcv_inv_def first_segment_def)
  have "next_segment q (sg isn S x) = map_option (sg isn S) (List.find (\<lambda>y. fst y = P) (A @ B))"
    unfolding next_segment_def sg_end A(2) [symmetric]
    by (rule peek_pos) (use assms in \<open>auto simp: rcv_inv_def intro: rcv_inv_near [OF assms]\<close>)
  also have "List.find (\<lambda>y. fst y = P) (A @ B) = List.find (\<lambda>y. fst y = P) (A1 @ B)"
    using assms A by (auto simp: rcv_inv_def)
  finally have nx: "next_segment q (sg isn S x) = map_option (sg isn S) (List.find (\<lambda>y. fst y = P) (A1 @ B))" .
  have "release_until (isn + of_nat P) q = release_loop (next_segment q (sg isn S x)) (isn + of_nat P) ?q1 1"
    unfolding release_until_def h(1) using h(2) A(2) by (subst release_loop.simps) (simp add: add.assoc)
  also have "\<dots> = (1, ?q1)"
  proof (cases "List.find (\<lambda>y. fst y = P) (A1 @ B)")
    case None
    then show ?thesis unfolding nx by (simp add: release_loop.simps)
  next
    case (Some y)
    then have y: "fst y = P" "y \<in> set (A1 @ B)" by (auto simp: find_Some_iff in_set_conv_nth simp del: set_append)
    have "0 < snd y" "snd y \<le> 2 ^ 30"
      using y assms A chain_mem [of P A1 N y] spaced_mem [of "N + 1" B y] by (auto simp: rcv_inv_def)
    then show ?thesis unfolding nx Some using y(1)
      by (simp only: option.map) (intro release_stops [OF sg_end], auto)
  qed
  finally show ?thesis using that [of A1] i t A(1) by auto
qed

lemma read_in_frame_len:
  assumes "int P - int (fst x) = off" "fst x \<le> P" "P < fst x + snd x" "snd x < 65536" "tot < len" "len < 2 ^ 31"
  shows "tcp_read_in_frame_len (sg isn S x) off tot len = min (fst x + snd x - P) (len - tot)"
proof -
  let ?l = "if off > 0 then nat ((int (snd x) - off) mod 2 ^ 32) else snd x"
  have l: "?l = fst x + snd x - P" using assms(1-4) by (auto simp: nat_eq_iff of_nat_diff)
  have "?l + tot < 2 ^ 32" unfolding l using assms(2-6) by simp
  then have "(?l + tot) mod 2 ^ 32 = ?l + tot" by (rule mod_less)
  moreover have "nat ((int len - int tot) mod 2 ^ 32) = len - tot" using assms(5,6) by (simp add: nat_eq_iff)
  ultimately show ?thesis unfolding tcp_read_in_frame_len_def Let_def sg_sel l by auto
qed

lemma read_piece:
  assumes "fst x \<le> P" "P + l \<le> fst x + snd x"
  shows "take l (drop (P - fst x) (payload (sg isn S x))) = map S [P..<P + l]"
  using assms by (simp add: take_map drop_map)

lemma read_step_inv:
  assumes i: "rcv_inv isn S P N q (x # A) B" and t: "trimmed P (x # A)"
    and l: "0 < l" "P + l \<le> fst x + snd x"
  shows "\<exists>A'. rcv_inv isn S (P + l) N (tcp_read_check_segment_done (sg isn S x) l q) A' B \<and> set A' \<subseteq> set (x # A)"
proof (cases "l = snd x")
  case True
  then have "P = fst x" using i l by (auto simp: rcv_inv_def)
  then have "rcv_inv isn S (P + l) N (tcp_read_check_segment_done (sg isn S x) l q) A B"
    using i True rcv_inv_tl(2) [OF i] chain_le [of "fst x + snd x" A N]
    by (cases A) (auto simp: rcv_inv_def tcp_read_check_segment_done_def)
  then show ?thesis by auto
next
  case False
  then have "rcv_inv isn S (P + l) N (tcp_read_check_segment_done (sg isn S x) l q) (x # A) B"
    using i l chain_le [of "fst x + snd x" A N]
    by (auto simp: rcv_inv_def tcp_read_check_segment_done_def)
  then show ?thesis by auto
qed

lemma read_loop_spec:
  assumes "rcv_inv isn S P N q A B" "length out \<le> len" "len < 2 ^ 31"
  shows "\<exists>q' A'. read_loop len q (isn + of_nat P) out =
      Some (out @ map S [P..<P + min (len - length out) (N - P)], q', isn + of_nat (P + min (len - length out) (N - P))) \<and>
    rcv_inv isn S (P + min (len - length out) (N - P)) N q' A' B \<and> set A' \<subseteq> set A"
  using assms
proof (induction "len - length out" arbitrary: P q A out rule: less_induct)
  case less
  show ?case
  proof (cases "length out < len")
    case False
    then have "read_loop len q (isn + of_nat P) out = Some (out, q, isn + of_nat P)" by (subst read_loop.simps) simp
    then show ?thesis using less.prems(1) False by auto
  next
    case True
    define q1 where "q1 = snd (release_until (isn + of_nat P) q)"
    obtain A1 where A1: "rcv_inv isn S P N q1 A1 B" "trimmed P A1" "set A1 \<subseteq> set A"
      using release_ok [OF less.prems(1)] unfolding q1_def by metis
    show ?thesis
    proof (cases A1)
      case Nil
      then have N: "P = N" "pool q1 = map (sg isn S) B" using A1(1) by (auto simp: rcv_inv_def)
      have "read_loop len q (isn + of_nat P) out = Some (out, q1, isn + of_nat P)"
      proof (cases B)
        case Nil
        then show ?thesis using True N(2) by (subst read_loop.simps) (simp add: q1_def [symmetric] first_segment_def Let_def)
      next
        case (Cons b bs)
        then have "P < fst b" "fst b \<le> P + 2 ^ 30"
          using rcv_inv_spaced [OF A1(1), of b] rcv_inv_mem [OF A1(1), of b] N(1) by auto
        then have "pico_seq_compare (isn + of_nat P) (isn + of_nat (fst b)) < 0" using compare_pos [of P "fst b" isn] by simp
        then show ?thesis using True N(2) Cons by (subst read_loop.simps) (simp add: q1_def [symmetric] first_segment_def Let_def)
      qed
      then show ?thesis using A1(1,3) N(1) by auto
    next
      case (Cons x xs)
      have i: "rcv_inv isn S P N q1 (x # xs) B" and t: "trimmed P (x # xs)" using A1 Cons by auto
      have x: "fst x \<le> P" "P < fst x + snd x" "snd x < 65536" "fst x + snd x \<le> N"
        using i t chain_le [of "fst x + snd x" xs N] by (auto simp: rcv_inv_def trimmed_def)
      define l where "l = min (fst x + snd x - P) (len - length out)"
      have l: "0 < l" "P + l \<le> fst x + snd x" "l \<le> len - length out" using x True by (auto simp: l_def)
      define q2 where "q2 = tcp_read_check_segment_done (sg isn S x) l q1"
      define out' where "out' = out @ map S [P..<P + l]"
      have off: "pico_seq_compare (isn + of_nat P) (isn + of_nat (fst x)) = int P - int (fst x)"
        using x by (intro compare_pos) auto
      have fr: "tcp_read_in_frame_len (sg isn S x) (int P - int (fst x)) (length out) len = l"
        unfolding l_def using x True less.prems(3) by (intro read_in_frame_len) auto
      have fs: "first_segment q1 = Some (sg isn S x)" using i by (auto simp: rcv_inv_def first_segment_def)
      have nt: "nat (int P - int (fst x)) = P - fst x" by simp
      have ln: "\<not> (P - fst x) + l > snd x" using x l by auto
      have "read_loop len q (isn + of_nat P) out = read_loop len q2 (isn + of_nat (P + l)) out'"
        using True x(1) ln read_piece [OF x(1) l(2)] unfolding q2_def out'_def
        by (subst read_loop.simps) (simp add: q1_def [symmetric] Let_def fs off fr nt add.assoc del: sg_sel(4))
      moreover obtain A2 where A2: "rcv_inv isn S (P + l) N q2 A2 B" "set A2 \<subseteq> set (x # xs)"
        using read_step_inv [OF i t l(1,2)] unfolding q2_def by blast
      moreover have "length out' \<le> len" "len - length out' < len - length out" using l True by (auto simp: out'_def)
      ultimately obtain q' A' where r: "read_loop len q (isn + of_nat P) out =
          Some (out' @ map S [P + l..<P + l + min (len - length out') (N - (P + l))], q',
            isn + of_nat (P + l + min (len - length out') (N - (P + l))))"
        "rcv_inv isn S (P + l + min (len - length out') (N - (P + l))) N q' A' B" "set A' \<subseteq> set A2"
        using less.hyps [of out' "P + l" q2 A2] less.prems(3) by auto
      have k: "P + l + min (len - length out') (N - (P + l)) = P + min (len - length out) (N - P)"
        using l x by (auto simp: out'_def)
      have "[P..<P + l] @ [P + l..<P + min (len - length out) (N - P)] = [P..<P + min (len - length out) (N - P)]"
        using l x upt_add_eq_append [of P "P + l" "min (len - length out) (N - P) - l"] by auto
      then have "out' @ map S [P + l..<P + min (len - length out) (N - P)] = out @ map S [P..<P + min (len - length out) (N - P)]"
        unfolding out'_def append_assoc map_append [symmetric] by simp
      moreover have "set A' \<subseteq> set A" using r(3) A2(2) A1(3) Cons by auto
      ultimately show ?thesis using r unfolding k by auto
    qed
  qed
qed

section \<open>Arrival\<close>

lemma chain_append: "chain a (A @ B) N \<longleftrightarrow> (\<exists>M. chain a A M \<and> chain M B N)"
  by (induction A arbitrary: a) auto

lemma chain_bound: "chain a A N \<Longrightarrow> a \<le> k \<Longrightarrow> (\<And>x. x \<in> set A \<Longrightarrow> fst x + snd x \<le> k) \<Longrightarrow> N \<le> k"
  by (induction A arbitrary: a) auto

lemma spaced_split:
  assumes "spaced b B"
  obtains C D N where "B = C @ D" "chain b C N" "spaced (N + 1) D"
  using assms
proof (induction B arbitrary: b thesis)
  case Nil
  then show ?case by (metis append_Nil chain.simps(1) spaced.simps(1))
next
  case (Cons x xs)
  show ?case
  proof (cases "fst x = b")
    case True
    obtain C D N where "xs = C @ D" "chain (fst x + snd x) C N" "spaced (N + 1) D"
      using Cons.IH [of "fst x + snd x"] Cons.prems(2) by auto
    then show ?thesis using Cons.prems(1) [of "x # C" D N] Cons.prems(2) True by auto
  next
    case False
    then show ?thesis using Cons.prems(1) [of "[]" "x # xs" b] Cons.prems(2) by auto
  qed
qed

lemma scroll_chain:
  assumes "pool q = map (sg isn S) (L @ C @ D)" "chain a C N" "spaced (N + 1) D" "\<forall>x\<in>set L. fst x < a" "length C < k"
    "\<forall>x\<in>set (L @ C @ D). near (fst x) N \<and> (\<forall>y. a \<le> y \<and> y \<le> N \<longrightarrow> near (fst x) y)"
  shows "scroll k q (isn + of_nat a) = isn + of_nat N"
  using assms
proof (induction C arbitrary: L a k)
  case Nil
  have "List.find (\<lambda>x. fst x = a) (L @ [] @ D) = None"
    using Nil.prems spaced_mem [of "a + 1" D] by (fastforce simp: find_None_iff)
  moreover have "all_near (L @ [] @ D) a" using Nil.prems by (auto simp: all_near_def)
  ultimately have "peek_segment q (isn + of_nat a) = None" using peek_pos [OF Nil.prems(1)] by simp
  then show ?case using Nil.prems(2) by (cases k) auto
next
  case (Cons x C)
  obtain j where k: "k = Suc j" "length C < j" using Cons.prems(5) by (cases k) auto
  have aN: "a \<le> N" using chain_le [OF Cons.prems(2)] .
  have "List.find (\<lambda>x. fst x = a) L = None" using Cons.prems(4) by (auto simp: find_None_iff)
  then have "List.find (\<lambda>x. fst x = a) (L @ (x # C) @ D) = Some x"
    using Cons.prems(2) by (induction L) (auto split: if_splits)
  moreover have "all_near (L @ (x # C) @ D) a" using Cons.prems(6) aN by (auto simp: all_near_def)
  ultimately have "peek_segment q (isn + of_nat a) = Some (sg isn S x)" using peek_pos [OF Cons.prems(1)] by simp
  then have "scroll k q (isn + of_nat a) = scroll j q (isn + of_nat (a + snd x))" by (simp add: k(1) add.assoc)
  also have "\<dots> = isn + of_nat N"
    using Cons.prems k(2) by (intro Cons.IH [of "L @ [x]"]) auto
  finally show ?case .
qed

text \<open>The pieces the peer cuts its stream into do not overlap; a retransmission repeats one of them.\<close>

definition pieces_ok :: "piece set \<Rightarrow> bool" where
  "pieces_ok T \<longleftrightarrow> (\<forall>x\<in>T. 0 < snd x \<and> snd x < 65536) \<and>
     (\<forall>x\<in>T. \<forall>y\<in>T. x = y \<or> fst x + snd x \<le> fst y \<or> fst y + snd y \<le> fst x)"

lemma pieces_apart: "pieces_ok T \<Longrightarrow> x \<in> T \<Longrightarrow> y \<in> T \<Longrightarrow> x = y \<or> fst x + snd x \<le> fst y \<or> fst y + snd y \<le> fst x"
  unfolding pieces_ok_def by blast

lemma pieces_pos: "pieces_ok T \<Longrightarrow> x \<in> T \<Longrightarrow> 0 < snd x"
  unfolding pieces_ok_def by blast

lemma pieces_disjoint: "pieces_ok T \<Longrightarrow> x \<in> T \<Longrightarrow> y \<in> T \<Longrightarrow> fst x < fst y \<Longrightarrow> fst x + snd x \<le> fst y"
  using pieces_apart [of T x y] by auto

lemma pieces_same: "pieces_ok T \<Longrightarrow> x \<in> T \<Longrightarrow> y \<in> T \<Longrightarrow> fst x = fst y \<Longrightarrow> x = y"
  using pieces_apart [of T x y] pieces_pos [of T x] pieces_pos [of T y] by linarith

lemma spaced_weaken: "spaced b B \<Longrightarrow> (\<And>x. x \<in> set B \<Longrightarrow> c \<le> fst x) \<Longrightarrow> spaced c B"
  by (cases B) auto

lemma spaced_insert:
  assumes "spaced b B" "pieces_ok T" "set B \<subseteq> T" "y \<in> T" "b \<le> fst y" "y \<notin> set B"
  shows "spaced b (takeWhile (\<lambda>x. fst x < fst y) B @ y # dropWhile (\<lambda>x. fst x < fst y) B)"
  using assms
proof (induction B arbitrary: b)
  case Nil
  then show ?case by (auto simp: pieces_ok_def)
next
  case (Cons x xs)
  show ?case
  proof (cases "fst x < fst y")
    case True
    then have "fst x + snd x \<le> fst y" using Cons.prems pieces_disjoint [of T x y] by auto
    then show ?thesis using Cons True by auto
  next
    case False
    then have "fst y < fst x" using pieces_same [of T x y] Cons.prems by fastforce
    then have "fst y + snd y \<le> fst x" using Cons.prems pieces_disjoint [of T y x] by auto
    then show ?thesis using Cons.prems False by (auto simp: pieces_ok_def)
  qed
qed

lemma set_insert_pos: "set (takeWhile Q B @ y # dropWhile Q B) = insert y (set B)"
proof -
  have "set B = set (takeWhile Q B) \<union> set (dropWhile Q B)" by (metis set_append takeWhile_dropWhile_id)
  then show ?thesis by simp
qed

lemma enqueue_cases:
  assumes "pico_enqueue_segment mem (Some f) q = (r, q')"
  shows "(r \<le> 0 \<and> q' = q) \<or> (0 < r \<and> tfind segment_compare f (pool q) = None \<and> pool q' = tinsert segment_compare f (pool q))"
proof (cases "esize f = 0")
  case False
  then have "0 < int (unat (esize f))" by (simp only: of_nat_0_less_iff unat_gt_0 not_False_eq_True)
  then show ?thesis using assms False
    by (simp add: pico_enqueue_segment_def do_enqueue_segment_def split: if_splits) auto
qed (use assms in \<open>simp add: pico_enqueue_segment_def\<close>)

lemma segment_from_frame_sg:
  "segment_from_frame mem (isn + of_nat b) (map S [b..<b + n]) = (if mem \<and> 0 < n then Some (sg isn S (b, n)) else None)"
  by (simp add: segment_from_frame_def sg_def)

definition stream_inv :: "u32 \<Rightarrow> (nat \<Rightarrow> u8) \<Rightarrow> piece set \<Rightarrow> nat \<Rightarrow> nat \<Rightarrow> pico_socket_tcp \<Rightarrow> bool" where
  "stream_inv isn S T P N t \<longleftrightarrow> (\<exists>A B. rcv_inv isn S P N (tcpq_in t) A B \<and> set (A @ B) \<subseteq> T) \<and>
     rcv_nxt t = isn + of_nat N \<and> rcv_processed t = isn + of_nat P"

lemma rcv_inv_run:
  assumes "rcv_inv isn S P N q A B" "x \<in> set A"
  shows "fst x + snd x \<le> N" "0 < snd x"
proof -
  obtain z zs where "A = z # zs" using assms(2) by (cases A) auto
  then have "chain (fst z) A N" using assms(1) by (simp add: rcv_inv_def)
  then show "fst x + snd x \<le> N" "0 < snd x" using chain_mem assms(2) by blast+
qed

lemma insert_next:
  assumes i: "rcv_inv isn S P N q A B" and T: "pieces_ok T" "set (A @ B) \<subseteq> T" "y \<in> T" and y: "fst y = N" "N + snd y \<le> P + 2 ^ 30"
    and q': "pool q' = tinsert segment_compare (sg isn S y) (pool q)"
  obtains N' A' B' where "rcv_inv isn S P N' q' A' B'" "set (A' @ B') \<subseteq> T"
    "\<And>k. length (pool q') < k \<Longrightarrow> scroll k q' (isn + of_nat (N + snd y)) = isn + of_nat N'"
proof -
  have PN: "P \<le> N" "N \<le> P + 2 ^ 30" using i by (auto simp: rcv_inv_def)
  have yT: "0 < snd y" "snd y < 65536" using T(1,3) by (auto simp: pieces_ok_def)
  have nr: "all_near (A @ B) (fst y)" using PN y(1) by (intro rcv_inv_near [OF i]) auto
  have lA: "fst x < N" if "x \<in> set A" for x using rcv_inv_run [OF i that] by auto
  have gB: "N < fst x" if "x \<in> set B" for x using rcv_inv_spaced [OF i that] .
  have "List.find (\<lambda>x. fst x = fst y) (A @ B) = None"
  proof (cases "List.find (\<lambda>x. fst x = fst y) (A @ B)")
    case (Some x)
    then obtain j where "j < length (A @ B)" "fst ((A @ B) ! j) = fst y" "x = (A @ B) ! j" unfolding find_Some_iff by blast
    then have "x \<in> set (A @ B)" "fst x = N" using y(1) nth_mem by (blast, simp)
    then show ?thesis using lA [of x] gB [of x] by auto
  qed
  moreover have "takeWhile (\<lambda>x. fst x < fst y) B = []" "dropWhile (\<lambda>x. fst x < fst y) B = B"
    using gB [of "hd B"] y(1) by (cases B; simp)+
  then have "takeWhile (\<lambda>x. fst x < fst y) (A @ B) = A" "dropWhile (\<lambda>x. fst x < fst y) (A @ B) = B"
    using lA y(1) by (simp_all add: takeWhile_append dropWhile_append)
  ultimately have pl: "pool q' = map (sg isn S) (A @ y # B)"
    using q' tinsert_pos [OF nr] i by (simp add: rcv_inv_def)
  have "spaced (N + snd y) B"
  proof (rule spaced_weaken)
    show "spaced (N + 1) B" using i by (simp add: rcv_inv_def)
    show "N + snd y \<le> fst x" if "x \<in> set B" for x
      using pieces_disjoint [OF T(1,3), of x] T(2) gB [OF that] that y(1) by auto
  qed
  then obtain C D N' where B: "B = C @ D" "chain (N + snd y) C N'" "spaced (N' + 1) D" by (rule spaced_split)
  have N': "N + snd y \<le> N'" "N' \<le> P + 2 ^ 30"
    using chain_le [OF B(2)] chain_bound [OF B(2) y(2)] i B(1) by (auto simp: rcv_inv_def)
  have yC: "chain N (y # C) N'" using B(2) y(1) yT by simp
  have "case A @ y # C of [] \<Rightarrow> P = N' | x # _ \<Rightarrow> chain (fst x) (A @ y # C) N' \<and> fst x \<le> P \<and> P \<le> fst x + snd x"
  proof (cases A)
    case Nil
    then have "P = N" using i by (simp add: rcv_inv_def)
    then show ?thesis using Nil yC y(1) by simp
  next
    case (Cons z zs)
    then have "chain (fst z) A N \<and> fst z \<le> P \<and> P \<le> fst z + snd z" using i by (simp add: rcv_inv_def)
    moreover have "chain (fst z) (A @ y # C) N'" using calculation yC chain_append by blast
    ultimately show ?thesis using Cons by simp
  qed
  moreover have "\<forall>x\<in>set D. fst x + snd x \<le> P + 2 ^ 30" using i B(1) by (simp add: rcv_inv_def)
  ultimately have "rcv_inv isn S P N' q' (A @ y # C) D"
    unfolding rcv_inv_def using pl B(1,3) N' PN by simp
  moreover have "set ((A @ y # C) @ D) \<subseteq> T" using T B(1) by auto
  moreover have "scroll k q' (isn + of_nat (N + snd y)) = isn + of_nat N'" if "length (pool q') < k" for k
  proof (rule scroll_chain [of q' isn S "A @ [y]" C D])
    show "pool q' = map (sg isn S) ((A @ [y]) @ C @ D)" using pl B(1) by simp
    show "\<forall>x\<in>set (A @ [y]). fst x < N + snd y" using lA y(1) yT by (auto intro: trans_less_add1)
    show "length C < k" using that pl B(1) by simp
    show "\<forall>x\<in>set ((A @ [y]) @ C @ D). near (fst x) N' \<and> (\<forall>z. N + snd y \<le> z \<and> z \<le> N' \<longrightarrow> near (fst x) z)"
    proof
      fix x assume "x \<in> set ((A @ [y]) @ C @ D)"
      then have "x \<in> set (A @ B) \<or> x = y" using B(1) by auto
      then have "P < fst x + 65536" "fst x \<le> P + 2 ^ 30" using rcv_inv_mem [OF i, of x] y PN by auto
      then show "near (fst x) N' \<and> (\<forall>z. N + snd y \<le> z \<and> z \<le> N' \<longrightarrow> near (fst x) z)"
        using N' PN yT by (auto simp: near_def)
    qed
  qed (use B in auto)
  ultimately show ?thesis using that by blast
qed

lemma insert_high:
  assumes i: "rcv_inv isn S P N q A B" and T: "pieces_ok T" "set (A @ B) \<subseteq> T" "y \<in> T"
    and y: "N < fst y" "fst y + snd y \<le> P + 2 ^ 30"
    and q': "pool q' = tinsert segment_compare (sg isn S y) (pool q)" "tfind segment_compare (sg isn S y) (pool q) = None"
  shows "\<exists>B'. rcv_inv isn S P N q' A B' \<and> set (A @ B') \<subseteq> T"
proof -
  let ?Q = "\<lambda>x. fst x < fst y"
  have PN: "P \<le> N" "N \<le> P + 2 ^ 30" using i by (auto simp: rcv_inv_def)
  have nr: "all_near (A @ B) (fst y)" using PN y by (intro rcv_inv_near [OF i]) auto
  have f: "List.find (\<lambda>x. fst x = fst y) (A @ B) = None"
    using q'(2) tfind_pos [OF nr, of isn S] i by (simp add: rcv_inv_def)
  have "fst x < fst y" if "x \<in> set A" for x using rcv_inv_run [OF i that] y(1) by auto
  then have "takeWhile ?Q (A @ B) = A @ takeWhile ?Q B" "dropWhile ?Q (A @ B) = dropWhile ?Q B"
    by (simp_all add: takeWhile_append dropWhile_append)
  then have pl: "pool q' = map (sg isn S) (A @ takeWhile ?Q B @ y # dropWhile ?Q B)"
    using q'(1) tinsert_pos [OF nr f] i by (simp add: rcv_inv_def)
  have "y \<notin> set B"
  proof
    assume "y \<in> set B"
    then have "y \<in> set (A @ B)" by simp
    then show False using f unfolding find_None_iff by blast
  qed
  then have "spaced (N + 1) (takeWhile ?Q B @ y # dropWhile ?Q B)"
    using i T y by (intro spaced_insert [of _ _ T]) (auto simp: rcv_inv_def)
  then have "rcv_inv isn S P N q' A (takeWhile ?Q B @ y # dropWhile ?Q B)"
    using i pl y(2) unfolding rcv_inv_def set_insert_pos by auto
  then show ?thesis using T(2,3) by (metis (no_types, lifting) Un_subset_iff insert_subset set_append set_insert_pos)
qed

lemma sack_prepare_keeps [simp]:
  "tcpq_in (tcp_sack_prepare m t) = tcpq_in t" "rcv_nxt (tcp_sack_prepare m t) = rcv_nxt t"
  "rcv_processed (tcp_sack_prepare m t) = rcv_processed t"
  by (simp_all add: tcp_sack_prepare_def)

lemma store_ok:
  assumes inv: "stream_inv isn S T P N t" and T: "pieces_ok T" "(b, n) \<in> T" and w: "b + n \<le> P + 2 ^ 30" "P < b + 2 ^ 30"
  shows "\<exists>N'. stream_inv isn S T P N' (snd (store_segment m (isn + of_nat b) (map S [b..<b + n]) t))"
proof -
  obtain A B where i: "rcv_inv isn S P N (tcpq_in t) A B" "set (A @ B) \<subseteq> T"
    and r: "rcv_nxt t = isn + of_nat N" "rcv_processed t = isn + of_nat P" using inv by (auto simp: stream_inv_def)
  have PN: "P \<le> N" "N \<le> P + 2 ^ 30" using i by (auto simp: rcv_inv_def)
  have cmp: "pico_seq_compare (isn + of_nat b) (rcv_nxt t) = int b - int N"
    unfolding r(1) using PN w by (intro compare_pos) auto
  obtain r' q' where e: "pico_enqueue_segment (mem_node m) (Some (sg isn S (b, n))) (tcpq_in t) = (r', q')" by (metis surj_pair)
  define ok where "ok = (mem_seg m \<and> 0 < n \<and> 0 < r')"
  have bad: "q' = tcpq_in t" if "\<not> 0 < r'" using enqueue_cases [OF e] that by auto
  have good: "pool q' = tinsert segment_compare (sg isn S (b, n)) (pool (tcpq_in t))"
    "tfind segment_compare (sg isn S (b, n)) (pool (tcpq_in t)) = None" if ok
    using enqueue_cases [OF e] that by (auto simp: ok_def)
  have low: "snd (tcp_data_in_expected m (isn + of_nat b) (map S [b..<b + n]) t) =
      (if ok then t\<lparr>tcpq_in := q', rcv_nxt := scroll (length (pool q') + 1) q' (isn + of_nat b + of_nat n),
         ev_pending := ev_pending t OR 1\<rparr> else t)" if "pico_seq_compare (isn + of_nat b) (rcv_nxt t) = 0"
    using bad that by (cases "0 < r'") (simp_all add: tcp_data_in_expected_def segment_from_frame_sg e ok_def del: scroll.simps)
  have old: "snd (tcp_data_in_expected m (isn + of_nat b) (map S [b..<b + n]) t) = t" if "b < N"
    using that by (simp add: tcp_data_in_expected_def cmp)
  have high: "snd (tcp_data_in_high_segment m (isn + of_nat b) (map S [b..<b + n]) t) =
      (if sack_ok t \<and> ok then tcp_sack_prepare (mem_sack m) (t\<lparr>tcpq_in := q'\<rparr>) else t)"
    using bad by (cases "0 < r'") (simp_all add: tcp_data_in_high_segment_def segment_from_frame_sg e ok_def)
  consider "(b < N \<or> b = N \<and> \<not> ok) \<or> N < b \<and> \<not> (sack_ok t \<and> ok)" | "b = N" ok | "N < b" "sack_ok t" ok by linarith
  then show ?thesis
  proof cases
    case 1
    then have "snd (store_segment m (isn + of_nat b) (map S [b..<b + n]) t) = t"
      using low old cmp by (auto simp: store_segment_def high)
    then show ?thesis using inv by auto
  next
    case 2
    obtain N' A' B' where n: "rcv_inv isn S P N' q' A' B'" "set (A' @ B') \<subseteq> T"
      "\<And>k. length (pool q') < k \<Longrightarrow> scroll k q' (isn + of_nat (N + snd (b, n))) = isn + of_nat N'"
      using insert_next [OF i(1) T(1) i(2) T(2) _ _ good(1) [OF 2(2)]] 2(1) w(1) by auto
    have "stream_inv isn S T P N' (snd (store_segment m (isn + of_nat b) (map S [b..<b + n]) t))"
      using 2 n(1,2) n(3) [of "length (pool q') + 1"] r(2) low cmp by (auto simp: store_segment_def stream_inv_def add.assoc)
    then show ?thesis by blast
  next
    case 3
    obtain B' where "rcv_inv isn S P N q' A B' \<and> set (A @ B') \<subseteq> T"
      using insert_high [OF i(1) T(1) i(2) T(2) _ _ good [OF 3(3)]] 3(1) w(1) by auto
    then have "stream_inv isn S T P N (snd (store_segment m (isn + of_nat b) (map S [b..<b + n]) t))"
      using 3 r cmp by (auto simp: store_segment_def high stream_inv_def)
    then show ?thesis by blast
  qed
qed

section \<open>What leaves the receive queue alone\<close>

definition rx_view :: "pico_socket_tcp \<Rightarrow> tcpq \<times> u32 \<times> u32" where
  "rx_view t = (tcpq_in t, rcv_nxt t, rcv_processed t)"

lemma stream_inv_view: "rx_view t = rx_view t' \<Longrightarrow> stream_inv isn S T P N t = stream_inv isn S T P N t'"
  by (simp add: rx_view_def stream_inv_def)

lemma process_sack_view: "rx_view (tcp_process_sack a b t) = rx_view t"
  by (simp add: tcp_process_sack_def rx_view_def Let_def split: prod.split)

lemma sack_blocks_view: "sack_blocks opt n t = Parsed t' \<Longrightarrow> rx_view t' = rx_view t"
proof (induction n arbitrary: opt t)
  case (Suc n)
  then show ?case using process_sack_view by (auto split: if_splits)
qed simp

lemma parse_one_view: "parse_one opt flags k len (t, ts, i) = Parsed (t', ts', i') \<Longrightarrow> rx_view t' = rx_view t"
  unfolding parse_one_def
  by (auto simp: tcp_parse_option_ws_def tcp_parse_option_sack_ok_def tcp_parse_option_mss_def tcp_parse_option_timestamp_def
      expect_def tcp_rcv_sack_def rx_view_def Let_def split: if_splits parse.splits dest: sack_blocks_view [unfolded rx_view_def])

lemma parse_loop_view: "opt_loop n opt flags pay (t, ts, i) = Parsed (t', ts', i') \<Longrightarrow> rx_view t' = rx_view t"
  by (rule opt_loop_keeps [of rx_view, OF parse_one_view])

lemma parse_options_view: "tcp_parse_options n opt flags pay t = Parsed (t', ts) \<Longrightarrow> rx_view t' = rx_view t"
  by (auto simp: tcp_parse_options_def dest: parse_loop_view split: parse.splits)

lemma add_options_view: "tcp_add_options now t flags k = Some (opts, t') \<Longrightarrow> rx_view t' = rx_view t"
  by (auto simp: tcp_add_options_def tcp_add_sack_option_def Let_def rx_view_def split: if_splits prod.splits)

lemma set_space_view: "(\<And>s. rx_view (fst (send s)) = rx_view (fst s)) \<Longrightarrow> rx_view (fst (set_space_with send s)) = rx_view (fst s)"
  by (auto simp: set_space_with_def tcp_set_space_check_winupdate_def rx_view_def Let_def split: prod.splits if_splits)

lemma send_ack_view: "rx_view (fst (send_ack d mem now s)) = rx_view (fst s)"
proof (induction d arbitrary: s)
  case (Suc d)
  have v: "rx_view (fst (set_space_with (send_ack d mem now) s)) = rx_view (fst s)" by (rule set_space_view) (rule Suc.IH)
  obtain t lg where s': "set_space_with (send_ack d mem now) s = (t, lg)" by (metis surj_pair)
  have "rx_view t1 = rx_view t \<Longrightarrow> rx_view (t1\<lparr>rcv_ackd := x\<rparr>) = rx_view t" for t1 x by (simp add: rx_view_def)
  then show ?case using v s'
    by (auto simp: send_empty_with_def Let_def split: option.splits dest!: add_options_view)
qed simp

lemma read_finish_view: "rx_view (fst (tcp_read_finish mem now s)) = rx_view (fst s)"
proof -
  have v: "rx_view (fst (tcp_set_space mem now s)) = rx_view (fst s)"
    unfolding tcp_set_space_def by (rule set_space_view) (rule send_ack_view)
  obtain t lg where "tcp_set_space mem now s = (t, lg)" by (metis surj_pair)
  then show ?thesis using v by (auto simp: tcp_read_finish_def rx_view_def Let_def)
qed

section \<open>The stream\<close>

text \<open>A segment of the peer: header, options and payload, with the sequence number of the payload's first byte.\<close>

definition carries :: "bytes \<Rightarrow> u32 \<Rightarrow> bytes \<Rightarrow> bool" where
  "carries f s data \<longleftrightarrow> 20 \<le> hdr_len f \<and> hdr_len f \<le> length f \<and> SEQN f = s \<and> drop (hdr_len f) f = data"

text \<open>
  What can happen to the receiving side of a connection: segments arrive in any order, some more than
  once, some never, allocations fail or not, and the application reads when it likes. \<open>got\<close> is what it has read.
\<close>

inductive rx :: "u32 \<Rightarrow> (nat \<Rightarrow> u8) \<Rightarrow> piece set \<Rightarrow> tcps \<Rightarrow> bytes \<Rightarrow> bool" for isn S T where
  start: "pool (tcpq_in t) = [] \<Longrightarrow> rcv_nxt t = isn \<Longrightarrow> rcv_processed t = isn \<Longrightarrow> rx isn S T (t, lg) []"
| arrive: "rx isn S T s got \<Longrightarrow> (b, n) \<in> T \<Longrightarrow> carries f (isn + of_nat b) (map S [b..<b + n]) \<Longrightarrow>
    b + n \<le> length got + 2 ^ 30 \<Longrightarrow> length got < b + 2 ^ 30 \<Longrightarrow>
    tcp_data_in m fuel now f s = Some (r, s') \<Longrightarrow> rx isn S T s' got"
| read: "rx isn S T s got \<Longrightarrow> len < 2 ^ 31 \<Longrightarrow> pico_tcp_read mem now len s = Some (out, s') \<Longrightarrow> rx isn S T s' (got @ out)"

inductive_cases rx_cases: "rx isn S T s got"

lemma data_in_ok:
  assumes inv: "stream_inv isn S T P N (fst s)" and T: "pieces_ok T" "(b, n) \<in> T" and f: "carries f (isn + of_nat b) (map S [b..<b + n])"
    and w: "b + n \<le> P + 2 ^ 30" "P < b + 2 ^ 30" and d: "tcp_data_in m fuel now f s = Some (r, s')"
  shows "\<exists>N'. stream_inv isn S T P N' (fst s')"
proof -
  have h: "\<not> length f < 20" "hdr_len f \<le> length f" using f by (auto simp: carries_def)
  obtain t ts where p: "tcp_parse_options fuel (drop 20 f) (hdr_flags f) (Some (int (hdr_len f) - 20)) (fst s) = Parsed (t, ts)"
    using d h by (auto simp: tcp_data_in_def split: parse.splits)
  have "stream_inv isn S T P N t" using inv stream_inv_view [OF parse_options_view [OF p]] by blast
  then obtain N' where N': "stream_inv isn S T P N' (snd (store_segment m (isn + of_nat b) (map S [b..<b + n]) t))"
    using store_ok [OF _ T w] by blast
  have "s' = tcp_data_in_send_ack m now (hdr_flags f) (snd (store_segment m (isn + of_nat b) (map S [b..<b + n]) t), snd s)"
    using d h p f by (auto simp: tcp_data_in_def carries_def split: prod.splits)
  then have "rx_view (fst s') = rx_view (snd (store_segment m (isn + of_nat b) (map S [b..<b + n]) t))"
    using send_ack_view by (simp add: tcp_data_in_send_ack_def tcp_send_ack_def)
  then show ?thesis using N' stream_inv_view by blast
qed

lemma read_ok:
  assumes "stream_inv isn S T P N (fst s)" "len < 2 ^ 31"
  shows "\<exists>s'. pico_tcp_read mem now len s = Some (map S [P..<P + min len (N - P)], s') \<and>
    stream_inv isn S T (P + min len (N - P)) N (fst s')"
proof -
  obtain A B where i: "rcv_inv isn S P N (tcpq_in (fst s)) A B" "set (A @ B) \<subseteq> T" and
    r: "rcv_nxt (fst s) = isn + of_nat N" "rcv_processed (fst s) = isn + of_nat P" using assms(1) by (auto simp: stream_inv_def)
  obtain q' A' where q': "read_loop len (tcpq_in (fst s)) (isn + of_nat P) [] =
      Some (map S [P..<P + min len (N - P)], q', isn + of_nat (P + min len (N - P)))"
    "rcv_inv isn S (P + min len (N - P)) N q' A' B" "set A' \<subseteq> set A"
    using read_loop_spec [OF i(1), of "[]" len] assms(2) by auto
  define s1 where "s1 = ((fst s)\<lparr>tcpq_in := q', rcv_processed := isn + of_nat (P + min len (N - P))\<rparr>, snd s)"
  have "stream_inv isn S T (P + min len (N - P)) N (fst s1)"
    unfolding stream_inv_def using q'(2,3) i(2) r by (auto simp: s1_def)
  then have "stream_inv isn S T (P + min len (N - P)) N (fst (tcp_read_finish mem now s1))"
    using stream_inv_view [OF read_finish_view] by blast
  then show ?thesis using q'(1) r(2) by (simp add: pico_tcp_read_def s1_def)
qed

lemma rx_inv:
  assumes "rx isn S T s got" "pieces_ok T"
  shows "got = map S [0..<length got] \<and> (\<exists>N. stream_inv isn S T (length got) N (fst s))"
  using assms
proof induction
  case (start t lg)
  then have "rcv_inv isn S 0 0 (tcpq_in t) [] []" by (simp add: rcv_inv_def)
  then have "stream_inv isn S T 0 0 t" unfolding stream_inv_def using start by (intro conjI exI [of _ "[]"]) auto
  then show ?case by auto
next
  case (arrive s got b n f m fuel now r s')
  then obtain N where N: "stream_inv isn S T (length got) N (fst s)" by blast
  show ?case using arrive data_in_ok [OF N arrive.prems arrive.hyps(2-5) arrive.hyps(6)] by blast
next
  case (read s got len mem now out s')
  then obtain N where N: "stream_inv isn S T (length got) N (fst s)" by blast
  obtain s2 where s2: "pico_tcp_read mem now len s = Some (map S [length got..<length got + min len (N - length got)], s2)"
    "stream_inv isn S T (length got + min len (N - length got)) N (fst s2)"
    using read_ok [OF N read.hyps(2)] by blast
  let ?k = "min len (N - length got)"
  have o: "out = map S [length got..<length got + ?k]" "s' = s2" using s2(1) read.hyps(3) by auto
  have "got @ out = map S ([0..<length got] @ [length got..<length got + ?k])" using read o by simp
  also have "\<dots> = map S [0..<length got + ?k]" by (subst upt_add_eq_append) auto
  finally have "got @ out = map S [0..<length (got @ out)]" using o by simp
  then show ?case using s2(2) o by auto
qed

lemma read_exists:
  assumes "pieces_ok T" "rx isn S T s got" "len < 2 ^ 31"
  shows "\<exists>out s'. pico_tcp_read mem now len s = Some (out, s')"
proof -
  obtain N where "stream_inv isn S T (length got) N (fst s)" using rx_inv [OF assms(2,1)] by blast
  from read_ok [OF this assms(3)] show ?thesis by blast
qed

text \<open>C3: Whatever segments of the peer's stream arrive, in any order and repeated or lost, and whenever the
  application reads, what it has read is a prefix of the stream, each byte once and in order; and
  the next read of \<open>len\<close> bytes returns exactly the next bytes of the stream up to the
  position \<^verbatim>\<open>rcv_nxt\<close> stands for, at most \<open>len\<close> of them. The peer cuts its stream into pieces that do
  not overlap and stays within a window of \<^verbatim>\<open>ONE_GIGABYTE\<close> around the position read.
\<close>

theorem pico_tcp_read_stream:
  assumes "pieces_ok T" "rx isn S T s got"
  shows "got = map S [0..<length got] \<and>
    (\<exists>N \<ge> length got. rcv_nxt (fst s) = isn + of_nat N \<and>
      (\<forall>mem now len. len < 2 ^ 31 \<longrightarrow>
         (\<exists>s'. pico_tcp_read mem now len s = Some (map S [length got..<length got + min len (N - length got)], s'))))"
proof -
  obtain N where g: "got = map S [0..<length got]" and N: "stream_inv isn S T (length got) N (fst s)"
    using rx_inv [OF assms(2,1)] by blast
  have "length got \<le> N" "rcv_nxt (fst s) = isn + of_nat N" using N by (auto simp: stream_inv_def rcv_inv_def)
  moreover have "\<exists>s'. pico_tcp_read mem now len s = Some (map S [length got..<length got + min len (N - length got)], s')"
    if "len < 2 ^ 31" for mem now len using read_ok [OF N that] by blast
  ultimately show ?thesis using g by blast
qed

text \<open>A segment without options is taken whatever the state.\<close>

lemma data_in_plain:
  assumes "carries f sq data" "hdr_len f = 20"
  shows "\<exists>r s'. tcp_data_in m (Suc n) now f s = Some (r, s')"
proof -
  have h: "20 \<le> length f" using assms by (simp add: carries_def)
  have "\<exists>i. opt_loop (Suc n) (drop 20 f) (hdr_flags f) (Some 0) (fst s, 0, 0) = Parsed (fst s, 0, i)"
    by (subst opt_loop.simps) (auto simp: Let_def split: prod.split if_splits)
  then have "\<exists>t. tcp_parse_options (Suc n) (drop 20 f) (hdr_flags f) (Some (int (hdr_len f) - 20)) (fst s) = Parsed (t, 0)"
    by (auto simp: tcp_parse_options_def assms(2))
  then show ?thesis using h assms(2) by (auto simp: tcp_data_in_def split: prod.split)
qed

definition plain_segment :: "u32 \<Rightarrow> bytes \<Rightarrow> bytes" where
  "plain_segment s data = [0, 0, 0, 0] @ bytes_of_u32 (long_be s) @ [0, 0, 0, 0, 0x50, 0x10, 0, 0, 0, 0, 0, 0] @ data"

lemma plain_segment_carries: "carries (plain_segment s data) s data" "hdr_len (plain_segment s data) = 20"
proof -
  have l: "length (bytes_of_u32 w) = 4" for w by simp
  have n: "plain_segment s data ! 12 = 0x50" by (simp add: plain_segment_def nth_append l)
  then show h: "hdr_len (plain_segment s data) = 20" by (simp add: hdr_len_def)
  have "SEQN (plain_segment s data) = s" by (simp add: SEQN_def plain_segment_def long_from_append)
  moreover have "drop 20 (plain_segment s data) = data" by (simp add: plain_segment_def l)
  ultimately show "carries (plain_segment s data) s data" using h by (simp add: carries_def plain_segment_def l)
qed

text \<open>Two pieces across the wrap-around of the sequence numbers, the second one first, the first one twice, then a read.\<close>

theorem pico_tcp_read_stream_witness:
  "\<exists>s got. rx 0xFFFFFFFE of_nat {(0, 3), (3, 2)} s got \<and> got = map of_nat [0..<length got]"
proof -
  let ?T = "{(0, 3), (3, 2)} :: piece set"
  let ?isn = "0xFFFFFFFE :: u32"
  let ?m = "\<lparr>mem_seg = True, mem_node = True, mem_sack = True, mem_ack = True\<rparr>"
  let ?t = "fresh_tcp\<lparr>rcv_nxt := ?isn, rcv_processed := ?isn, sack_ok := True\<rparr>"
  have T: "pieces_ok ?T" by (simp add: pieces_ok_def)
  have arr: "\<exists>s'. rx ?isn of_nat ?T s' []" if "rx ?isn of_nat ?T s []" "(b, n) \<in> ?T" for s b n
  proof -
    let ?f = "plain_segment (?isn + of_nat b) (map of_nat [b..<b + n])"
    obtain r s' where "tcp_data_in ?m 1 0 ?f s = Some (r, s')"
      using data_in_plain [OF plain_segment_carries] by (metis One_nat_def)
    with that have "rx ?isn of_nat ?T s' []" by (intro rx.arrive [OF that(1,2) plain_segment_carries(1)]) auto
    then show ?thesis by blast
  qed
  have "rx ?isn of_nat ?T (?t, []) []" by (rule rx.start) (simp_all add: fresh_tcp_def)
  then obtain s where s: "rx ?isn of_nat ?T s []" using arr [of _ 3 2] arr [of _ 0 3] by (metis insertCI)
  obtain out s' where "pico_tcp_read True 0 10 s = Some (out, s')" using read_exists [OF T s, of 10 True 0] by auto
  then have "rx ?isn of_nat ?T s' ([] @ out)" using s by (intro rx.read [of _ _ _ s "[]" 10]) auto
  then have r: "rx ?isn of_nat ?T s' out" by simp
  show ?thesis using pico_tcp_read_stream [OF T r] r by blast
qed

section \<open>Pieces that overlap\<close>

lemma enqueue_pos:
  assumes "pool q = map (sg isn S) L" "all_near L (fst y)" "List.find (\<lambda>x. fst x = fst y) L = None"
    "0 < snd y" "snd y < 65536" "\<not> size q + of_nat (snd y) > max_size q"
  shows "\<exists>q'. pico_enqueue_segment True (Some (sg isn S y)) q = (int (snd y), q') \<and> size q' = size q + of_nat (snd y) \<and>
    max_size q' = max_size q \<and>
    pool q' = map (sg isn S) (takeWhile (\<lambda>x. fst x < fst y) L @ y # dropWhile (\<lambda>x. fst x < fst y) L)"
proof -
  have u: "unat (of_nat (snd y) :: u16) = snd y" using assms(5) by (simp add: unat_of_nat)
  then have e: "(of_nat (snd y) :: u16) \<noteq> 0" using assms(4) by (metis less_numeral_extra(3) unat_0)
  have c: "ucast (of_nat (snd y) :: u16) = (of_nat (snd y) :: u32)"
    using assms(5) by (simp add: unsigned_of_nat take_bit_nat_eq_self)
  show ?thesis
    using assms tfind_pos [OF assms(2), of isn S] tinsert_pos [OF assms(2,3), of isn S] e
    by (simp add: pico_enqueue_segment_def do_enqueue_segment_def c u del: of_nat_unat)
qed

definition store_pieces :: "tcp_mem \<Rightarrow> u32 \<Rightarrow> (nat \<Rightarrow> u8) \<Rightarrow> piece list \<Rightarrow> pico_socket_tcp \<Rightarrow> pico_socket_tcp" where
  "store_pieces m isn S xs t = fold (\<lambda>x t. snd (store_segment m (isn + of_nat (fst x)) (map S [fst x..<fst x + snd x]) t)) xs t"

lemma overlap_read:
  assumes q: "pool q = map (sg isn S) [(0, 10), (2, 2), (5, 3)]" and len: "10 < len" "len < 2 ^ 31"
  shows "read_loop len q isn [] = None"
proof -
  have nr: "all_near L k" if "k < 16" "\<forall>x\<in>set L. fst x < 16" for L k
    using that by (auto simp: all_near_def near_def)
  define q1 where "q1 = pico_discard_segment (sg isn S (0, 10)) q"
  define q2 where "q2 = pico_discard_segment (sg isn S (2, 2)) q1"
  have q1: "pool q1 = map (sg isn S) [(2, 2), (5, 3)]"
    unfolding q1_def using discard_pos [OF q, of "(0, 10)"] nr [of 0 "[(0, 10), (2, 2), (5, 3)]"] by simp
  have q2: "pool q2 = map (sg isn S) [(5, 3)]"
    unfolding q2_def using discard_pos [OF q1, of "(2, 2)"] nr [of 2 "[(2, 2), (5, 3)]"] by simp
  have fq: "first_segment q = Some (sg isn S (0, 10))" "first_segment q1 = Some (sg isn S (2, 2))" "first_segment q2 = Some (sg isn S (5, 3))"
    using q q1 q2 by (simp_all add: first_segment_def)
  have "release_until isn q = (0, q)"
    using release_stops [of "sg isn S (0, 10)" isn 10 0 q 0] fq(1) by (simp add: release_until_def)
  moreover have "tcp_read_in_frame_len (sg isn S (0, 10)) 0 0 len = 10" using len by (simp add: tcp_read_in_frame_len_def)
  ultimately have 1: "read_loop len q isn [] = read_loop len q1 (isn + 10) (map S [0..<10])"
    using len by (subst read_loop.simps)
      (simp add: fq(1) tcp_read_check_segment_done_def q1_def Let_def del: upt_rec_numeral)
  have "pico_seq_compare (isn + 4) (isn + 10) = - 6" using compare_pos [of 4 10 isn] by simp
  moreover have "next_segment q1 (sg isn S (2, 2)) = None"
    unfolding next_segment_def sg_end using peek_pos [OF q1, of 4] nr [of 4 "[(2, 2), (5, 3)]"] by simp
  ultimately have r: "release_until (isn + 10) q1 = (1, q2)"
    using q1 by (simp add: release_until_def fq(2) release_loop.simps q2_def add.assoc)
  have "pico_seq_compare (isn + 10) (isn + 5) = 5" using compare_pos [of 10 5 isn] by simp
  moreover have "tcp_read_in_frame_len (sg isn S (5, 3)) 5 10 len = 2 ^ 32 - 2" using len by (simp add: tcp_read_in_frame_len_def)
  ultimately have "read_loop len q1 (isn + 10) (map S [0..<10]) = None"
    using len by (subst read_loop.simps) (simp add: r fq(3) Let_def del: upt_rec_numeral)
  then show ?thesis using 1 by simp
qed

text \<open>C37: When the pieces of a retransmission overlap without coinciding, a read copies from outside a segment. \<open>[2, 4)\<close>
  and \<open>[5, 8)\<close> arrive out of order and are queued, then \<open>[0, 10)\<close> arrives as expected and is queued before them. A
  read of more than ten bytes reads that one, releases the piece at 2, and goes on with the piece
  at 5: its offset there is 5, beyond its 3 bytes, and the length to copy, 3 - 5, wraps.
\<close>

theorem pico_tcp_read_overlap_overread:
  assumes "pool (tcpq_in t) = []" "size (tcpq_in t) = 0" "15 \<le> max_size (tcpq_in t)" "sack_ok t" "rcv_nxt t = isn"
    "rcv_processed t = isn" "mem_seg m" "mem_node m" "10 < len" "len < 2 ^ 31"
  shows "pico_tcp_read mem now len (store_pieces m isn S [(2, 2), (5, 3), (0, 10)] t, lg) = None"
proof -
  define t1 where "t1 = snd (store_segment m (isn + 2) (map S [2..<4]) t)"
  define t2 where "t2 = snd (store_segment m (isn + 5) (map S [5..<8]) t1)"
  define t3 where "t3 = snd (store_segment m isn (map S [0..<10]) t2)"
  have big: "\<not> a > max_size (tcpq_in t)" if "a \<le> 15" for a using that assms(3) by (metis leD order.trans)
  have nr: "all_near L k" if "k < 16" "\<forall>x\<in>set L. fst x < 16" for L k
    using that by (auto simp: all_near_def near_def)
  obtain q1 where q1: "pico_enqueue_segment True (Some (sg isn S (2, 2))) (tcpq_in t) = (2, q1)" "size q1 = 2"
    "max_size q1 = max_size (tcpq_in t)" "pool q1 = map (sg isn S) [(2, 2)]"
    using enqueue_pos [of "tcpq_in t" isn S "[]" "(2, 2)"] nr [of 2 "[]"] big [of 2] assms(1,2) by auto
  obtain q2 where q2: "pico_enqueue_segment True (Some (sg isn S (5, 3))) q1 = (3, q2)" "size q2 = 5"
    "max_size q2 = max_size (tcpq_in t)" "pool q2 = map (sg isn S) [(2, 2), (5, 3)]"
    using enqueue_pos [of q1 isn S "[(2, 2)]" "(5, 3)"] nr [of 5 "[(2, 2)]"] big [of 5] q1 by auto
  obtain q3 where q3: "pico_enqueue_segment True (Some (sg isn S (0, 10))) q2 = (10, q3)"
    "pool q3 = map (sg isn S) [(0, 10), (2, 2), (5, 3)]"
    using enqueue_pos [of q2 isn S "[(2, 2), (5, 3)]" "(0, 10)"] nr [of 0 "[(2, 2), (5, 3)]"] big [of 15] q2 by auto
  have f: "segment_from_frame (mem_seg m) (isn + of_nat b) (map S [b..<b + n]) = Some (sg isn S (b, n))" if "0 < n" for b n
    using segment_from_frame_sg [of "mem_seg m" isn b S n] that assms(7) by simp
  have c: "pico_seq_compare (isn + of_nat b) isn = int b" if "b < 16" for b
    using compare_pos [of b 0 isn] that by simp
  have t1: "tcpq_in t1 = q1" "rcv_nxt t1 = isn" "rcv_processed t1 = isn" "sack_ok t1"
    using q1 assms(4-8) c [of 2] f [of 2 2]
    by (simp_all add: t1_def store_segment_def tcp_data_in_high_segment_def tcp_sack_prepare_def)
  have t2: "tcpq_in t2 = q2" "rcv_nxt t2 = isn" "rcv_processed t2 = isn"
    using q2 t1 assms(7,8) c [of 5] f [of 3 5]
    by (simp_all add: t2_def store_segment_def tcp_data_in_high_segment_def tcp_sack_prepare_def)
  have t3: "tcpq_in t3 = q3" "rcv_processed t3 = isn"
    using q3(1) t2 assms(7,8) c [of 0] f [of 10 0]
    by (simp_all add: t3_def store_segment_def tcp_data_in_expected_def)
  have "store_pieces m isn S [(2, 2), (5, 3), (0, 10)] t = t3" by (simp add: store_pieces_def t1_def t2_def t3_def)
  then show ?thesis using overlap_read [OF q3(2) assms(9,10)] t3 by (simp add: pico_tcp_read_def)
qed

theorem pico_tcp_read_overlap_overread_witness:
  "pico_tcp_read True 0 100
     (store_pieces \<lparr>mem_seg = True, mem_node = True, mem_sack = True, mem_ack = True\<rparr> 0 of_nat [(2, 2), (5, 3), (0, 10)]
        (fresh_tcp\<lparr>sack_ok := True\<rparr>), []) = None"
  by (rule pico_tcp_read_overlap_overread) (simp_all add: fresh_tcp_def)

end
