(* ===== verification/PicoTcpOut.thy ===== *)
theory PicoTcpOut
  imports PicoTcpIn
begin

text \<open>
  The sending side of \<^verbatim>\<open>modules/pico_tcp.c\<close>: segments pushed by the application, the output loop with its window
  tests and the splitting of segments, retransmission, and the closing of the sending direction. \<open>None\<close>
  is undefined behaviour or a loop that does not end.
\<close>

section \<open>The environment of a call\<close>

text \<open>
  What the allocators, the clock, the queue to the network layer and the timer list answer during a call;
  a timer's identifier depends on what has been done before it. \<open>frame_overhead\<close> is the room of the
  headers below TCP in a frame, \<open>sock_mss\<close> what \<^verbatim>\<open>pico_socket_get_mss\<close> returns, \<open>rand\<close> what \<^verbatim>\<open>pico_paws\<close> draws.
\<close>

record tcp_env = tcp_mem +
  now :: u64
  mem_frame :: bool
  mem_copy :: bool
  enq :: bool
  timer_id :: "nat \<Rightarrow> u32"
  frame_overhead :: nat
  sock_mss :: u16
  rand :: u32

definition emit :: "tcp_event \<Rightarrow> tcps \<Rightarrow> tcps" where "emit e s = (fst s, snd s @ [e])"

definition timer_add :: "tmr_kind \<Rightarrow> u64 \<Rightarrow> tcp_env \<Rightarrow> tcps \<Rightarrow> u32 \<times> tcps" where
  "timer_add k delay env s = (timer_id env (length (snd s)), emit (SetTimer k delay) s)"

definition wakeup :: "u16 \<Rightarrow> tcps \<Rightarrow> tcps" where
  "wakeup ev s = (if has_wakeup (fst s) then emit (Wakeup ev) s else s)"

definition upd :: "(pico_socket_tcp \<Rightarrow> pico_socket_tcp) \<Rightarrow> tcps \<Rightarrow> tcps" where "upd g s = (g (fst s), snd s)"

text \<open>Frames of the output queue are changed in place.\<close>

definition put_segment :: "u32 \<Rightarrow> tseg \<Rightarrow> tcpq \<Rightarrow> tcpq" where
  "put_segment sq f q = q\<lparr>pool := map (\<lambda>x. if seq x = sq then f else x) (pool q)\<rparr>"

definition set_tcp_state :: "u16 \<Rightarrow> pico_socket_tcp \<Rightarrow> pico_socket_tcp" where
  "set_tcp_state st t = t\<lparr>state := (state t AND 0x00FF) OR st\<rparr>"

section \<open>Options of queued frames\<close>

definition pico_tcp_overhead :: "pico_socket_tcp \<Rightarrow> nat" where
  "pico_tcp_overhead t = 20 + tcp_options_size t 0"

definition tcp_options_size_frame :: "tseg \<Rightarrow> nat" where
  "tcp_options_size_frame f = (3 + (if ts_saved f then 10 else 0) + 1 + 3) div 4 * 4"

definition tcp_add_options_frame :: "u32 \<Rightarrow> pico_socket_tcp \<Rightarrow> tseg \<Rightarrow> bytes" where
  "tcp_add_options_frame nw t f =
     (let optsiz = tcp_options_size_frame f;
          body = [PICO_TCP_OPTION_WS, 3, ucast (wnd_scale t)] @
            (if ts_saved f then [PICO_TCP_OPTION_TIMESTAMP, 10] @ bytes_of_u32 (long_be nw) @ bytes_of_u32 (long_be (ts_nxt t)) else []);
          area = body @ replicate (optsiz - length body) PICO_TCP_OPTION_NOOP
      in if length body < optsiz then area[optsiz - 1 := PICO_TCP_OPTION_END] else area)"

section \<open>Retransmission timer\<close>

definition rto_shifted :: "pico_socket_tcp \<Rightarrow> u32" where "rto_shifted t = push_bit (unat (backoff t)) (rto t)"

fun oldest :: "pico_socket_tcp \<Rightarrow> tseg list \<Rightarrow> u64 \<Rightarrow> u64 \<Rightarrow> u64" where
  "oldest t [] next_ts val = val"
| "oldest t (f # fs) next_ts val =
     (if next_ts = 0 \<or> (tstamp f < next_ts \<and> tstamp f > 0)
      then oldest t fs (tstamp f) (tstamp f + ucast (rto_shifted t))
      else oldest t fs next_ts val)"

definition add_retransmission_timer :: "tcp_env \<Rightarrow> u64 \<Rightarrow> tcps \<Rightarrow> tcps" where
  "add_retransmission_timer env next_ts s =
     (let t = fst s;
          val = (if next_ts = 0 then oldest t (pool (tcpq_out t)) 0 0 else next_ts);
          due = (if val > 0 \<or> val > now env then val else now env + 1);
          s1 = upd (\<lambda>t. t\<lparr>retrans_tmr_due := due\<rparr>) s
      in if retrans_tmr t = 0
         then let (i, s2) = timer_add Retrans (due - now env) env s1 in upd (\<lambda>t. t\<lparr>retrans_tmr := i\<rparr>) s2
         else s1)"

section \<open>Sending a segment\<close>

text \<open>\<open>None\<close>: the options do not fit the room the frame has for them.\<close>

definition tcp_add_header :: "tcp_env \<Rightarrow> pico_socket_tcp \<Rightarrow> tseg \<Rightarrow> (tseg \<times> bytes) option" where
  "tcp_add_header env t f =
     (case tcp_add_options (ucast (now env)) t 0 (tcp_options_size_frame f) of
        None \<Rightarrow> None
      | Some (opts, _) \<Rightarrow> Some (f\<lparr>tstamp := now env, hflags := hflags f OR PICO_TCP_PSH OR PICO_TCP_ACK\<rparr>, opts))"

definition sent_frame :: "pico_socket_tcp \<Rightarrow> tseg \<Rightarrow> u32 \<Rightarrow> bytes \<Rightarrow> tcp_event" where
  "sent_frame t f ack opts = SentFrame (hflags f) (seq f) ack (wnd t) opts (payload f)"

text \<open>Flags and acknowledgement of a frame, whose acknowledgement number is 0 before.\<close>

definition tcp_send_add_tcpflags :: "pico_socket_tcp \<Rightarrow> tseg \<Rightarrow> u32 \<times> tseg \<times> pico_socket_tcp" where
  "tcp_send_add_tcpflags t f =
     (let (a1, f1, t1) =
            (if rcv_nxt t \<noteq> 0 \<and> (rcv_ackd t = 0 \<or> pico_seq_compare (rcv_ackd t) (rcv_nxt t) \<noteq> 0 \<or> hflags f AND PICO_TCP_ACK \<noteq> 0)
             then (rcv_nxt t, f\<lparr>hflags := hflags f OR PICO_TCP_ACK\<rparr>, t\<lparr>rcv_ackd := rcv_nxt t\<rparr>) else (0, f, t));
          t2 = (if hflags f1 AND PICO_TCP_SYN \<noteq> 0 then t1\<lparr>snd_nxt := snd_nxt t1 + 1\<rparr> else t1)
      in if payload f1 \<noteq> []
         then (rcv_nxt t2, f1\<lparr>hflags := hflags f1 OR PICO_TCP_PSH OR PICO_TCP_ACK\<rparr>, t2\<lparr>rcv_ackd := rcv_nxt t2\<rparr>)
         else (a1, f1, t2))"

definition tcp_send_try_enqueue :: "tcp_env \<Rightarrow> tseg \<Rightarrow> u32 \<Rightarrow> bytes \<Rightarrow> tcps \<Rightarrow> int \<times> tcps" where
  "tcp_send_try_enqueue env f ack opts s =
     (if \<not> mem_copy env then (- 1, s)
      else if enq env then
        (0, upd (\<lambda>t. if payload f \<noteq> [] then t\<lparr>in_flight := in_flight t + 1, snd_nxt := snd_nxt t + of_nat (plen f)\<rparr> else t)
              (emit (sent_frame (fst s) f ack opts) s))
      else (0, s))"

definition tcp_send :: "tcp_env \<Rightarrow> tseg \<Rightarrow> bytes \<Rightarrow> tcps \<Rightarrow> int \<times> tseg \<times> tcps" where
  "tcp_send env f opts s =
     (let f0 = (if seq f = 0 then f\<lparr>seq := snd_nxt (fst s)\<rparr> else f);
          (ack, f1, t1) = tcp_send_add_tcpflags (fst s) f0;
          (r, s2) = tcp_send_try_enqueue env f1 ack opts (t1, snd s)
      in (r, f1, s2))"

section \<open>Closing\<close>

definition tcp_linger :: "tcp_env \<Rightarrow> tcps \<Rightarrow> tcps" where
  "tcp_linger env s =
     (let s1 = emit (CancelTimer (fin_tmr (fst s))) s;
          (i, s2) = timer_add Fin (ucast (linger_timeout (fst s1))) env s1
      in upd (\<lambda>t. t\<lparr>fin_tmr := i\<rparr>) s2)"

definition tcp_send_fin :: "tcp_env \<Rightarrow> tcps \<Rightarrow> tcps option" where
  "tcp_send_fin env s =
     (let opt_len = tcp_options_size (fst s) PICO_TCP_FIN in
      if \<not> mem_frame env then Some s
      else
        let ack = rcv_nxt (fst s);
            s1 = tcp_set_space (mem_ack env) (ucast (now env)) (upd (\<lambda>t. t\<lparr>rcv_ackd := rcv_nxt t\<rparr>) s)
        in case tcp_add_options (ucast (now env)) (fst s1) PICO_TCP_FIN opt_len of
             None \<Rightarrow> None
           | Some (opts, t2) \<Rightarrow>
               let s2 = (t2, snd s1);
                   s3 = (if linger_timeout t2 > 0
                         then upd (\<lambda>t. t\<lparr>snd_nxt := snd_nxt t + 1\<rparr>)
                                (emit (Sent (PICO_TCP_FIN OR PICO_TCP_ACK) (snd_nxt t2) ack (wnd t2) opts) s2)
                         else s2)
               in Some (tcp_linger env s3))"

definition checkLocalClosing :: "tcp_env \<Rightarrow> tcps \<Rightarrow> (bool \<times> tcps) option" where
  "checkLocalClosing env s =
     (if tcp_state (fst s) = 0x0500
      then map_option (\<lambda>s1. (True, upd (set_tcp_state 0x0800) s1)) (tcp_send_fin env s)
      else Some (False, s))"

definition checkRemoteClosing :: "tcp_env \<Rightarrow> tcps \<Rightarrow> (bool \<times> tcps) option" where
  "checkRemoteClosing env s =
     (if tcp_state (fst s) = 0x0600
      then map_option (\<lambda>s1. (True, upd (set_tcp_state 0x0700) s1)) (tcp_send_fin env s)
      else Some (False, s))"

definition check_closing :: "tcp_env \<Rightarrow> tcps \<Rightarrow> tcps option" where
  "check_closing env s =
     Option.bind (checkLocalClosing env s)
       (\<lambda>(d, s1). if d then Some s1 else map_option snd (checkRemoteClosing env s1))"

definition pico_tcp_notify_closing :: "tcp_env \<Rightarrow> tcps \<Rightarrow> tcps option" where
  "pico_tcp_notify_closing env s = (if frames (tcpq_out (fst s)) = 0 then check_closing env s else Some s)"

section \<open>Output\<close>

text \<open>The peer's window, \<^verbatim>\<open>recv_wnd << recv_wnd_scale\<close>: a shift of an \<^verbatim>\<open>int\<close>, by a number the peer chooses.\<close>

definition peer_wnd :: "pico_socket_tcp \<Rightarrow> nat option" where
  "peer_wnd t =
     (let v = uint (recv_wnd t) * 2 ^ unat (recv_wnd_scale t)
      in if recv_wnd_scale t \<ge> 32 \<or> v \<ge> 2 ^ 31 then None else Some (nat v))"

text \<open>
  The segment to send, \<open>None\<close> without memory. A split discards the segment from the queue, and the
  frame with it, and enqueues only the second part.
\<close>

definition tcp_split_segment :: "tcp_env \<Rightarrow> tseg \<Rightarrow> u16 \<Rightarrow> pico_socket_tcp \<Rightarrow> tseg option \<times> pico_socket_tcp" where
  "tcp_split_segment env f sz t =
     (let overhead = pico_tcp_overhead t; size1 = unat sz; size2 = plen f - size1 in
      if size1 \<ge> plen f then (Some f, t)
      else if \<not> mem_frame env then (None, t)
      else
        let f1 = f\<lparr>payload := take size1 (payload f), esize := of_nat (frame_overhead env + overhead + size1),
                   tstamp := 0, sacked := False, ts_saved := ts_ok t\<rparr>;
            f2 = f\<lparr>seq := seq f + of_nat size1, payload := drop size1 (payload f),
                   esize := of_nat (frame_overhead env + overhead + size2), tstamp := 0, sacked := False, ts_saved := ts_ok t\<rparr>;
            q1 = pico_discard_segment f (tcpq_out t);
            q2 = snd (pico_enqueue_segment (mem_node env) (Some f2) q1)
        in (Some f1, t\<lparr>tcpq_out := q2\<rparr>))"

text \<open>
  One turn per unit of the score and one more. \<open>una\<close> is the sequence number of the frame the loop found first, \<open>None\<close> once that frame
  has been released. The result has the score left, and whether a segment with data was sent before the last one.
\<close>

fun output_loop :: "nat \<Rightarrow> tcp_env \<Rightarrow> u32 option \<Rightarrow> tseg option \<Rightarrow> int \<Rightarrow> bool \<Rightarrow> tcps \<Rightarrow> (int \<times> bool \<times> tcps) option" where
  "output_loop 0 env una fo sc data s = None"
| "output_loop (Suc k) env una fo sc data s =
     (case fo of
        None \<Rightarrow> Some (sc, data, s)
      | Some f \<Rightarrow>
          if \<not> ucast (cwnd (fst s)) \<ge> in_flight (fst s) then Some (sc, data, s)
          else
            let f0 = f\<lparr>tstamp := now env\<rparr>;
                s1 = upd (\<lambda>t. t\<lparr>tcpq_out := put_segment (seq f) f0 (tcpq_out t)\<rparr>) s;
                s2 = add_retransmission_timer env (ucast (rto (fst s1)) + now env) s1;
                opts = tcp_add_options_frame (ucast (now env)) (fst s2) f0
            in case una of
                 None \<Rightarrow> None
               | Some u \<Rightarrow>
                   let seq_diff = pico_seq_compare (seq f0) u in
                   if seq_diff < 0 then Some (sc, data, s2)
                   else Option.bind (peer_wnd (fst s2)) (\<lambda>w.
                     if nat seq_diff \<ge> w then
                       Some (sc, data, if x_mode (fst s2) \<noteq> 6
                         then upd (\<lambda>t. t\<lparr>snd_nxt := u, snd_retry := u, x_mode := 6\<rparr>) s2 else s2)
                     else
                       let split = nat seq_diff + plen f0 > w;
                           (fo1, t1) = (if split then tcp_split_segment env f0 (of_nat w) (fst s2) else (Some f0, fst s2))
                       in case fo1 of
                            None \<Rightarrow> Some (sc, data, (t1, snd s2))
                          | Some f1 \<Rightarrow>
                              let cut = (split \<and> unat (of_nat w :: u16) < plen f0);
                                  una1 = (if cut \<and> seq f0 = u then None else Some u);
                                  t2 = (if split then t1\<lparr>cwnd := (if ucast (in_flight t1) < (1 :: u16) then 1 else ucast (in_flight t1))\<rparr> else t1);
                                  opts1 = (if cut then tcp_add_options_frame (ucast (now env)) t2 f1 else opts);
                                  (r, f2, s3) = tcp_send env f1 opts1 (t2, snd s2);
                                  s4 = upd (\<lambda>t. t\<lparr>snd_last_out := seq f2, tcpq_out := put_segment (seq f1) f2 (tcpq_out t)\<rparr>) s3
                              in if sc - 1 < 1 then Some (sc - 1, data, s4)
                                 else if payload f2 \<noteq> []
                                 then output_loop k env una1 (next_segment (tcpq_out (fst s4)) f2) (sc - 1) True s4
                                 else output_loop k env una1 None (sc - 1) data s4))"

definition pico_tcp_output :: "tcp_env \<Rightarrow> int \<Rightarrow> tcps \<Rightarrow> (int \<times> tcps) option" where
  "pico_tcp_output env sc s =
     (let una = map_option seq (first_segment (tcpq_out (fst s)));
          f = peek_segment (tcpq_out (fst s)) (snd_nxt (fst s))
      in Option.bind (output_loop (nat sc + 2) env una f sc False s)
           (\<lambda>(sc, data, s1).
              let s2 = (if data then upd (\<lambda>t. rto_set (rto t) t) s1 else s1)
              in if frames (tcpq_out (fst s2)) = 0 \<and> state (fst s2) AND 0x0001 \<noteq> 0
                 then map_option (\<lambda>s3. (sc, s3)) (check_closing env s2)
                 else Some (sc, s2)))"

section \<open>Retransmission\<close>

definition tcp_retrans :: "tcp_env \<Rightarrow> tseg option \<Rightarrow> tcps \<Rightarrow> tcps option" where
  "tcp_retrans env fo s =
     (case fo of
        None \<Rightarrow> Some s
      | Some f \<Rightarrow>
          Option.bind (tcp_add_header env (fst s) f) (\<lambda>(f1, opts).
            let s1 = upd (\<lambda>t. t\<lparr>tcpq_out := put_segment (seq f) f1 (tcpq_out t)\<rparr>) s in
            if \<not> mem_copy env then Some s1
            else
              let s2 = (if enq env
                        then upd (\<lambda>t. t\<lparr>in_flight := in_flight t + 1, snd_last_out := seq f1\<rparr>)
                               (emit (sent_frame (fst s1) f1 (rcv_nxt (fst s1)) opts) s1)
                        else s1)
              in Some (add_retransmission_timer env (now env + ucast (rto (fst s2))) s2)))"

definition tcp_first_timeout :: "pico_socket_tcp \<Rightarrow> pico_socket_tcp" where
  "tcp_first_timeout t = t\<lparr>x_mode := 4, cwnd := 2, in_flight := 0\<rparr>"

definition tcp_rto_xmit :: "tcp_env \<Rightarrow> tseg \<Rightarrow> bytes \<Rightarrow> tcps \<Rightarrow> int \<times> tcps" where
  "tcp_rto_xmit env f opts s =
     (if \<not> mem_copy env then (- 1, add_retransmission_timer env (ucast (rto_shifted (fst s)) + now env) s)
      else if enq env then
        let s1 = upd (\<lambda>t. t\<lparr>snd_last_out := seq f, backoff := backoff t + 1\<rparr>)
                   (emit (sent_frame (fst s) f (rcv_nxt (fst s)) opts) s)
        in (1, add_retransmission_timer env (ucast (rto_shifted (fst s1)) + now env) s1)
      else (0, add_retransmission_timer env (ucast (rto_shifted (fst s)) + now env) s))"

definition tcp_next_zerowindow_probe :: "tcp_env \<Rightarrow> tcps \<Rightarrow> tcps" where
  "tcp_next_zerowindow_probe env s =
     (let s1 = upd (\<lambda>t. t\<lparr>backoff := backoff t + 1\<rparr>) (tcp_send_probe (mem_ack env) (ucast (now env)) s)
      in add_retransmission_timer env (ucast (rto_shifted (fst s1)) + now env) s1)"

text \<open>A bound socket has a network protocol.\<close>

definition tcp_is_allowed_to_send :: "pico_socket_tcp \<Rightarrow> bool" where
  "tcp_is_allowed_to_send t \<longleftrightarrow> (tcp_state t = 0x0500 \<or> tcp_state t = 0x0600) \<and> backoff t < 10"

text \<open>The result is -1 when a segment or a probe was sent. A frame without payload is followed by itself; the queue has none.\<close>

fun check_queue_loop :: "nat \<Rightarrow> tcp_env \<Rightarrow> tseg option \<Rightarrow> tcps \<Rightarrow> (int \<times> tcps) option" where
  "check_queue_loop k env None s =
     Some (0, if size (tcpq_out (fst s)) < max_size (tcpq_out (fst s)) then upd (\<lambda>t. t\<lparr>ev_pending := ev_pending t OR 2\<rparr>) s else s)"
| "check_queue_loop 0 env (Some f) s = None"
| "check_queue_loop (Suc k) env (Some f) s =
     (if x_mode (fst s) = 6 then Some (- 1, tcp_next_zerowindow_probe env s)
      else
        let s1 = (if x_mode (fst s) \<noteq> 4 then upd tcp_first_timeout s else s)
        in Option.bind (tcp_add_header env (fst s1) f) (\<lambda>(f1, opts).
             let s2 = upd (\<lambda>t. t\<lparr>tcpq_out := put_segment (seq f) f1 (tcpq_out t)\<rparr>) s1;
                 (r, s3) = tcp_rto_xmit env f1 opts s2
             in if r > 0 then Some (- 1, s3)
                else check_queue_loop k env (next_segment (tcpq_out (fst s3)) f1) s3))"

definition tcp_retrans_timeout_check_queue :: "tcp_env \<Rightarrow> tcps \<Rightarrow> (int \<times> tcps) option" where
  "tcp_retrans_timeout_check_queue env s =
     check_queue_loop (length (pool (tcpq_out (fst s)))) env (first_segment (tcpq_out (fst s))) s"

definition tcp_discard_all_segments :: "tcpq \<Rightarrow> tcpq" where
  "tcp_discard_all_segments q = q\<lparr>pool := [], frames := 0, size := 0\<rparr>"

text \<open>\<^verbatim>\<open>pico_socket_del\<close> of a socket in the port tables; its memory is collected by a timer.\<close>

definition socket_del :: "tcp_env \<Rightarrow> tcps \<Rightarrow> tcps" where
  "socket_del env s = snd (timer_add Collect 10 env (upd (\<lambda>t. t\<lparr>state := 0x0020\<rparr>) (emit Deleted s)))"

definition tcp_retrans_timeout :: "tcp_env \<Rightarrow> u64 \<Rightarrow> tcps \<Rightarrow> tcps option" where
  "tcp_retrans_timeout env val s =
     (let s0 = upd (\<lambda>t. t\<lparr>retrans_tmr := 0\<rparr>) s in
      if retrans_tmr_due (fst s0) = 0 then Some s0
      else if retrans_tmr_due (fst s0) > val then Some (add_retransmission_timer env (retrans_tmr_due (fst s0)) s0)
      else
        let s1 = upd (\<lambda>t. t\<lparr>retrans_tmr_due := 0\<rparr>) s0 in
        if tcp_is_allowed_to_send (fst s1) then map_option snd (tcp_retrans_timeout_check_queue env s1)
        else if backoff (fst s1) \<ge> 10 \<and> tcp_state (fst s1) = 0x0500
        then Some (socket_del env (wakeup 0x10 (upd (\<lambda>t. t\<lparr>tcpq_out := tcp_discard_all_segments (tcpq_out t)\<rparr>) s1)))
        else Some s1)"

definition pico_tcp_cleanup_queues :: "tcps \<Rightarrow> tcps" where
  "pico_tcp_cleanup_queues s =
     upd (\<lambda>t. t\<lparr>retrans_tmr := 0, keepalive_tmr := 0, fin_tmr := 0, tcpq_in := tcp_discard_all_segments (tcpq_in t),
                tcpq_out := tcp_discard_all_segments (tcpq_out t), tcpq_hold := tcp_discard_all_segments (tcpq_hold t)\<rparr>)
       (emit (CancelTimer (fin_tmr (fst s))) (emit (CancelTimer (keepalive_tmr (fst s)))
          (emit (CancelTimer (retrans_tmr (fst s))) s)))"

end
