(* ===== verification/PicoTcpPush.thy ===== *)
theory PicoTcpPush
  imports PicoTcpOut
begin

text \<open>
  The application's data on its way into the output queue, \<^verbatim>\<open>modules/pico_tcp.c\<close>: \<^verbatim>\<open>pico_tcp_push\<close> and, when
  Nagle's algorithm is on, the queue of held segments and the segments made from it.
\<close>

section \<open>Held segments\<close>

text \<open>The length of the first segments that follow each other and fit the segment size.\<close>

fun hold_length :: "nat \<Rightarrow> tcpq \<Rightarrow> tseg option \<Rightarrow> nat \<Rightarrow> nat \<Rightarrow> nat" where
  "hold_length 0 q fo m tot = tot"
| "hold_length (Suc k) q fo m tot =
     (case fo of
        None \<Rightarrow> tot
      | Some f \<Rightarrow> if tot + plen f \<le> m then hold_length k q (next_segment q f) m (tot + plen f) else tot)"

text \<open>The bytes of the first segments that fit, each one discarded.\<close>

fun hold_take :: "nat \<Rightarrow> tcpq \<Rightarrow> nat \<Rightarrow> bytes \<Rightarrow> bytes \<times> tcpq" where
  "hold_take 0 q m out = (out, q)"
| "hold_take (Suc k) q m out =
     (case first_segment q of
        None \<Rightarrow> (out, q)
      | Some f \<Rightarrow> if length out + plen f \<le> m then hold_take k (pico_discard_segment f q) m (out @ payload f) else (out, q))"

text \<open>
  \<^verbatim>\<open>pico_hold_segment_make\<close>: the segment, \<open>Some None\<close> without memory. \<open>None\<close>: the queue is empty, or the bytes copied do not fit the frame.
\<close>

definition pico_hold_segment_make :: "tcp_env \<Rightarrow> pico_socket_tcp \<Rightarrow> (tseg option \<times> pico_socket_tcp) option" where
  "pico_hold_segment_make env t =
     (case first_segment (tcpq_hold t) of
        None \<Rightarrow> None
      | Some f \<Rightarrow>
          let q = tcpq_hold t;
              n = length (pool q);
              m = unat (mss t);
              tot = hold_length n q (next_segment q f) m (plen f)
          in if \<not> mem_frame env then Some (None, t)
             else let (out, q1) = hold_take n q m [] in
               if length out > tot then None
               else Some (Some \<lparr>seq = seq f, payload = out @ replicate (tot - length out) 0,
                   esize = of_nat (frame_overhead env + pico_tcp_overhead t + tot), tstamp = 0, sacked = False,
                   hflags = 0, ts_saved = ts_ok t\<rparr>, t\<lparr>tcpq_hold := q1\<rparr>))"

section \<open>Push\<close>

definition push_to :: "bool \<Rightarrow> tseg \<Rightarrow> tcpq \<Rightarrow> bool \<times> tcpq" where
  "push_to mem f q = (let (r, q1) = pico_enqueue_segment mem (Some f) q in (r > 0, q1))"

definition pico_tcp_push_nagle_enqueue :: "tcp_env \<Rightarrow> tseg \<Rightarrow> pico_socket_tcp \<Rightarrow> int \<times> pico_socket_tcp" where
  "pico_tcp_push_nagle_enqueue env f t =
     (let (ok, q) = push_to (mem_node env) f (tcpq_out t) in
      if ok then (int (plen f), t\<lparr>tcpq_out := q, snd_last := snd_last t + of_nat (plen f)\<rparr>) else (0, t\<lparr>tcpq_out := q\<rparr>))"

definition pico_tcp_push_nagle_hold :: "tcp_env \<Rightarrow> tseg \<Rightarrow> pico_socket_tcp \<Rightarrow> (int \<times> pico_socket_tcp) option" where
  "pico_tcp_push_nagle_hold env f t =
     (let tot = of_nat (plen f) + size (tcpq_hold t);
          (ok, h) = push_to (mem_node env) f (tcpq_hold t);
          t1 = t\<lparr>tcpq_hold := h, snd_last := snd_last t + of_nat (plen f)\<rparr>
      in if tot \<ge> ucast (mss t) \<and> max_size (tcpq_out t) - size (tcpq_out t) \<ge> ucast (mss t)
         then if ok
           then Option.bind (pico_hold_segment_make env t1) (\<lambda>(fo, t2).
                  case fo of
                    None \<Rightarrow> Some (- 1, t2)
                  | Some g \<Rightarrow> let (ok2, q) = push_to (mem_node env) g (tcpq_out t2)
                              in Some (if ok2 then int (plen g) else - 1, t2\<lparr>tcpq_out := q\<rparr>))
           else Some (0, t\<lparr>tcpq_hold := h\<rparr>)
         else if ok then Some (int (plen f), t1)
         else Some (0, t\<lparr>tcpq_hold := h\<rparr>))"

definition IS_TCP_IDLE :: "pico_socket_tcp \<Rightarrow> bool" where
  "IS_TCP_IDLE t \<longleftrightarrow> in_flight t = 0 \<and> size (tcpq_out t) = 0"

definition IS_TCP_HOLDQ_EMPTY :: "pico_socket_tcp \<Rightarrow> bool" where
  "IS_TCP_HOLDQ_EMPTY t \<longleftrightarrow> size (tcpq_hold t) = 0"

definition pico_tcp_push_nagle_on :: "tcp_env \<Rightarrow> tseg \<Rightarrow> pico_socket_tcp \<Rightarrow> (int \<times> pico_socket_tcp) option" where
  "pico_tcp_push_nagle_on env f t =
     (if IS_TCP_IDLE t \<and> IS_TCP_HOLDQ_EMPTY t then Some (pico_tcp_push_nagle_enqueue env f t)
      else pico_tcp_push_nagle_hold env f t)"

text \<open>The frame of \<^verbatim>\<open>pico_socket_xmit_one\<close> for some data: its buffer has room for the headers, and the flag tells the options it has room for.\<close>

definition xmit_frame :: "tcp_env \<Rightarrow> bytes \<Rightarrow> pico_socket_tcp \<Rightarrow> tseg" where
  "xmit_frame env data t =
     \<lparr>seq = 0, payload = data, esize = of_nat (frame_overhead env + pico_tcp_overhead t + length data), tstamp = 0,
      sacked = False, hflags = 0, ts_saved = ts_ok t\<rparr>"

definition pico_tcp_push :: "tcp_env \<Rightarrow> tseg \<Rightarrow> pico_socket_tcp \<Rightarrow> (int \<times> pico_socket_tcp) option" where
  "pico_tcp_push env f t =
     (let f1 = f\<lparr>seq := snd_last t + 1\<rparr>;
          t1 = (if of_nat (plen f1) > max_size (tcpq_out t) - size (tcpq_out t)
                then t\<lparr>ev_pending := ev_pending t AND NOT 2\<rparr> else t)
      in if nodelay t1 then Some (pico_tcp_push_nagle_enqueue env f1 t1) else pico_tcp_push_nagle_on env f1 t1)"

end
