(* ===== verification/PicoTcpAck.thy ===== *)
theory PicoTcpAck
  imports PicoTcpPush
begin

text \<open>
  Acknowledgements, \<^verbatim>\<open>tcp_ack\<close> of \<^verbatim>\<open>modules/pico_tcp.c\<close>, in the order of the code: options and window, release of
  acknowledged segments, round-trip time, duplicate acknowledgements and fast retransmission,
  congestion window, Nagle, output, timer. A frame is its octets from the TCP header on.
\<close>

section \<open>Fields of a received segment\<close>

definition ACKN :: "bytes \<Rightarrow> u32" where "ACKN f = long_be (long_from (drop 8 f))"
definition hdr_rwnd :: "bytes \<Rightarrow> u16" where "hdr_rwnd f = short_be (short_from (drop 14 f))"
definition payload_len :: "bytes \<Rightarrow> u16" where "payload_len f = of_nat (length f) - of_nat (hdr_len f)"

text \<open>One unit of fuel per octet; when it is used up the parser never returns.\<close>

definition parse_options :: "bytes \<Rightarrow> pico_socket_tcp \<Rightarrow> (pico_socket_tcp \<times> u32) option" where
  "parse_options f t =
     (case tcp_parse_options (length f) (drop 20 f) (hdr_flags f) (Some (int (hdr_len f) - 20)) t of
        Parsed r \<Rightarrow> Some r | _ \<Rightarrow> None)"

section \<open>Parts of \<^verbatim>\<open>tcp_ack\<close>\<close>

definition ack_leave_mode :: "nat \<Rightarrow> tseg option \<Rightarrow> pico_socket_tcp \<Rightarrow> pico_socket_tcp option" where
  "ack_leave_mode acked una t =
     Option.bind
       (if x_mode t = 4 then Some True
        else if x_mode t = 6 then map_option (\<lambda>w. w > unat (mss t)) (peer_wnd t)
        else Some False)
       (\<lambda>leave.
          if \<not> leave then Some t
          else
            let t1 = t\<lparr>x_mode := 0, backoff := 0\<rparr> in
            case una of
              None \<Rightarrow> Some t1
            | Some u \<Rightarrow>
                if x_mode t = 4 \<and> acked > 0
                then Some (t1\<lparr>snd_nxt := seq u, retrans_tmr_due := (if retrans_tmr t \<noteq> 0 then 0 else retrans_tmr_due t)\<rparr>)
                else Some t1)"

definition ack_fresh :: "u64 \<Rightarrow> u32 \<Rightarrow> u64 \<Rightarrow> nat \<Rightarrow> pico_socket_tcp \<Rightarrow> pico_socket_tcp" where
  "ack_fresh nw ts acked_ts acked t =
     (let t1 = t\<lparr>x_mode := 0, backoff := 0\<rparr>;
          rtt = (if ts \<noteq> 0 then time_diff nw (ucast ts) else if acked_ts \<noteq> 0 then time_diff nw acked_ts else 0);
          t2 = (if rtt \<noteq> 0 then tcp_rtt (ucast rtt) t1 else t1)
      in if acked > unat (in_flight t2) then t2\<lparr>in_flight := 0\<rparr> else t2\<lparr>in_flight := in_flight t2 - of_nat acked\<rparr>)"

definition enter_recover :: "pico_socket_tcp \<Rightarrow> pico_socket_tcp" where
  "enter_recover t =
     (let c = (if in_flight t > 2 then ucast (in_flight t) else 2);
          t1 = t\<lparr>cwnd := c, snd_retry := (case first_segment (tcpq_out t) of None \<Rightarrow> 0 | Some f \<Rightarrow> seq f)\<rparr>;
          th = (if ssthresh t1 > cwnd t1 then drop_bit 2 (ssthresh t1) else drop_bit 1 (cwnd t1))
      in t1\<lparr>ssthresh := (if th < 2 then 2 else th)\<rparr>)"

text \<open>Segments marked by a selective acknowledgement are passed over; one without data would be its own successor.\<close>

fun skip_sacked :: "nat \<Rightarrow> tcpq \<Rightarrow> tseg option \<Rightarrow> tseg option option" where
  "skip_sacked k q None = Some None"
| "skip_sacked 0 q (Some f) = (if sacked f \<and> map_option seq (first_segment q) \<noteq> Some (seq f) then None else Some (Some f))"
| "skip_sacked (Suc k) q (Some f) =
     (if sacked f \<and> map_option seq (first_segment q) \<noteq> Some (seq f) then skip_sacked k q (next_segment q f) else Some (Some f))"

definition recover_next :: "pico_socket_tcp \<Rightarrow> tseg option option" where
  "recover_next t =
     (let q = tcpq_out t;
          n0 = (case peek_segment q (snd_retry t) of None \<Rightarrow> first_segment q | Some f \<Rightarrow> Some f)
      in Option.bind (skip_sacked (length (pool q)) q n0) (\<lambda>n1.
           let n2 = (case n1 of None \<Rightarrow> None | Some f \<Rightarrow> if pico_seq_compare (seq f) (snd_nxt t) > 0 then None else Some f) in
           case n2 of
             None \<Rightarrow> Some (first_segment q)
           | Some f \<Rightarrow>
               Option.bind (peer_wnd t) (\<lambda>w.
                 Some (if pico_seq_compare (seq f) (case first_segment q of None \<Rightarrow> 0 | Some g \<Rightarrow> seq g) > int w
                       then first_segment q else Some f))))"

definition ack_duplicate :: "tcp_env \<Rightarrow> tcps \<Rightarrow> tcps option" where
  "ack_duplicate env s =
     (if x_mode (fst s) < 3 then
        Some (upd (\<lambda>t. let t1 = t\<lparr>x_mode := x_mode t + 1\<rparr> in if x_mode t1 = 3 then enter_recover t1 else t1) s)
      else if x_mode (fst s) = 3 then
        Option.bind
          (if in_flight (fst s) \<le> ucast (cwnd (fst s)) then
             Option.bind (recover_next (fst s)) (\<lambda>n.
               case n of
                 None \<Rightarrow> Some s
               | Some f \<Rightarrow>
                   map_option (upd (\<lambda>t. t\<lparr>snd_retry := seq f\<rparr>))
                     (tcp_retrans env (peek_segment (tcpq_out (fst s)) (snd_retry (fst s))) s))
           else Some s)
          (\<lambda>s1. Some (upd (\<lambda>t. let t1 = t\<lparr>cwnd_counter := cwnd_counter t + 1\<rparr> in
                     if cwnd_counter t1 > 1
                     then t1\<lparr>cwnd := (if cwnd t1 - 1 < 2 then 2 else cwnd t1 - 1), cwnd_counter := 0\<rparr> else t1) s1))
      else Some s)"

text \<open>The loop over the held segments takes at least one each turn; if the first one does not fit it never ends.\<close>

fun ack_nagle :: "nat \<Rightarrow> tcp_env \<Rightarrow> pico_socket_tcp \<Rightarrow> pico_socket_tcp option" where
  "ack_nagle k env t =
     (if IS_TCP_HOLDQ_EMPTY t \<or> \<not> max_size (tcpq_out t) - size (tcpq_out t) \<ge> ucast (mss t) then Some t
      else case k of
        0 \<Rightarrow> None
      | Suc j \<Rightarrow>
          Option.bind (pico_hold_segment_make env t) (\<lambda>(fo, t1).
            case fo of
              None \<Rightarrow> Some t1
            | Some f \<Rightarrow> ack_nagle j env (t1\<lparr>tcpq_out := snd (pico_enqueue_segment (mem_node env) (Some f) (tcpq_out t1))\<rparr>)))"

declare ack_nagle.simps [simp del]

definition pure_ack :: "bytes \<Rightarrow> bool" where
  "pure_ack f \<longleftrightarrow> hdr_flags f AND (PICO_TCP_PSH OR PICO_TCP_SYN) = 0"

section \<open>The acknowledgement\<close>

definition ack_start :: "tcp_env \<Rightarrow> bytes \<Rightarrow> tcps \<Rightarrow> (tseg option \<times> nat \<times> u64 \<times> u32 \<times> tcps) option" where
  "ack_start env f s =
     Option.bind (parse_options f (fst s)) (\<lambda>(t0, ts).
       let (ret, acked_ts, t1) = tcp_ack_advance_una (ACKN f) (t0\<lparr>recv_wnd := hdr_rwnd f\<rparr>);
           acked = ret mod 65536;
           una = first_segment (tcpq_out t1)
       in map_option (\<lambda>t2. (una, acked, acked_ts, ts, (t2, snd s)))
            (ack_leave_mode acked una (t1\<lparr>ack_timestamp := now env\<rparr>)))"

definition ack_count :: "tcp_env \<Rightarrow> bytes \<Rightarrow> tseg option \<times> nat \<times> u64 \<times> u32 \<times> tcps \<Rightarrow> (nat \<times> tcps) option" where
  "ack_count env f =
     (\<lambda>(una, acked, acked_ts, ts, s).
        let s1 = upd (\<lambda>t. if acked = 0 \<and> payload_len f = 0 \<and> in_flight t > 0 then t\<lparr>in_flight := in_flight t - 1\<rparr> else t) s in
        if una = None \<or> acked > 0 then Some (acked, upd (ack_fresh (now env) ts acked_ts acked) s1)
        else if snd_old_ack (fst s1) = ACKN f \<and> pure_ack f \<and> payload_len f = 0 \<and> ACKN f \<noteq> snd_nxt (fst s1)
        then map_option (\<lambda>s2. (acked, s2)) (ack_duplicate env s1)
        else Some (acked, s1))"

definition ack_finish :: "tcp_env \<Rightarrow> bytes \<Rightarrow> nat \<times> tcps \<Rightarrow> tcps option" where
  "ack_finish env f =
     (\<lambda>(acked, s).
        let s1 = (if pure_ack f \<and> ACKN f = snd_nxt (fst s) \<and> pico_seq_compare (SEQN f) (rcv_nxt (fst s)) < 0
                  then tcp_send_ack (mem_ack env) (ucast (now env)) s else s);
            s2 = upd tcp_congestion_control s1;
            s3 = (if acked > 0 \<and> size (tcpq_out (fst s2)) < max_size (tcpq_out (fst s2)) then wakeup 2 s2 else s2)
        in Option.bind (if nodelay (fst s3) then Some (fst s3) else ack_nagle (length (pool (tcpq_hold (fst s3))) + 1) env (fst s3))
             (\<lambda>t4. Option.bind
                (if x_mode t4 = 0 \<and> ucast (cwnd t4) \<ge> in_flight t4 \<and> snd_nxt t4 > snd_last_out t4
                 then map_option snd (pico_tcp_output env (int (unat (cwnd t4)) - sint (in_flight t4)) (t4, snd s3))
                 else Some (t4, snd s3))
                (\<lambda>s5. Some (upd (\<lambda>t. t\<lparr>snd_old_ack := ACKN f\<rparr>) (add_retransmission_timer env 0 s5)))))"

definition tcp_ack :: "tcp_env \<Rightarrow> bytes \<Rightarrow> tcps \<Rightarrow> (int \<times> tcps) option" where
  "tcp_ack env f s =
     (if hdr_flags f AND PICO_TCP_ACK = 0 then Some (- 1, s)
      else map_option (\<lambda>s1. (0, s1))
        (Option.bind (Option.bind (ack_start env f s) (ack_count env f)) (ack_finish env f)))"

end
