(* ===== verification/PicoTcpFsm.thy ===== *)
theory PicoTcpFsm
  imports PicoTcpAck
begin

text \<open>
  The TCP state machine of \<^verbatim>\<open>modules/pico_tcp.c\<close>: connection establishment, resets, closing, the table
  \<^verbatim>\<open>tcp_fsm\<close> and \<^verbatim>\<open>pico_tcp_input\<close>. A listening socket that accepts a SYN makes a child socket, the last component
  of a handler's result.
\<close>

section \<open>States\<close>

definition ST_CLOSED :: u16 where "ST_CLOSED = 0x0100"
definition ST_LISTEN :: u16 where "ST_LISTEN = 0x0200"
definition ST_SYN_SENT :: u16 where "ST_SYN_SENT = 0x0300"
definition ST_SYN_RECV :: u16 where "ST_SYN_RECV = 0x0400"
definition ST_ESTABLISHED :: u16 where "ST_ESTABLISHED = 0x0500"
definition ST_CLOSE_WAIT :: u16 where "ST_CLOSE_WAIT = 0x0600"
definition ST_LAST_ACK :: u16 where "ST_LAST_ACK = 0x0700"
definition ST_FIN_WAIT1 :: u16 where "ST_FIN_WAIT1 = 0x0800"
definition ST_FIN_WAIT2 :: u16 where "ST_FIN_WAIT2 = 0x0900"
definition ST_CLOSING :: u16 where "ST_CLOSING = 0x0a00"
definition ST_TIME_WAIT :: u16 where "ST_TIME_WAIT = 0x0b00"

lemmas st_defs = ST_CLOSED_def ST_LISTEN_def ST_SYN_SENT_def ST_SYN_RECV_def ST_ESTABLISHED_def ST_CLOSE_WAIT_def
  ST_LAST_ACK_def ST_FIN_WAIT1_def ST_FIN_WAIT2_def ST_CLOSING_def ST_TIME_WAIT_def

text \<open>Both halves of the state set to closed.\<close>

definition set_closed :: "pico_socket_tcp \<Rightarrow> pico_socket_tcp" where
  "set_closed t = (let t1 = set_tcp_state ST_CLOSED t in t1\<lparr>state := (state t1 AND 0xFF00) OR 0x0020\<rparr>)"

section \<open>Resets\<close>

definition send_acklike :: "tcp_env \<Rightarrow> u8 \<Rightarrow> (pico_socket_tcp \<Rightarrow> u32) \<Rightarrow> (pico_socket_tcp \<Rightarrow> u32) \<Rightarrow> tcps \<Rightarrow> tcps option" where
  "send_acklike env flags sq ack s =
     (let opt_len = tcp_options_size (fst s) flags;
          s1 = tcp_set_space (mem_ack env) (ucast (now env)) s
      in case tcp_add_options (ucast (now env)) (fst s1) flags opt_len of
           None \<Rightarrow> None
         | Some (opts, t2) \<Rightarrow> Some (emit (Sent flags (sq t2) (ack t2) (wnd t2) opts) (t2\<lparr>rcv_ackd := rcv_nxt t2\<rparr>, snd s1)))"

definition tcp_do_send_rst :: "tcp_env \<Rightarrow> u32 \<Rightarrow> tcps \<Rightarrow> tcps option" where
  "tcp_do_send_rst env sq s = (if mem_frame env then send_acklike env PICO_TCP_RST (\<lambda>_. sq) rcv_nxt s else Some s)"

definition tcp_send_rst :: "tcp_env \<Rightarrow> bytes \<Rightarrow> tcps \<Rightarrow> tcps option" where
  "tcp_send_rst env fr s =
     (if tcp_state (fst s) > ST_SYN_RECV then tcp_do_send_rst env (ACKN fr) s
      else
        let s1 = upd (set_tcp_state ST_CLOSED) s in
        map_option (\<lambda>s2. socket_del env (wakeup 0x10 (upd (\<lambda>t. t\<lparr>state := (state t AND 0xFF00) OR 0x0020\<rparr>) s2)))
          (tcp_do_send_rst env (snd_nxt (fst s1)) s1))"

text \<open>\<^verbatim>\<open>pico_tcp_reply_rst\<close> answers from the received frame, without the socket's state.\<close>

definition pico_tcp_reply_rst :: "tcp_env \<Rightarrow> bytes \<Rightarrow> tcps \<Rightarrow> tcps" where
  "pico_tcp_reply_rst env fr s =
     (if hdr_flags fr AND PICO_TCP_RST \<noteq> 0 \<or> \<not> mem_frame env then s
      else
        let has_ack = (hdr_flags fr AND PICO_TCP_ACK \<noteq> 0)
        in emit (ReplyRst (if has_ack then PICO_TCP_RST else PICO_TCP_RST OR PICO_TCP_ACK)
                   (if has_ack then ACKN fr else 0) (if has_ack then 0 else SEQN fr + ucast (payload_len fr))) s)"

definition tcp_nosync_rst :: "tcp_env \<Rightarrow> bytes \<Rightarrow> tcps \<Rightarrow> tcps option" where
  "tcp_nosync_rst env fr s =
     (if tcp_state (fst s) = ST_LISTEN then Some (pico_tcp_reply_rst env fr s)
      else if \<not> mem_frame env then Some s
      else send_acklike env (PICO_TCP_RST OR PICO_TCP_ACK) (\<lambda>_. if hdr_flags fr AND PICO_TCP_ACK \<noteq> 0 then ACKN fr else 0)
             (\<lambda>_. SEQN fr + ucast (payload_len fr)) s)"

section \<open>Opening\<close>

definition PICO_DEFAULT_SOCKETQ :: u32 where "PICO_DEFAULT_SOCKETQ = 16384"

definition empty_queue :: "u32 \<Rightarrow> tcpq" where "empty_queue n = \<lparr>pool = [], max_size = n, size = 0, frames = 0\<rparr>"

definition zero_tcp :: pico_socket_tcp where
  "zero_tcp = \<lparr>state = 0, ev_pending = 0, nodelay = False, has_wakeup = False, has_parent = False, number_of_pending_conn = 0,
     max_backlog = 0, tcpq_in = empty_queue 0, tcpq_out = empty_queue 0, tcpq_hold = empty_queue 0,
     snd_nxt = 0, snd_last = 0, snd_old_ack = 0, snd_retry = 0, snd_last_out = 0, avg_rtt = 0, rttvar = 0, rto = 0, in_flight = 0,
     retrans_tmr = 0, retrans_tmr_due = 0, cwnd_counter = 0, cwnd = 0, ssthresh = 0, recv_wnd = 0, recv_wnd_scale = 0,
     rcv_nxt = 0, rcv_ackd = 0, rcv_processed = 0, wnd = 0, wnd_scale = 0, remote_closed = False, ts_nxt = 0, mss = 0,
     sack_ok = False, ts_ok = False, mss_ok = False, sacks = [], linger_timeout = 0, x_mode = 0, backoff = 0,
     localZeroWindow = False, keepalive_tmr = 0, ack_timestamp = 0, ka_time = 0, ka_intvl = 0, ka_probes = 0,
     ka_retries_count = 0, fin_tmr = 0\<rparr>"

definition pico_tcp_open :: "tcp_env \<Rightarrow> tcps" where
  "pico_tcp_open env =
     (let m = sock_mss env - 20;
          t = rto_set PICO_TCP_RTO_MIN (zero_tcp\<lparr>mss := m, tcpq_in := empty_queue PICO_DEFAULT_SOCKETQ,
                tcpq_out := empty_queue PICO_DEFAULT_SOCKETQ, tcpq_hold := empty_queue (2 * ucast m), nodelay := True,
                linger_timeout := 3000\<rparr>);
          (i, s) = timer_add Keepalive 1000 env (t, [])
      in tcp_set_space (mem_ack env) (ucast (now env)) (upd (\<lambda>t. t\<lparr>keepalive_tmr := i\<rparr>) s))"

text \<open>The slow-start threshold; \<open>None\<close> is a division by zero.\<close>

definition initial_ssthresh :: "u16 \<Rightarrow> u16 option" where
  "initial_ssthresh m =
     (if m = 0 then None
      else let q = ucast (PICO_DEFAULT_SOCKETQ div ucast m) :: u16 in Some (q - drop_bit 3 q))"

definition pico_tcp_initconn :: "tcp_env \<Rightarrow> tcps \<Rightarrow> (int \<times> tcps) option" where
  "pico_tcp_initconn env s =
     (let opt_len = tcp_options_size (fst s) PICO_TCP_SYN in
      if \<not> mem_frame env then Some (- 1, s)
      else
        let nx = (if snd_nxt (fst s) = 0 then rand env else snd_nxt (fst s)); m = sock_mss env - 20
        in Option.bind (initial_ssthresh m) (\<lambda>th.
             let s1 = upd (\<lambda>t. t\<lparr>snd_nxt := nx, snd_last := nx, cwnd := 2, mss := m, ssthresh := th\<rparr>) s;
                 s2 = tcp_set_space (mem_ack env) (ucast (now env)) s1
             in case tcp_add_options (ucast (now env)) (fst s2) PICO_TCP_SYN opt_len of
                  None \<Rightarrow> None
                | Some (opts, t3) \<Rightarrow>
                    let s3 = emit (Sent PICO_TCP_SYN nx 0 (wnd (fst s2)) opts) (t3, snd s2);
                        (i, s4) = timer_add Initconn (ucast (push_bit (unat (backoff t3)) (2000 :: u32))) env s3
                    in Some (0, upd (\<lambda>t. t\<lparr>retrans_tmr := i\<rparr>) s4)))"

definition initconn_retry :: "tcp_env \<Rightarrow> tcps \<Rightarrow> tcps option" where
  "initconn_retry env s =
     (if tcp_state (fst s) \<noteq> ST_ESTABLISHED then
        if backoff (fst s) > 3 then Some (socket_del env (wakeup 0x80 s))
        else map_option snd (pico_tcp_initconn env (upd (\<lambda>t. t\<lparr>backoff := backoff t + 1\<rparr>) s))
      else Some s)"

definition tcp_send_synack :: "tcp_env \<Rightarrow> tcps \<Rightarrow> (int \<times> tcps) option" where
  "tcp_send_synack env s =
     (let fl = PICO_TCP_SYN OR PICO_TCP_ACK; opt_len = tcp_options_size (fst s) fl in
      if \<not> mem_frame env then Some (- 1, s)
      else
        let sq = snd_nxt (fst s);
            s1 = upd (\<lambda>t. t\<lparr>rcv_processed := snd_nxt t, snd_last := snd_nxt t\<rparr>) s;
            s2 = tcp_set_space (mem_ack env) (ucast (now env)) s1
        in case tcp_add_options (ucast (now env)) (fst s2) fl opt_len of
             None \<Rightarrow> None
           | Some (opts, t3) \<Rightarrow>
               let f = \<lparr>seq = sq, payload = [], esize = of_nat (frame_overhead env + 20 + opt_len), tstamp = now env,
                        sacked = False, hflags = fl, ts_saved = False\<rparr>;
                   (r, f1, s4) = tcp_send env f opts (t3, snd s2)
               in Some (0, s4))"

text \<open>The child is a fresh socket; its maximum segment size is set after the options have been parsed.\<close>

definition tcp_syn :: "tcp_env \<Rightarrow> bool \<Rightarrow> bytes \<Rightarrow> tcps \<Rightarrow> (tcps \<times> tcps option) option" where
  "tcp_syn env clone f s =
     (if number_of_pending_conn (fst s) \<ge> max_backlog (fst s) \<or> \<not> clone then Some (s, None)
      else
        let (c0, lg0) = pico_tcp_open env; m = sock_mss env - 20 in
        Option.bind (parse_options f (c0\<lparr>state := state (fst s)\<rparr>)) (\<lambda>(c1, ts).
          Option.bind (initial_ssthresh m) (\<lambda>th.
            let c2 = rto_set PICO_TCP_RTO_MIN (c1\<lparr>mss := m,
                       tcpq_in := (tcpq_in c1)\<lparr>max_size := PICO_DEFAULT_SOCKETQ\<rparr>,
                       tcpq_out := (tcpq_out c1)\<lparr>max_size := PICO_DEFAULT_SOCKETQ\<rparr>,
                       tcpq_hold := (tcpq_hold c1)\<lparr>max_size := 2 * ucast (sock_mss env)\<rparr>,
                       rcv_nxt := SEQN f + 1, snd_nxt := rand env, snd_last := rand env, cwnd := 2, ssthresh := th,
                       recv_wnd := hdr_rwnd f, linger_timeout := 3000, has_parent := True, has_wakeup := has_wakeup (fst s)\<rparr>);
                c3 = c2\<lparr>state := 0x0004 OR 0x0008 OR ST_SYN_RECV\<rparr>
            in map_option (\<lambda>(r, c4). (upd (\<lambda>t. t\<lparr>number_of_pending_conn := number_of_pending_conn t + 1\<rparr>) s, Some c4))
                 (tcp_send_synack env (c3, lg0)))))"

definition tcp_synrecv_syn :: "tcp_env \<Rightarrow> bytes \<Rightarrow> tcps \<Rightarrow> tcps option" where
  "tcp_synrecv_syn env f s =
     (if rcv_nxt (fst s) = SEQN f + 1
      then map_option snd (tcp_send_synack env (upd (\<lambda>t. t\<lparr>snd_nxt := snd_nxt t - 1\<rparr>) s))
      else tcp_send_rst env f s)"

definition tcp_synack :: "tcp_env \<Rightarrow> bytes \<Rightarrow> tcps \<Rightarrow> tcps option" where
  "tcp_synack env f s =
     (if ACKN f = 1 + snd_nxt (fst s) then
        let s1 = upd (\<lambda>t. t\<lparr>retrans_tmr := 0, rcv_nxt := SEQN f, rcv_processed := SEQN f + 1\<rparr>)
                   (emit (CancelTimer (retrans_tmr (fst s))) s)
        in map_option (\<lambda>(r, s2).
             tcp_send_ack (mem_ack env) (ucast (now env))
               (upd (\<lambda>t. t\<lparr>ev_pending := ev_pending t OR 2, rcv_nxt := rcv_nxt t + 1, snd_nxt := snd_nxt t + 1\<rparr>)
                  (wakeup 4 (upd (set_tcp_state ST_ESTABLISHED) s2)))) (tcp_ack env f s1)
      else if hdr_flags f AND PICO_TCP_RST = 0 then tcp_nosync_rst env f s
      else Some s)"

definition tcp_first_ack :: "tcp_env \<Rightarrow> bytes \<Rightarrow> tcps \<Rightarrow> tcps option" where
  "tcp_first_ack env f s =
     (if snd_nxt (fst s) = ACKN f then
        map_option (\<lambda>(r, s2).
          let s3 = upd (set_tcp_state ST_ESTABLISHED) s2;
              s4 = (if has_parent (fst s3) then if has_wakeup (fst s3) then emit (WakeupParent 4) s3 else s3 else wakeup 4 s3)
          in upd (\<lambda>t. t\<lparr>ev_pending := ev_pending t OR 2\<rparr>) s4)
          (tcp_ack env f (upd (\<lambda>t. t\<lparr>rcv_processed := rcv_nxt t\<rparr>) s))
      else if hdr_flags f AND PICO_TCP_RST = 0 then tcp_nosync_rst env f s
      else Some s)"

section \<open>Data, acknowledgements and closing\<close>

definition data_in :: "tcp_env \<Rightarrow> bytes \<Rightarrow> tcps \<Rightarrow> tcps option" where
  "data_in env f s = map_option snd (tcp_data_in (tcp_mem.truncate env) (length f) (ucast (now env)) f s)"

definition send_ack_now :: "tcp_env \<Rightarrow> tcps \<Rightarrow> tcps" where "send_ack_now env = tcp_send_ack (mem_ack env) (ucast (now env))"

definition tcp_finwaitack :: "tcp_env \<Rightarrow> bytes \<Rightarrow> tcps \<Rightarrow> tcps option" where
  "tcp_finwaitack env f s =
     map_option (\<lambda>(r, s1). if ACKN f = snd_nxt (fst s1) - 1 then upd (set_tcp_state ST_FIN_WAIT2) s1 else s1) (tcp_ack env f s)"

definition tcp_deltcb :: "tcp_env \<Rightarrow> tcps \<Rightarrow> tcps option" where
  "tcp_deltcb env s =
     map_option (\<lambda>s1. socket_del env (wakeup 0x10 (upd set_closed s1)))
       (if tcp_state (fst s) \<noteq> ST_TIME_WAIT \<and> tcp_state (fst s) \<noteq> ST_CLOSING
        then tcp_do_send_rst env (snd_nxt (fst s)) s else Some s)"

definition tcp_finwaitfin :: "tcp_env \<Rightarrow> bytes \<Rightarrow> tcps \<Rightarrow> tcps option" where
  "tcp_finwaitfin env f s =
     (let s1 = wakeup 8 (upd (\<lambda>t. (set_tcp_state ST_TIME_WAIT (t\<lparr>rcv_nxt := SEQN f + 1\<rparr>))\<lparr>state :=
                 state (set_tcp_state ST_TIME_WAIT t) OR 0x0002\<rparr>) s)
      in map_option (\<lambda>s2. tcp_linger env (send_ack_now env s2)) (if payload_len f > 0 then data_in env f s1 else Some s1))"

definition tcp_closing_ack :: "tcp_env \<Rightarrow> bytes \<Rightarrow> tcps \<Rightarrow> tcps option" where
  "tcp_closing_ack env f s =
     map_option (\<lambda>(r, s1). if ACKN f = snd_nxt (fst s1) then tcp_linger env (upd (set_tcp_state ST_TIME_WAIT) s1) else s1)
       (tcp_ack env f s)"

definition tcp_lastackwait :: "tcp_env \<Rightarrow> bytes \<Rightarrow> tcps \<Rightarrow> tcps option" where
  "tcp_lastackwait env f s =
     Some (if ACKN f = snd_nxt (fst s) then socket_del env (wakeup 0x10 (upd set_closed s)) else s)"

definition tcp_attempt_closewait :: "bytes \<Rightarrow> tcps \<Rightarrow> tcps" where
  "tcp_attempt_closewait f s =
     (if pico_seq_compare (SEQN f) (rcv_nxt (fst s)) = 0 then
        let s1 = upd (\<lambda>t. t\<lparr>rcv_nxt := SEQN f + 1\<rparr>) s in
        if pico_seq_compare (SEQN f) (rcv_processed (fst s1)) = 0
        then wakeup 8 (upd (\<lambda>t. let t1 = (if tcp_state t = ST_ESTABLISHED then set_tcp_state ST_CLOSE_WAIT t else t)
                                in t1\<lparr>state := state t1 OR 0x0002\<rparr>) s1)
        else upd (\<lambda>t. t\<lparr>remote_closed := True\<rparr>) s1
      else s)"

definition tcp_closewait :: "tcp_env \<Rightarrow> bytes \<Rightarrow> tcps \<Rightarrow> tcps option" where
  "tcp_closewait env f s =
     Option.bind (if payload_len f > 0 then data_in env f s else Some s) (\<lambda>s1.
       map_option (\<lambda>s2.
         let s3 = tcp_attempt_closewait f s2
         in if tcp_state (fst s3) = ST_CLOSE_WAIT \<or> tcp_state (fst s3) = ST_ESTABLISHED then send_ack_now env s3 else s3)
         (if hdr_flags f AND PICO_TCP_ACK \<noteq> 0 then map_option snd (tcp_ack env f s1) else Some s1))"

definition tcp_rcvfin :: "tcp_env \<Rightarrow> tcps \<Rightarrow> tcps" where
  "tcp_rcvfin env s =
     send_ack_now env (upd (\<lambda>t. (set_tcp_state ST_CLOSING t)\<lparr>rcv_processed := rcv_nxt t + 1, rcv_nxt := rcv_nxt t + 1\<rparr>) s)"

definition tcp_finack :: "tcp_env \<Rightarrow> tcps \<Rightarrow> tcps" where
  "tcp_finack env s =
     tcp_linger env (upd (\<lambda>t. let t1 = set_tcp_state ST_TIME_WAIT t in t1\<lparr>state := state t1 OR 0x0002\<rparr>)
       (wakeup 0x10 (send_ack_now env (upd (\<lambda>t. t\<lparr>rcv_nxt := rcv_nxt t + 1\<rparr>) s))))"

definition tcp_force_closed :: "tcp_env \<Rightarrow> tcps \<Rightarrow> tcps" where
  "tcp_force_closed env s =
     (let s1 = upd set_closed s in
      if tcp_state (fst s1) = ST_ESTABLISHED then wakeup 0x10 s1 else socket_del env (wakeup 0x80 s1))"

text \<open>A reset is compared with the window without regard for the wrap-around, with the scale of the local window and the size of the segment's.\<close>

definition tcp_rst :: "tcp_env \<Rightarrow> bytes \<Rightarrow> tcps \<Rightarrow> tcps" where
  "tcp_rst env f s =
     (if tcp_state (fst s) = ST_SYN_SENT then if snd_nxt (fst s) + 1 = ACKN f then tcp_force_closed env s else s
      else if SEQN f \<ge> rcv_ackd (fst s) \<and> SEQN f \<le> push_bit (unat (wnd_scale (fst s))) (ucast (hdr_rwnd f)) + rcv_ackd (fst s)
      then tcp_force_closed env s else s)"

text \<open>\<^verbatim>\<open>pico_socket_close\<close> of a bound TCP socket that does not listen, or does.\<close>

definition socket_close :: "tcp_env \<Rightarrow> tcps \<Rightarrow> tcps option" where
  "socket_close env s =
     (if tcp_state (fst s) = ST_LISTEN then Some (socket_del env s)
      else if state (fst s) AND 0x0020 \<noteq> 0 then Some s
      else pico_tcp_notify_closing env (upd (\<lambda>t. t\<lparr>state := state t OR 0x0003\<rparr>) s))"

definition tcp_closeconn :: "tcp_env \<Rightarrow> bytes \<Rightarrow> tcps \<Rightarrow> tcps option" where
  "tcp_closeconn env f s =
     (if pico_seq_compare (SEQN f) (rcv_nxt (fst s)) = 0
      then socket_close env (upd (\<lambda>t. let t1 = set_tcp_state ST_CLOSE_WAIT (t\<lparr>rcv_nxt := SEQN f + 1\<rparr>)
                                      in t1\<lparr>state := state t1 OR 0x0001\<rparr>) s)
      else Some s)"

section \<open>The table\<close>

datatype tcp_handler = H_syn | H_synrecv_syn | H_halfopencon | H_synack | H_ack | H_first_ack | H_lastackwait
  | H_finwaitack | H_closing_ack | H_data_in | H_send_rst | H_closewait | H_closeconn | H_rcvfin | H_finwaitfin
  | H_finack | H_rst

record tcp_action_entry =
  a_syn :: "tcp_handler option"
  a_synack :: "tcp_handler option"
  a_ack :: "tcp_handler option"
  a_data :: "tcp_handler option"
  a_fin :: "tcp_handler option"
  a_finack :: "tcp_handler option"
  a_rst :: "tcp_handler option"

definition row :: "tcp_handler option \<Rightarrow> tcp_handler option \<Rightarrow> tcp_handler option \<Rightarrow> tcp_handler option \<Rightarrow> tcp_handler option
    \<Rightarrow> tcp_handler option \<Rightarrow> tcp_handler option \<Rightarrow> tcp_action_entry" where
  "row a b c d e f g = \<lparr>a_syn = a, a_synack = b, a_ack = c, a_data = d, a_fin = e, a_finack = f, a_rst = g\<rparr>"

definition tcp_fsm :: "tcp_action_entry list" where
  "tcp_fsm =
    [row None None None None None None None,
     row None None None None None None None,
     row (Some H_syn) None None None None None None,
     row None (Some H_synack) None None None None (Some H_rst),
     row (Some H_synrecv_syn) None (Some H_first_ack) (Some H_data_in) None (Some H_closeconn) (Some H_rst),
     row (Some H_halfopencon) (Some H_ack) (Some H_ack) (Some H_data_in) (Some H_closewait) (Some H_closewait) (Some H_rst),
     row None (Some H_ack) (Some H_ack) (Some H_send_rst) (Some H_closewait) (Some H_closewait) (Some H_rst),
     row None (Some H_ack) (Some H_lastackwait) (Some H_send_rst) (Some H_send_rst) (Some H_send_rst) (Some H_rst),
     row None (Some H_ack) (Some H_finwaitack) (Some H_data_in) (Some H_rcvfin) (Some H_finack) (Some H_rst),
     row None (Some H_ack) (Some H_ack) (Some H_data_in) (Some H_finwaitfin) (Some H_finack) (Some H_rst),
     row None (Some H_ack) (Some H_closing_ack) (Some H_send_rst) (Some H_send_rst) (Some H_send_rst) (Some H_rst),
     row None None None (Some H_send_rst) None None None]"

definition SA :: u8 where "SA = PICO_TCP_SYN OR PICO_TCP_ACK"
definition FA :: u8 where "FA = PICO_TCP_FIN OR PICO_TCP_ACK"
definition PA :: u8 where "PA = PICO_TCP_PSH OR PICO_TCP_ACK"
definition FPA :: u8 where "FPA = PICO_TCP_FIN OR PICO_TCP_PSH OR PICO_TCP_ACK"
definition RA :: u8 where "RA = PICO_TCP_RST OR PICO_TCP_ACK"

definition late_flags :: "u8 list" where
  "late_flags = [SA, PICO_TCP_ACK, PICO_TCP_PSH, PA, PICO_TCP_FIN, FA, FPA, PICO_TCP_RST]"

definition valid_flags :: "u8 list list" where
  "valid_flags =
    [[], [], [PICO_TCP_SYN], [SA, PICO_TCP_RST, RA],
     [PICO_TCP_SYN, PICO_TCP_ACK, PICO_TCP_PSH, PA, FA, FPA, PICO_TCP_RST],
     [PICO_TCP_SYN, SA, PICO_TCP_ACK, PICO_TCP_PSH, PA, PICO_TCP_FIN, FA, FPA, PICO_TCP_RST, RA],
     late_flags, late_flags, late_flags, late_flags, late_flags, late_flags]"

definition fsm_index :: "pico_socket_tcp \<Rightarrow> nat" where "fsm_index t = unat (drop_bit 8 (state t))"

text \<open>The rows of the table are padded with zeros, and no flags at all are invalid.\<close>

definition invalid_flags :: "pico_socket_tcp \<Rightarrow> u8 \<Rightarrow> bool" where
  "invalid_flags t flags \<longleftrightarrow> flags = 0 \<or> flags \<notin> set (valid_flags ! fsm_index t)"

section \<open>Input\<close>

type_synonym fsm_result = "(tcps \<times> tcps option) option"

definition stay :: "tcps option \<Rightarrow> fsm_result" where "stay r = map_option (\<lambda>s. (s, None)) r"

fun call_handler :: "tcp_env \<Rightarrow> bool \<Rightarrow> bytes \<Rightarrow> tcp_handler \<Rightarrow> tcps \<Rightarrow> fsm_result" where
  "call_handler env clone f H_syn s = tcp_syn env clone f s"
| "call_handler env clone f H_synrecv_syn s = stay (tcp_synrecv_syn env f s)"
| "call_handler env clone f H_halfopencon s = stay (Some (send_ack_now env s))"
| "call_handler env clone f H_synack s = stay (tcp_synack env f s)"
| "call_handler env clone f H_ack s = stay (map_option snd (tcp_ack env f s))"
| "call_handler env clone f H_first_ack s = stay (tcp_first_ack env f s)"
| "call_handler env clone f H_lastackwait s = stay (tcp_lastackwait env f s)"
| "call_handler env clone f H_finwaitack s = stay (tcp_finwaitack env f s)"
| "call_handler env clone f H_closing_ack s = stay (tcp_closing_ack env f s)"
| "call_handler env clone f H_data_in s = stay (data_in env f s)"
| "call_handler env clone f H_send_rst s = stay (tcp_send_rst env f s)"
| "call_handler env clone f H_closewait s = stay (tcp_closewait env f s)"
| "call_handler env clone f H_closeconn s = stay (tcp_closeconn env f s)"
| "call_handler env clone f H_rcvfin s = stay (Some (tcp_rcvfin env s))"
| "call_handler env clone f H_finwaitfin s = stay (tcp_finwaitfin env f s)"
| "call_handler env clone f H_finack s = stay (Some (tcp_finack env s))"
| "call_handler env clone f H_rst s = stay (Some (tcp_rst env f s))"

definition tcp_action_call :: "tcp_env \<Rightarrow> bool \<Rightarrow> bytes \<Rightarrow> tcp_handler option \<Rightarrow> tcps \<Rightarrow> fsm_result" where
  "tcp_action_call env clone f h s = (case h of None \<Rightarrow> Some (s, None) | Some c \<Rightarrow> call_handler env clone f c s)"

text \<open>Only the SYN handler makes a child, so the handlers chained here carry none.\<close>

definition act :: "tcp_env \<Rightarrow> bytes \<Rightarrow> bool \<Rightarrow> tcp_handler option \<Rightarrow> tcps \<Rightarrow> tcps option" where
  "act env f b h s = (if b then map_option fst (tcp_action_call env False f h s) else Some s)"

definition tcp_action_by_flags :: "tcp_env \<Rightarrow> tcp_action_entry \<Rightarrow> bytes \<Rightarrow> u8 \<Rightarrow> tcps \<Rightarrow> tcps option" where
  "tcp_action_by_flags env a f flags s =
     Option.bind (act env f (flags = PICO_TCP_ACK \<or> flags = PA) (a_ack a) s) (\<lambda>s1.
     Option.bind (act env f ((payload_len f > 0 \<or> flags AND PICO_TCP_PSH \<noteq> 0) \<and> state (fst s1) AND 0x0020 = 0 \<and>
                   tcp_state (fst s1) \<noteq> ST_LISTEN) (a_data a) s1) (\<lambda>s2.
     Option.bind (act env f (flags = PICO_TCP_FIN) (a_fin a) s2) (\<lambda>s3.
     Option.bind (act env f (flags = FA \<or> flags = FPA) (a_finack a) s3) (\<lambda>s4.
       act env f (flags AND PICO_TCP_RST \<noteq> 0) (a_rst a) s4))))"

text \<open>\<open>None\<close>: a header that is not there, a state outside the table, or what the handlers say.\<close>

definition pico_tcp_input :: "tcp_env \<Rightarrow> bool \<Rightarrow> bytes \<Rightarrow> tcps \<Rightarrow> fsm_result" where
  "pico_tcp_input env clone f s =
     (if length f < 20 \<or> fsm_index (fst s) \<ge> length tcp_fsm then None
      else
        let flags = hdr_flags f; a = tcp_fsm ! fsm_index (fst s)
        in map_option (\<lambda>(s1, c). (if ev_pending (fst s1) \<noteq> 0 then wakeup (ev_pending (fst s1)) s1 else s1, c))
             (if invalid_flags (fst s) flags then Some (pico_tcp_reply_rst env f s, None)
              else if flags = PICO_TCP_SYN then tcp_action_call env clone f (a_syn a) s
              else if flags = SA then tcp_action_call env clone f (a_synack a) s
              else stay (tcp_action_by_flags env a f flags s)))"

section \<open>Keepalive\<close>

definition pico_tcp_keepalive :: "tcp_env \<Rightarrow> tcps \<Rightarrow> tcps" where
  "pico_tcp_keepalive env s =
     (let probe = (\<lambda>s. upd (\<lambda>t. t\<lparr>ka_retries_count := ka_retries_count t + 1\<rparr>) (tcp_send_probe (mem_ack env) (ucast (now env)) s));
          idle = now env - ack_timestamp (fst s);
          s1 = (if tcp_state (fst s) = ST_ESTABLISHED \<and> ka_time (fst s) > 0 then
                  if ucast (ka_time (fst s)) < idle then
                    let s1 = (if ka_retries_count (fst s) = 0 then probe s else s);
                        s2 = (if ka_retries_count (fst s1) > ka_probes (fst s1) then wakeup 0x80 s1 else s1)
                    in if ucast (ka_retries_count (fst s2) * ka_intvl (fst s2) + ka_time (fst s2)) < idle then probe s2 else s2
                  else upd (\<lambda>t. t\<lparr>ka_retries_count := 0\<rparr>) s
                else s);
          (i, s2) = timer_add Keepalive 1000 env s1
      in upd (\<lambda>t. t\<lparr>keepalive_tmr := i\<rparr>) s2)"

end
