(* ===== verification/PicoTcpKeeps.thy ===== *)
theory PicoTcpKeeps
  imports PicoTcpFsm
begin

text \<open>
  What the operations of a TCP socket leave alone. The view of a socket is its state, the chunks of data in the output
  queue and the last pushed sequence number; with it goes the data sent. Acknowledgements, timers, options and the
  receiving side keep both; the theories on the state machine and on the sender start from here.
\<close>

section \<open>Views\<close>

type_synonym chunk = "u32 \<times> bytes"

definition chunks_out :: "pico_socket_tcp \<Rightarrow> chunk list" where
  "chunks_out t = map (\<lambda>f. (seq f, payload f)) (pool (tcpq_out t))"

definition view :: "pico_socket_tcp \<Rightarrow> u16 \<times> chunk list \<times> u32 \<times> bool" where
  "view t = (state t, chunks_out t, snd_last t, nodelay t)"

fun data_of :: "tcp_event \<Rightarrow> chunk list" where
  "data_of (SentFrame fl q a w opts p) = [(q, p)]"
| "data_of e = []"

definition data_sent :: "tcp_event list \<Rightarrow> chunk list" where "data_sent lg = concat (map data_of lg)"

lemma data_sent_simps [simp]: "data_sent [] = []" "data_sent (e # lg) = data_of e @ data_sent lg" "data_sent (a @ b) = data_sent a @ data_sent b"
  by (simp_all add: data_sent_def)

text \<open>Updates of the other fields.\<close>

lemma view_upd [simp]:
  "view (t\<lparr>ev_pending := a1\<rparr>) = view t" "view (t\<lparr>has_wakeup := b\<rparr>) = view t" "view (t\<lparr>number_of_pending_conn := a1\<rparr>) = view t"
  "view (t\<lparr>tcpq_in := q\<rparr>) = view t" "view (t\<lparr>tcpq_hold := q\<rparr>) = view t" "view (t\<lparr>snd_nxt := a\<rparr>) = view t"
  "view (t\<lparr>snd_old_ack := a\<rparr>) = view t" "view (t\<lparr>snd_retry := a\<rparr>) = view t" "view (t\<lparr>snd_last_out := a\<rparr>) = view t"
  "view (t\<lparr>avg_rtt := a\<rparr>) = view t" "view (t\<lparr>rttvar := a\<rparr>) = view t" "view (t\<lparr>rto := a\<rparr>) = view t" "view (t\<lparr>in_flight := a\<rparr>) = view t"
  "view (t\<lparr>retrans_tmr := a\<rparr>) = view t" "view (t\<lparr>retrans_tmr_due := a2\<rparr>) = view t" "view (t\<lparr>cwnd_counter := a1\<rparr>) = view t"
  "view (t\<lparr>cwnd := a1\<rparr>) = view t" "view (t\<lparr>ssthresh := a1\<rparr>) = view t" "view (t\<lparr>recv_wnd := a1\<rparr>) = view t"
  "view (t\<lparr>recv_wnd_scale := a1\<rparr>) = view t" "view (t\<lparr>rcv_nxt := a\<rparr>) = view t" "view (t\<lparr>rcv_ackd := a\<rparr>) = view t"
  "view (t\<lparr>rcv_processed := a\<rparr>) = view t" "view (t\<lparr>wnd := a1\<rparr>) = view t" "view (t\<lparr>wnd_scale := a1\<rparr>) = view t"
  "view (t\<lparr>remote_closed := b\<rparr>) = view t" "view (t\<lparr>ts_nxt := a\<rparr>) = view t" "view (t\<lparr>mss := a1\<rparr>) = view t" "view (t\<lparr>sack_ok := b\<rparr>) = view t"
  "view (t\<lparr>ts_ok := b\<rparr>) = view t" "view (t\<lparr>mss_ok := b\<rparr>) = view t" "view (t\<lparr>sacks := sb\<rparr>) = view t" "view (t\<lparr>x_mode := a3\<rparr>) = view t"
  "view (t\<lparr>backoff := a3\<rparr>) = view t" "view (t\<lparr>localZeroWindow := b\<rparr>) = view t" "view (t\<lparr>keepalive_tmr := a\<rparr>) = view t"
  "view (t\<lparr>ack_timestamp := a2\<rparr>) = view t" "view (t\<lparr>ka_retries_count := a\<rparr>) = view t" "view (t\<lparr>fin_tmr := a\<rparr>) = view t"
  by (simp_all add: view_def chunks_out_def)

lemma view_state [simp]: "view (t\<lparr>state := st\<rparr>) = (st, snd (view t))" by (simp add: view_def chunks_out_def)

lemma view_out: "pool q = pool (tcpq_out t) \<Longrightarrow> view (t\<lparr>tcpq_out := q\<rparr>) = view t" by (simp add: view_def chunks_out_def)

definition keeps_view :: "tcps \<Rightarrow> tcps \<Rightarrow> bool" where
  "keeps_view s s' \<longleftrightarrow> view (fst s') = view (fst s) \<and> data_sent (snd s') = data_sent (snd s)"

named_theorems keeps "operations that keep the view of the socket and the data sent"

lemma upd_simps [simp]: "fst (upd g s) = g (fst s)" "snd (upd g s) = snd s" by (simp_all add: upd_def)

lemma emit_simps [simp]: "fst (emit e s) = fst s" "snd (emit e s) = snd s @ [e]" by (simp_all add: emit_def)

lemma wakeup_keeps [simp]: "fst (wakeup ev s) = fst s" "data_sent (snd (wakeup ev s)) = data_sent (snd s)" by (simp_all add: wakeup_def)

section \<open>Options\<close>

lemma sack_loop_chunks: "map (\<lambda>f. (seq f, payload f)) (fst (sack_loop a b fs n)) = map (\<lambda>f. (seq f, payload f)) fs"
  by (induction a b fs n rule: sack_loop.induct) (auto simp: Let_def split: prod.splits if_splits)

lemma kept_process_sack [keeps]: "view (tcp_process_sack a b t) = view t"
  using sack_loop_chunks [of a b "pool (tcpq_out t)" 0]
  by (auto simp: tcp_process_sack_def Let_def view_def chunks_out_def split: prod.split)

lemma kept_sack_blocks: "sack_blocks opt n t = Parsed t' \<Longrightarrow> view t' = view t"
proof (induction n arbitrary: opt t)
  case (Suc n)
  then show ?case by (auto simp: keeps split: if_splits)
qed simp

lemma kept_parse_one: "parse_one opt flags k len (t, ts, i) = Parsed (t', ts', i') \<Longrightarrow> view t' = view t"
  unfolding parse_one_def
  by (auto simp: tcp_parse_option_ws_def tcp_parse_option_sack_ok_def tcp_parse_option_mss_def tcp_parse_option_timestamp_def
      expect_def tcp_rcv_sack_def Let_def split: if_splits parse.splits dest: kept_sack_blocks)

lemma tcp_parse_options_view: "tcp_parse_options n opt flags pay t = Parsed (t', ts) \<Longrightarrow> view t' = view t"
  using opt_loop_keeps [of view, OF kept_parse_one] by (auto simp: tcp_parse_options_def split: parse.splits)

lemma kept_parse_options: "parse_options f t = Some (t', ts) \<Longrightarrow> view t' = view t"
  by (auto simp: parse_options_def split: parse.splits dest: tcp_parse_options_view)

lemma kept_add_options: "tcp_add_options nw t flags k = Some (opts, t') \<Longrightarrow> view t' = view t"
  by (auto simp: tcp_add_options_def tcp_add_sack_option_def Let_def split: if_splits prod.splits)

section \<open>Acknowledgements and the window\<close>

lemma keeps_view_refl [simp, intro]: "keeps_view s s" by (simp add: keeps_view_def)

lemma keeps_view_trans [trans]: "keeps_view s s' \<Longrightarrow> keeps_view s' s'' \<Longrightarrow> keeps_view s s''" by (simp add: keeps_view_def)

lemma keeps_view_pair [simp]: "view t' = view t \<Longrightarrow> keeps_view (t, lg) (t', lg)" by (simp add: keeps_view_def)

lemma set_space_with_keeps: "(\<And>s. keeps_view s (send s)) \<Longrightarrow> keeps_view s (set_space_with send s)"
  by (cases s) (auto simp: keeps_view_def set_space_with_def tcp_set_space_check_winupdate_def Let_def split: prod.splits if_splits)

lemma send_empty_with_keeps:
  assumes "\<And>s. keeps_view s (send s)"
  shows "keeps_view s (send_empty_with send mem nw fl ka s)"
proof -
  obtain t lg where s': "set_space_with send s = (t, lg)" by (metis surj_pair)
  then have "keeps_view s (t, lg)" using set_space_with_keeps [of send s, OF assms] by simp
  then show ?thesis using s' by (auto simp: keeps_view_def send_empty_with_def Let_def split: option.splits dest!: kept_add_options)
qed

lemma send_ack_keeps: "keeps_view s (send_ack d mem nw s)"
proof (induction d arbitrary: s)
  case (Suc d)
  then show ?case by (simp add: send_empty_with_keeps)
qed simp

lemma small_sends_keep: "keeps_view s (tcp_send_ack mem nw s)" "keeps_view s (tcp_set_space mem nw s)"
  "keeps_view s (tcp_send_probe mem nw s)" "keeps_view s (send_ack_now env s)"
  by (simp_all add: tcp_send_ack_def tcp_set_space_def tcp_send_probe_def send_ack_now_def send_ack_keeps set_space_with_keeps
      send_empty_with_keeps)

lemmas small_sends_view [keeps] = small_sends_keep [unfolded keeps_view_def, THEN conjunct1]
lemmas small_sends_data [keeps] = small_sends_keep [unfolded keeps_view_def, THEN conjunct2]

section \<open>Timers and resets\<close>

lemma timers_keep [keeps]:
  "view (fst (add_retransmission_timer env n s)) = view (fst s)" "data_sent (snd (add_retransmission_timer env n s)) = data_sent (snd s)"
  "view (fst (tcp_linger env s)) = view (fst s)" "data_sent (snd (tcp_linger env s)) = data_sent (snd s)"
  "view (fst (tcp_next_zerowindow_probe env s)) = view (fst s)" "data_sent (snd (tcp_next_zerowindow_probe env s)) = data_sent (snd s)"
  by (simp_all add: add_retransmission_timer_def tcp_linger_def tcp_next_zerowindow_probe_def timer_add_def Let_def small_sends_view small_sends_data)

lemma reply_rst_keeps [keeps]: "view (fst (pico_tcp_reply_rst env f s)) = view (fst s)"
  "data_sent (snd (pico_tcp_reply_rst env f s)) = data_sent (snd s)"
  by (simp_all add: pico_tcp_reply_rst_def Let_def)

lemma send_acklike_keeps: "send_acklike env fl sq ack s = Some s' \<Longrightarrow> keeps_view s s'"
  by (auto simp: send_acklike_def keeps_view_def keeps Let_def split: option.splits dest!: kept_add_options)

lemma do_send_rst_keeps: "tcp_do_send_rst env sq s = Some s' \<Longrightarrow> keeps_view s s'"
  by (auto simp: tcp_do_send_rst_def split: if_splits dest: send_acklike_keeps)

lemma nosync_rst_keeps: "tcp_nosync_rst env f s = Some s' \<Longrightarrow> keeps_view s s'"
  by (auto simp: tcp_nosync_rst_def keeps_view_def keeps split: if_splits dest: send_acklike_keeps [unfolded keeps_view_def])

lemma keepalive_keeps: "keeps_view s (pico_tcp_keepalive env s)"
  by (auto simp: pico_tcp_keepalive_def keeps_view_def timer_add_def keeps Let_def)

section \<open>Arrival\<close>

lemma store_segment_view [keeps]: "view (snd (store_segment m sq data t)) = view t"
  by (auto simp: store_segment_def tcp_data_in_expected_def tcp_data_in_high_segment_def tcp_sack_prepare_def split: prod.split option.split)

lemma data_in_keeps: "data_in env f s = Some s' \<Longrightarrow> keeps_view s s'"
proof -
  assume d: "data_in env f s = Some s'"
  show ?thesis
  proof (cases "hdr_len f \<le> length f \<and> \<not> length f < 20")
    case False
    then show ?thesis using d by (auto simp: data_in_def tcp_data_in_def split: if_splits)
  next
    case True
    obtain t ts where p: "tcp_parse_options (length f) (drop 20 f) (hdr_flags f) (Some (int (hdr_len f) - 20)) (fst s) = Parsed (t, ts)"
      using d True by (auto simp: data_in_def tcp_data_in_def split: parse.splits if_splits)
    obtain r t1 where st: "store_segment (tcp_mem.truncate env) (SEQN f) (drop (hdr_len f) f) t = (r, t1)" by (metis surj_pair)
    then have "view t1 = view t" using store_segment_view [of "tcp_mem.truncate env" "SEQN f" "drop (hdr_len f) f" t] by simp
    then show ?thesis using d True p st tcp_parse_options_view [OF p]
      by (auto simp: keeps_view_def data_in_def tcp_data_in_def tcp_data_in_send_ack_def keeps)
  qed
qed

end
