(* ===== verification/PicoTcpSender.thy ===== *)
theory PicoTcpSender
  imports PicoTcpKeeps
begin

text \<open>
  The sender's promise: whatever segments are queued, split, sent and sent again, a segment carries the bytes
  the application pushed at its sequence number. The relation \<open>safe\<close> says that an operation keeps the promise;
  it is proved for the operations of the sending side and, with the state they leave, for acknowledgements.
\<close>

section \<open>The stream pushed\<close>

text \<open>\<open>D\<close> is what the application has pushed, \<open>b\<close> the sequence number of its first byte.\<close>

fun chunk_ok :: "bytes \<Rightarrow> u32 \<Rightarrow> chunk \<Rightarrow> bool" where
  "chunk_ok D b (q, p) \<longleftrightarrow> p = [] \<or> (\<exists>i. q = b + of_nat i \<and> i + length p \<le> length D \<and> p = take (length p) (drop i D))"

text \<open>The stream does not pass sequence number 0, which the code takes for a number not set.\<close>

definition unwrapped :: "bytes \<Rightarrow> u32 \<Rightarrow> bool" where "unwrapped D b \<longleftrightarrow> b \<noteq> 0 \<and> unat b + length D \<le> 2 ^ 32"

definition sender_ok :: "bytes \<Rightarrow> u32 \<Rightarrow> tcps \<Rightarrow> bool" where
  "sender_ok D b s \<longleftrightarrow> nodelay (fst s) \<and> snd_last (fst s) = b - 1 + of_nat (length D) \<and>
     (\<forall>c \<in> set (chunks_out (fst s)) \<union> set (data_sent (snd s)). chunk_ok D b c)"

definition safe :: "tcps \<Rightarrow> tcps \<Rightarrow> bool" where
  "safe s s' \<longleftrightarrow> (\<forall>D b. unwrapped D b \<longrightarrow> sender_ok D b s \<longrightarrow> sender_ok D b s')"

definition frame_ok :: "bytes \<Rightarrow> u32 \<Rightarrow> tseg \<Rightarrow> bool" where "frame_ok D b f \<longleftrightarrow> chunk_ok D b (seq f, payload f)"

lemma unwrapped_zero: "unwrapped D b \<Longrightarrow> chunk_ok D b (0, p) \<Longrightarrow> p = []"
proof -
  assume u: "unwrapped D b" and c: "chunk_ok D b (0, p)"
  show "p = []"
  proof (rule ccontr)
    assume p: "p \<noteq> []"
    then obtain i where i: "0 = b + of_nat i" "i + length p \<le> length D" using c by auto
    have "0 < length p" using p by simp
    then have "i < length D" using i(2) by linarith
    then have i2: "unat b + i < 2 ^ 32" "0 < unat b" using u by (auto simp: unwrapped_def unat_gt_0)
    have "unat (b + of_nat i) = unat b + i" using i2 by (simp add: unat_word_ariths unat_of_nat)
    then show False using i(1) i2(2) by simp
  qed
qed

lemma chunk_ok_append: "chunk_ok D b c \<Longrightarrow> chunk_ok (D @ E) b c"
proof (cases c)
  case (Pair q p)
  assume "chunk_ok D b c"
  then consider "p = []" | i where "q = b + of_nat i" "i + length p \<le> length D" "p = take (length p) (drop i D)" using Pair by auto
  then show ?thesis
  proof cases
    case (2 i)
    have "take (length p) (drop i (D @ E)) = take (length p) (drop i D)" using 2(2) by simp
    then show ?thesis using Pair 2 by (auto intro!: exI [of _ i])
  qed (simp add: Pair)
qed

lemma chunk_ok_take: "chunk_ok D b (q, p) \<Longrightarrow> chunk_ok D b (q, take n p)"
proof (cases "p = []")
  case False
  assume "chunk_ok D b (q, p)"
  then obtain i where i: "q = b + of_nat i" "i + length p \<le> length D" "p = take (length p) (drop i D)" using False by auto
  have "take n p = take (min n (length p)) (drop i D)" by (subst (1) i(3)) (simp add: take_take)
  then show ?thesis using i(1,2) by (auto simp: min.commute intro!: exI [of _ i])
qed simp

lemma chunk_ok_drop: "chunk_ok D b (q, p) \<Longrightarrow> chunk_ok D b (q + of_nat n, drop n p)"
proof (cases "drop n p = []")
  case False
  assume "chunk_ok D b (q, p)"
  then obtain i where i: "q = b + of_nat i" "i + length p \<le> length D" "p = take (length p) (drop i D)" using False by auto
  have "drop n p = take (length p - n) (drop (i + n) D)" by (subst (1) i(3)) (simp add: drop_take add.commute)
  then show ?thesis using i(1,2) False by (auto intro!: exI [of _ "i + n"])
qed simp

declare chunk_ok.simps [simp del]

lemma chunk_ok_Nil [simp]: "chunk_ok D b (q, [])" by (simp add: chunk_ok.simps)

lemma safe_refl [simp, intro]: "safe s s" by (simp add: safe_def)

lemma safe_trans [trans]: "safe s s' \<Longrightarrow> safe s' s'' \<Longrightarrow> safe s s''" by (simp add: safe_def)

text \<open>The state of the socket does not matter, and a smaller queue is as good.\<close>

lemma safeI:
  assumes "nodelay (fst s') = nodelay (fst s)" "snd_last (fst s') = snd_last (fst s)"
    "set (chunks_out (fst s')) \<subseteq> set (chunks_out (fst s))" "set (data_sent (snd s')) \<subseteq> set (data_sent (snd s))"
  shows "safe s s'"
  using assms by (fastforce simp: safe_def sender_ok_def)

lemma safe_view: "snd (view (fst s')) = snd (view (fst s)) \<Longrightarrow> data_sent (snd s') = data_sent (snd s) \<Longrightarrow> safe s s'"
  by (intro safeI) (auto simp: view_def)

lemma keeps_safe: "keeps_view s s' \<Longrightarrow> safe s s'" by (intro safe_view) (auto simp: keeps_view_def)

section \<open>Queues of frames\<close>

lemma sender_ok_mem: "sender_ok D b s \<Longrightarrow> f \<in> set (pool (tcpq_out (fst s))) \<Longrightarrow> frame_ok D b f"
  by (auto simp: sender_ok_def frame_ok_def chunks_out_def)

lemma peek_mem: "peek_segment q n = Some f \<Longrightarrow> f \<in> set (pool q)"
  by (auto simp: peek_segment_def find_Some_iff)

lemma first_mem: "first_segment q = Some f \<Longrightarrow> f \<in> set (pool q)"
  by (auto simp: first_segment_def split: list.splits)

lemma next_mem: "next_segment q g = Some f \<Longrightarrow> f \<in> set (pool q)"
  by (simp add: next_segment_def peek_mem)

text \<open>A queue whose frames all belong to the stream.\<close>

lemma sender_ok_queue:
  assumes "sender_ok D b s" "\<And>f. f \<in> set (pool q) \<Longrightarrow> frame_ok D b f"
  shows "sender_ok D b (upd (\<lambda>t. t\<lparr>tcpq_out := q\<rparr>) s)" "sender_ok D b ((fst s)\<lparr>tcpq_out := q\<rparr>, snd s)"
  using assms by (auto simp: sender_ok_def chunks_out_def frame_ok_def)

lemma put_segment_mem: "f \<in> set (pool (put_segment n g q)) \<Longrightarrow> f = g \<or> f \<in> set (pool q)"
  by (auto simp: put_segment_def split: if_splits)

lemma discard_mem: "f \<in> set (pool (pico_discard_segment g q)) \<Longrightarrow> f \<in> set (pool q)"
  by (auto simp: pico_discard_segment_def tdelete_def split: if_splits)

lemma enqueue_mem: "f \<in> set (pool (snd (pico_enqueue_segment m (Some g) q))) \<Longrightarrow> f = g \<or> f \<in> set (pool q)"
  by (auto simp: pico_enqueue_segment_def do_enqueue_segment_def tinsert_def split: if_splits dest: set_takeWhileD set_dropWhileD)

lemma release_all_mem: "release_all_loop i s fs q r ts = (r', ts', q') \<Longrightarrow> f \<in> set (pool q') \<Longrightarrow> f \<in> set (pool q)"
  by (induction i s fs q r ts rule: release_all_loop.induct) (auto simp: Let_def split: if_splits dest: discard_mem)

section \<open>Sending\<close>

lemma frame_ok_upd [simp]:
  "frame_ok D b (f\<lparr>tstamp := a\<rparr>) = frame_ok D b f" "frame_ok D b (f\<lparr>hflags := h\<rparr>) = frame_ok D b f"
  by (simp_all add: frame_ok_def)

lemma send_ok:
  assumes u: "unwrapped D b" and s: "sender_ok D b s" "frame_ok D b f" and r: "tcp_send env f opts s = (r, f2, s2)"
  shows "frame_ok D b f2" "sender_ok D b s2" "state (fst s2) = state (fst s)"
proof -
  define f0 where "f0 = (if seq f = 0 then f\<lparr>seq := snd_nxt (fst s)\<rparr> else f)"
  have f0: "frame_ok D b f0" using s(2) unwrapped_zero [OF u, of "payload f"] by (auto simp: f0_def frame_ok_def)
  obtain a f1 t1 where fl: "tcp_send_add_tcpflags (fst s) f0 = (a, f1, t1)" by (metis surj_pair)
  have f1: "frame_ok D b f1" "view t1 = view (fst s)"
    using fl f0 by (auto simp: tcp_send_add_tcpflags_def frame_ok_def Let_def split: prod.splits if_splits)
  have e: "f2 = f1" "tcp_send_try_enqueue env f1 a opts (t1, snd s) = (r, s2)"
    using r fl by (auto simp: tcp_send_def f0_def [symmetric] Let_def split: prod.splits)
  then show "frame_ok D b f2" using f1 by simp
  have s1: "sender_ok D b (t1, snd s)" "state t1 = state (fst s)" using s(1) f1(2) by (simp_all add: sender_ok_def view_def)
  have "view (fst s2) = view t1" using e(2) by (auto simp: tcp_send_try_enqueue_def split: if_splits)
  moreover have "set (data_sent (snd s2)) \<subseteq> set (data_sent (snd s)) \<union> {(seq f1, payload f1)}"
    using e(2) by (auto simp: tcp_send_try_enqueue_def sent_frame_def split: if_splits)
  ultimately show "sender_ok D b s2" "state (fst s2) = state (fst s)"
    using s1 f1(1) by (auto simp: sender_ok_def view_def frame_ok_def)
qed

lemma send_state: "tcp_send env f opts s = (r, f2, s2) \<Longrightarrow> state (fst s2) = state (fst s)"
  by (auto simp: tcp_send_def tcp_send_add_tcpflags_def tcp_send_try_enqueue_def Let_def split: if_splits prod.splits)

lemma put_segment_ok: "sender_ok D b s \<Longrightarrow> frame_ok D b g \<Longrightarrow> sender_ok D b (upd (\<lambda>t. t\<lparr>tcpq_out := put_segment n g (tcpq_out t)\<rparr>) s)"
  using sender_ok_queue(1) [of D b s "put_segment n g (tcpq_out (fst s))"] put_segment_mem sender_ok_mem by (fastforce simp: upd_def)

lemma sender_ok_view: "sender_ok D b s \<Longrightarrow> view (fst s') = view (fst s) \<Longrightarrow> data_sent (snd s') = data_sent (snd s) \<Longrightarrow> sender_ok D b s'"
  by (simp add: sender_ok_def view_def)

lemma split_ok:
  assumes "sender_ok D b (t, lg)" "frame_ok D b f" "tcp_split_segment env f z t = (fo, t')"
  shows "sender_ok D b (t', lg)" "\<And>g. fo = Some g \<Longrightarrow> frame_ok D b g" "state t' = state t"
proof -
  show "state t' = state t" using assms(3) by (auto simp: tcp_split_segment_def Let_def split: if_splits)
  show "frame_ok D b g" if "fo = Some g" for g
    using that assms(2,3) chunk_ok_take by (auto simp: tcp_split_segment_def frame_ok_def Let_def split: if_splits)
  have f2: "frame_ok D b (f\<lparr>seq := seq f + ucast z, payload := drop (unat z) (payload f), esize := e, tstamp := 0,
      sacked := False, ts_saved := m\<rparr>)" for e m
    using assms(2) chunk_ok_drop [of D b "seq f" "payload f" "unat z"] by (simp add: frame_ok_def)
  have "t' = t \<or> (\<exists>g. frame_ok D b g \<and> t' = t\<lparr>tcpq_out := snd (pico_enqueue_segment (mem_node env) (Some g) (pico_discard_segment f (tcpq_out t)))\<rparr>)"
    using assms(3) f2 unfolding tcp_split_segment_def Let_def by (auto split: if_splits)
  then consider "t' = t" | g where "frame_ok D b g"
      "t' = t\<lparr>tcpq_out := snd (pico_enqueue_segment (mem_node env) (Some g) (pico_discard_segment f (tcpq_out t)))\<rparr>" by blast
  then show "sender_ok D b (t', lg)"
  proof cases
    case (2 g)
    have "frame_ok D b h" if "h \<in> set (pool (snd (pico_enqueue_segment (mem_node env) (Some g) (pico_discard_segment f (tcpq_out t)))))" for h
      using enqueue_mem [OF that] 2(1) discard_mem sender_ok_mem [OF assms(1)] by auto
    then show ?thesis using 2(2) sender_ok_queue(2) [OF assms(1)] by simp
  qed (simp add: assms(1))
qed

section \<open>Output\<close>

text \<open>What every part of a turn keeps the loop keeps; \<open>F\<close> is what is known of the frames.\<close>

lemma output_loop_invariant:
  assumes stamp: "\<And>s f n. P s \<Longrightarrow> F f \<Longrightarrow> P (add_retransmission_timer env n
        (upd (\<lambda>t. t\<lparr>tcpq_out := put_segment (seq f) (f\<lparr>tstamp := now env\<rparr>) (tcpq_out t)\<rparr>) s)) \<and> F (f\<lparr>tstamp := now env\<rparr>)"
    and full: "\<And>s u. P s \<Longrightarrow> P (upd (\<lambda>t. t\<lparr>snd_nxt := u, snd_retry := u, x_mode := 6\<rparr>) s)"
    and split: "\<And>s f z fo t'. P s \<Longrightarrow> F f \<Longrightarrow> tcp_split_segment env f z (fst s) = (fo, t') \<Longrightarrow> P (t', snd s) \<and> (\<forall>g. fo = Some g \<longrightarrow> F g)"
    and shrink: "\<And>t lg c. P (t, lg) \<Longrightarrow> P (t\<lparr>cwnd := c\<rparr>, lg)"
    and send: "\<And>s f opts r g s'. P s \<Longrightarrow> F f \<Longrightarrow> tcp_send env f opts s = (r, g, s') \<Longrightarrow>
      P (upd (\<lambda>t. t\<lparr>snd_last_out := seq g, tcpq_out := put_segment (seq f) g (tcpq_out t)\<rparr>) s')"
    and nxt: "\<And>s f g. P s \<Longrightarrow> next_segment (tcpq_out (fst s)) g = Some f \<Longrightarrow> F f"
  shows "output_loop k env una fo sc data s = Some (sc', d', s') \<Longrightarrow> P s \<Longrightarrow> (\<And>f. fo = Some f \<Longrightarrow> F f) \<Longrightarrow> P s'"
proof (induction k arbitrary: una fo sc data s)
  case (Suc k)
  show ?case
  proof (cases "fo = None \<or> \<not> ucast (cwnd (fst s)) \<ge> in_flight (fst s)")
    case True
    then show ?thesis using Suc.prems by (auto split: option.splits)
  next
    case False
    then obtain f where f: "fo = Some f" "ucast (cwnd (fst s)) \<ge> in_flight (fst s)" by auto
    define f0 where "f0 = f\<lparr>tstamp := now env\<rparr>"
    define s2 where "s2 = add_retransmission_timer env
      (ucast (rto (fst (upd (\<lambda>t. t\<lparr>tcpq_out := put_segment (seq f) f0 (tcpq_out t)\<rparr>) s))) + now env)
      (upd (\<lambda>t. t\<lparr>tcpq_out := put_segment (seq f) f0 (tcpq_out t)\<rparr>) s)"
    have f0: "F f0" and s2: "P s2" using stamp [OF Suc.prems(2) Suc.prems(3) [OF f(1)]] by (simp_all add: f0_def s2_def)
    note P = Suc.prems(1) [unfolded f output_loop.simps option.case Let_def, folded f0_def, folded s2_def]
    have ge: "\<not> \<not> ucast (cwnd (fst s)) \<ge> in_flight (fst s)" using f by simp
    note P1 = P [unfolded if_not_P [OF ge]]
    show ?thesis
    proof (cases "una = None \<or> pico_seq_compare (seq f0) (the una) < 0")
      case True
      then show ?thesis using P1 s2 by (auto split: option.splits)
    next
      case False
      then obtain u where u: "una = Some u" "\<not> pico_seq_compare (seq f0) u < 0" by auto
      then obtain w where w: "peer_wnd (fst s2) = Some w" using P1 by (cases "peer_wnd (fst s2)") simp_all
      show ?thesis
      proof (cases "nat (pico_seq_compare (seq f0) u) \<ge> w")
        case True
        then show ?thesis using P1 u w s2 full [OF s2] by (auto split: if_splits)
      next
        case in_wnd: False
        obtain fo1 t1 where sp: "(if nat (pico_seq_compare (seq f0) u) + plen f0 > w then tcp_split_segment env f0 (of_nat w) (fst s2)
            else (Some f0, fst s2)) = (fo1, t1)" by (metis surj_pair)
        have t1: "P (t1, snd s2)" "\<And>g. fo1 = Some g \<Longrightarrow> F g"
          using sp s2 f0 split [of s2 f0 "of_nat w" fo1 t1] by (auto split: if_splits)
        show ?thesis
        proof (cases fo1)
          case None
          then show ?thesis using P1 u w in_wnd sp t1 by auto
        next
          case fo1: (Some f1)
          define cut where "cut \<longleftrightarrow> nat (pico_seq_compare (seq f0) u) + plen f0 > w \<and> unat (of_nat w :: u16) < plen f0"
          define t2 where "t2 = (if nat (pico_seq_compare (seq f0) u) + plen f0 > w
            then t1\<lparr>cwnd := (if ucast (in_flight t1) < (1 :: u16) then 1 else ucast (in_flight t1))\<rparr> else t1)"
          define opts1 where "opts1 = (if cut then tcp_add_options_frame (ucast (now env)) t2 f1
            else tcp_add_options_frame (ucast (now env)) (fst s2) f0)"
          obtain r f2 s3 where snt: "tcp_send env f1 opts1 (t2, snd s2) = (r, f2, s3)" by (metis surj_pair)
          have t2: "P (t2, snd s2)" using t1(1) shrink by (simp add: t2_def)
          define s4 where "s4 = upd (\<lambda>t. t\<lparr>snd_last_out := seq f2, tcpq_out := put_segment (seq f1) f2 (tcpq_out t)\<rparr>) s3"
          have s4: "P s4" unfolding s4_def by (rule send [OF t2 t1(2) [OF fo1] snt])
          obtain una2 where una2: "(if sc - 1 < 1 then Some (sc - 1, data, s4)
              else if payload f2 \<noteq> [] then output_loop k env una2 (next_segment (tcpq_out (fst s4)) f2) (sc - 1) True s4
              else output_loop k env una2 None (sc - 1) data s4) = Some (sc', d', s')"
            using P1 by (simp only: u option.case if_False w Option.bind.bind_lunit in_wnd sp prod.case fo1 cut_def [symmetric]
                t2_def [symmetric] opts1_def [symmetric] snt s4_def [symmetric])
          show ?thesis
          proof (cases "sc - 1 < 1")
            case True
            then show ?thesis using una2 s4 by simp
          next
            case go: False
            show ?thesis
            proof (cases "payload f2 = []")
              case True
              then have "output_loop k env una2 None (sc - 1) data s4 = Some (sc', d', s')" using una2 go by simp
              then show ?thesis by (rule Suc.IH [OF _ s4]) simp
            next
              case False
              then have "output_loop k env una2 (next_segment (tcpq_out (fst s4)) f2) (sc - 1) True s4 = Some (sc', d', s')"
                using una2 go by simp
              then show ?thesis by (rule Suc.IH [OF _ s4]) (rule nxt [OF s4])
            qed
          qed
        qed
      qed
    qed
  qed
qed simp

lemma output_loop_state: "output_loop k env una fo sc data s = Some (sc', d', s') \<Longrightarrow> state (fst s') = state (fst s)"
proof -
  assume o: "output_loop k env una fo sc data s = Some (sc', d', s')"
  have tm: "state (fst (add_retransmission_timer env n x)) = state (fst x)" for n x using timers_keep(1) [of env n x] by (simp add: view_def)
  show ?thesis
    by (rule output_loop_invariant [where P = "\<lambda>x. state (fst x) = state (fst s)" and F = "\<lambda>_. True", OF _ _ _ _ _ _ o])
      (auto simp: tm tcp_split_segment_def Let_def dest: send_state split: if_splits)
qed

lemma output_loop_ok:
  assumes u: "unwrapped D b" and o: "output_loop k env una fo sc data s = Some (sc', d', s')"
    and s: "sender_ok D b s" "\<And>f. fo = Some f \<Longrightarrow> frame_ok D b f"
  shows "sender_ok D b s'"
proof (rule output_loop_invariant [where P = "sender_ok D b" and F = "frame_ok D b", OF _ _ _ _ _ _ o s], goal_cases)
  case (1 s f n)
  then show ?case using sender_ok_view [OF put_segment_ok [of D b s "f\<lparr>tstamp := now env\<rparr>" "seq f"]] by (simp add: keeps)
next
  case (2 s u)
  then show ?case by (rule sender_ok_view) simp_all
next
  case (3 s f z fo t')
  then show ?case using split_ok [of D b "fst s" "snd s" f env z fo t'] by auto
next
  case (4 t lg c)
  then show ?case by (rule sender_ok_view) simp_all
next
  case (5 s f opts r g s')
  note g = send_ok [OF u 5]
  show ?case using sender_ok_view [OF put_segment_ok [OF g(2,1), of "seq f"]] by (simp add: view_def chunks_out_def)
next
  case (6 s f g)
  then show ?case using sender_ok_mem [OF _ next_mem] by blast
qed

text \<open>Sending the last segment of a closed socket starts the closing; nothing else changes the state.\<close>

definition fin_sent :: "u16 \<Rightarrow> u16 \<Rightarrow> bool" where
  "fin_sent st st' \<longleftrightarrow> st' = st \<or> st AND 0xFF00 = 0x0500 \<and> st' = (st AND 0x00FF) OR 0x0800
     \<or> st AND 0xFF00 = 0x0600 \<and> st' = (st AND 0x00FF) OR 0x0700"

text \<open>An operation is good when it keeps the sender's promise and the state but for that.\<close>

definition good :: "tcps \<Rightarrow> tcps \<Rightarrow> bool" where "good s s' \<longleftrightarrow> safe s s' \<and> fin_sent (state (fst s)) (state (fst s'))"

lemma keeps_good: "keeps_view s s' \<Longrightarrow> good s s'"
  using keeps_safe [of s s'] by (simp add: good_def fin_sent_def keeps_view_def view_def)

lemma send_fin_keeps: "tcp_send_fin env s = Some s' \<Longrightarrow> keeps_view s s'"
  by (auto simp: tcp_send_fin_def keeps_view_def keeps Let_def split: if_splits option.splits dest!: kept_add_options)

lemma check_closing_good: "check_closing env s = Some s' \<Longrightarrow> good s s'"
proof -
  assume c: "check_closing env s = Some s'"
  consider s1 where "tcp_state (fst s) = 0x0500" "tcp_send_fin env s = Some s1" "s' = upd (set_tcp_state 0x0800) s1"
    | s1 where "tcp_state (fst s) = 0x0600" "tcp_send_fin env s = Some s1" "s' = upd (set_tcp_state 0x0700) s1"
    | "s' = s"
    using c by (cases "tcp_send_fin env s") (auto simp: check_closing_def checkLocalClosing_def checkRemoteClosing_def split: if_splits)
  then show ?thesis
  proof cases
    case (1 s1)
    then show ?thesis using send_fin_keeps [OF 1(2)]
      by (auto simp: good_def fin_sent_def keeps_view_def view_def chunks_out_def set_tcp_state_def tcp_state_def intro!: safe_view)
  next
    case (2 s1)
    then show ?thesis using send_fin_keeps [OF 2(2)]
      by (auto simp: good_def fin_sent_def keeps_view_def view_def chunks_out_def set_tcp_state_def tcp_state_def intro!: safe_view)
  qed (simp add: good_def fin_sent_def)
qed

lemma good_refl [simp, intro]: "good s s" by (simp add: good_def fin_sent_def)

lemma state_bits:
  fixes s :: u16
  assumes "c AND 0x00FF = 0"
  shows "((s AND 0x00FF) OR c) AND 0xFF00 = c AND 0xFF00"
proof -
  have "(0x00FF :: u16) AND 0xFF00 = 0" by simp
  then have "(s AND 0x00FF) AND 0xFF00 = 0" by (simp add: and.assoc)
  then show ?thesis by (simp add: bit.conj_disj_distrib2)
qed

lemma fin_sent_trans: "fin_sent a b \<Longrightarrow> fin_sent b c \<Longrightarrow> fin_sent a c"
  using state_bits [of "0x0800" a] state_bits [of "0x0700" a] by (auto simp: fin_sent_def)

lemma good_trans [trans]: "good s s' \<Longrightarrow> good s' s'' \<Longrightarrow> good s s''"
  unfolding good_def using safe_trans fin_sent_trans by blast

lemma good_keeps [trans]: "good s s' \<Longrightarrow> keeps_view s' s'' \<Longrightarrow> good s s''"
  using good_trans keeps_good by blast

lemma output_good: "pico_tcp_output env sc s = Some (r, s') \<Longrightarrow> good s s'"
proof -
  assume o: "pico_tcp_output env sc s = Some (r, s')"
  obtain sc1 data s1 where l: "output_loop (nat sc + 2) env (map_option seq (first_segment (tcpq_out (fst s)))) (peek_segment (tcpq_out (fst s)) (snd_nxt (fst s)))
      sc False s = Some (sc1, data, s1)"
    using o by (auto simp: pico_tcp_output_def bind_eq_Some_conv)
  let ?s2 = "if data then upd (\<lambda>t. rto_set (rto t) t) s1 else s1"
  have "good s s1" unfolding good_def safe_def
    using output_loop_state [OF l] output_loop_ok [OF _ l] sender_ok_mem [OF _ peek_mem] by (auto simp: fin_sent_def)
  also have "keeps_view s1 ?s2" by (simp add: keeps_view_def rto_set_def Let_def)
  finally (good_keeps) have g: "good s ?s2" .
  have "good ?s2 s'"
    using o l check_closing_good [of env ?s2] by (cases "check_closing env ?s2") (auto simp: pico_tcp_output_def Let_def split: if_splits)
  with g show ?thesis by (rule good_trans)
qed

section \<open>Retransmission\<close>

lemma add_header_frame: "tcp_add_header env t f = Some (f1, opts) \<Longrightarrow> seq f1 = seq f \<and> payload f1 = payload f"
  by (auto simp: tcp_add_header_def split: option.splits)

text \<open>A frame sent again, with its header written in place.\<close>

lemma resend_safe:
  assumes "f \<in> set (pool (tcpq_out (fst s)))" "seq f1 = seq f" "payload f1 = payload f"
    and "view (fst s') = view ((fst s)\<lparr>tcpq_out := put_segment n f1 (tcpq_out (fst s))\<rparr>)"
    and "set (data_sent (snd s')) \<subseteq> set (data_sent (snd s)) \<union> {(seq f1, payload f1)}"
  shows "good s s'"
proof -
  have "sender_ok D b s'" if "sender_ok D b s" for D b
  proof -
    have f: "frame_ok D b f1" using sender_ok_mem [OF that assms(1)] assms(2,3) by (simp add: frame_ok_def)
    then have "sender_ok D b (upd (\<lambda>t. t\<lparr>tcpq_out := put_segment n f1 (tcpq_out t)\<rparr>) s)" by (rule put_segment_ok [OF that])
    then show ?thesis using assms(4,5) f by (fastforce simp: sender_ok_def view_def frame_ok_def)
  qed
  then show ?thesis using assms(4) by (simp add: good_def safe_def fin_sent_def view_def)
qed

lemma retrans_good: "tcp_retrans env fo s = Some s' \<Longrightarrow> (\<And>f. fo = Some f \<Longrightarrow> f \<in> set (pool (tcpq_out (fst s)))) \<Longrightarrow> good s s'"
proof (cases fo)
  case (Some f)
  assume r: "tcp_retrans env fo s = Some s'" and m: "\<And>f. fo = Some f \<Longrightarrow> f \<in> set (pool (tcpq_out (fst s)))"
  obtain f1 opts where h: "tcp_add_header env (fst s) f = Some (f1, opts)"
    using r Some by (auto simp: tcp_retrans_def bind_eq_Some_conv)
  show ?thesis
  proof (rule resend_safe [OF m [OF Some], of f1 _ "seq f"])
    show "seq f1 = seq f" "payload f1 = payload f" using add_header_frame [OF h] by simp_all
  qed (use r Some h in \<open>auto simp: tcp_retrans_def sent_frame_def keeps Let_def split: if_splits\<close>)
qed (auto simp: tcp_retrans_def)

lemma rto_xmit_good:
  assumes "tcp_rto_xmit env f1 opts s = (r, s')" "f \<in> set (pool (tcpq_out (fst s0)))" "seq f1 = seq f" "payload f1 = payload f"
    "s = upd (\<lambda>t. t\<lparr>tcpq_out := put_segment n f1 (tcpq_out t)\<rparr>) s0"
  shows "good s0 s'"
  by (rule resend_safe [of f _ f1 _ n]) (use assms in \<open>auto simp: tcp_rto_xmit_def sent_frame_def keeps Let_def split: if_splits\<close>)

lemma check_queue_good:
  "check_queue_loop k env fo s = Some (r, s') \<Longrightarrow> (\<And>f. fo = Some f \<Longrightarrow> f \<in> set (pool (tcpq_out (fst s)))) \<Longrightarrow> good s s'"
proof (induction k env fo s rule: check_queue_loop.induct)
  case (1 k env s)
  then show ?case by (auto intro!: keeps_good simp: keeps_view_def split: if_splits)
next
  case (3 k env f s)
  show ?case
  proof (cases "x_mode (fst s) = 6")
    case True
    then show ?thesis using "3.prems"(1) by (auto intro!: keeps_good simp: keeps_view_def keeps)
  next
    case False
    define s1 where "s1 = (if x_mode (fst s) \<noteq> 4 then upd tcp_first_timeout s else s)"
    obtain f1 opts where h: "tcp_add_header env (fst s1) f = Some (f1, opts)"
      using "3.prems"(1) False by (auto simp: s1_def Let_def bind_eq_Some_conv)
    define s2 where "s2 = upd (\<lambda>t. t\<lparr>tcpq_out := put_segment (seq f) f1 (tcpq_out t)\<rparr>) s1"
    obtain x s3 where x: "tcp_rto_xmit env f1 opts s2 = (x, s3)" by (metis surj_pair)
    have "good s s1" by (rule keeps_good) (simp add: s1_def keeps_view_def tcp_first_timeout_def)
    moreover have "f \<in> set (pool (tcpq_out (fst s1)))" using "3.prems"(2) by (simp add: s1_def tcp_first_timeout_def)
    then have "good s1 s3" using add_header_frame [OF h] by (intro rto_xmit_good [OF x _ _ _ s2_def]) auto
    ultimately have g: "good s s3" by (rule good_trans)
    have e: "check_queue_loop (Suc k) env (Some f) s =
        (if x > 0 then Some (- 1, s3) else check_queue_loop k env (next_segment (tcpq_out (fst s3)) f1) s3)"
      using False h x by (simp add: s1_def [symmetric] s2_def [symmetric] Let_def)
    show ?thesis
    proof (cases "x > 0")
      case True
      then show ?thesis using "3.prems"(1) e g by simp
    next
      case no: False
      have "good s3 s'"
        using "3.IH" [OF False s1_def h, OF refl s2_def _ _ no] x "3.prems"(1) e no next_mem by auto
      with g show ?thesis by (rule good_trans)
    qed
  qed
qed simp

lemma socket_del_data [keeps]: "data_sent (snd (socket_del env s)) = data_sent (snd s)" "snd (view (fst (socket_del env s))) = snd (view (fst s))"
  "state (fst (socket_del env s)) = 0x0020"
  by (simp_all add: socket_del_def timer_add_def)

lemma timeout_safe: "tcp_retrans_timeout env val s = Some s' \<Longrightarrow> safe s s'"
proof -
  assume t: "tcp_retrans_timeout env val s = Some s'"
  define s1 where "s1 = upd (\<lambda>t. t\<lparr>retrans_tmr_due := 0\<rparr>) (upd (\<lambda>t. t\<lparr>retrans_tmr := 0\<rparr>) s)"
  have k: "keeps_view s s1" by (simp add: s1_def keeps_view_def)
  consider "keeps_view s s'" | r where "tcp_retrans_timeout_check_queue env s1 = Some (r, s')"
    | "s' = socket_del env (wakeup 0x10 (upd (\<lambda>t. t\<lparr>tcpq_out := tcp_discard_all_segments (tcpq_out t)\<rparr>) s1))"
    using t k by (auto simp: tcp_retrans_timeout_def Let_def s1_def [symmetric] keeps keeps_view_def split: if_splits)
  then show ?thesis
  proof cases
    case 1
    then show ?thesis by (rule keeps_safe)
  next
    case (2 r)
    then have "good s1 s'" unfolding tcp_retrans_timeout_check_queue_def by (rule check_queue_good) (rule first_mem)
    then show ?thesis using safe_trans [OF keeps_safe [OF k]] by (simp add: good_def)
  next
    case 3
    have v: "snd (view (fst s')) = snd (view ((fst s1)\<lparr>tcpq_out := tcp_discard_all_segments (tcpq_out (fst s1))\<rparr>))"
      "data_sent (snd s') = data_sent (snd s1)" using 3 by (simp_all add: keeps)
    then have "safe s1 s'" by (intro safeI) (auto simp: view_def chunks_out_def tcp_discard_all_segments_def)
    then show ?thesis using safe_trans [OF keeps_safe [OF k]] by simp
  qed
qed

section \<open>Acknowledgements\<close>

lemma ack_leave_view: "ack_leave_mode n una t = Some t' \<Longrightarrow> view t' = view t"
  by (auto simp: ack_leave_mode_def bind_eq_Some_conv Let_def split: if_splits option.splits)

lemma ack_fresh_view [keeps]: "view (ack_fresh nw ts ats n t) = view t"
  by (simp add: ack_fresh_def tcp_rtt_def rto_set_def Let_def)

lemma congestion_view [keeps]: "view (tcp_congestion_control t) = view t"
  by (simp add: tcp_congestion_control_def Let_def)

lemma advance_una_good:
  assumes "tcp_ack_advance_una a t = (n, ts, t')"
  shows "good (t, lg) (t', lg)"
proof -
  obtain r q where q: "release_all_loop False a (pool (tcpq_out t)) (tcpq_out t) 0 0 = (r, ts, q)"
    "view t' = view (t\<lparr>tcpq_out := q\<rparr>)"
    using assms by (auto simp: tcp_ack_advance_una_def release_all_until_def Let_def split: prod.splits if_splits)
  have "safe (t, lg) (t', lg)"
    using q release_all_mem [OF q(1)] by (intro safeI) (auto simp: view_def chunks_out_def)
  then show ?thesis using q(2) by (simp add: good_def fin_sent_def view_def)
qed

lemma ack_start_good: "ack_start env f s = Some (una, n, ats, ts, s') \<Longrightarrow> good s s'"
proof -
  assume a: "ack_start env f s = Some (una, n, ats, ts, s')"
  obtain t0 ts0 where p: "parse_options f (fst s) = Some (t0, ts0)"
    using a by (cases "parse_options f (fst s)") (auto simp: ack_start_def)
  obtain r x t1 where v: "tcp_ack_advance_una (ACKN f) (t0\<lparr>recv_wnd := hdr_rwnd f\<rparr>) = (r, x, t1)" by (metis prod_cases3)
  obtain t2 where l: "ack_leave_mode n una (t1\<lparr>ack_timestamp := now env\<rparr>) = Some t2" "s' = (t2, snd s)"
    using a p v by (auto simp: ack_start_def Let_def)
  have "good s (t0\<lparr>recv_wnd := hdr_rwnd f\<rparr>, snd s)"
    by (rule keeps_good) (simp add: keeps_view_def kept_parse_options [OF p])
  also have "good (t0\<lparr>recv_wnd := hdr_rwnd f\<rparr>, snd s) (t1, snd s)" by (rule advance_una_good [OF v])
  also have "good (t1, snd s) s'" using ack_leave_view [OF l(1)] l(2) by (intro keeps_good) simp
  finally show ?thesis .
qed

lemma ack_duplicate_good: "ack_duplicate env s = Some s' \<Longrightarrow> good s s'"
proof -
  assume a: "ack_duplicate env s = Some s'"
  show ?thesis
  proof (cases "x_mode (fst s) = 3")
    case False
    then show ?thesis using a by (intro keeps_good) (auto simp: ack_duplicate_def enter_recover_def keeps_view_def Let_def split: if_splits)
  next
    case True
    obtain s1 where m: "(if in_flight (fst s) \<le> ucast (cwnd (fst s)) then
             Option.bind (recover_next (fst s)) (\<lambda>n.
               case n of
                 None \<Rightarrow> Some s
               | Some f \<Rightarrow>
                   map_option (upd (\<lambda>t. t\<lparr>snd_retry := seq f\<rparr>))
                     (tcp_retrans env (peek_segment (tcpq_out (fst s)) (snd_retry (fst s))) s))
           else Some s) = Some s1" and k: "keeps_view s1 s'"
      using a [unfolded ack_duplicate_def] True by (auto simp: bind_eq_Some_conv keeps_view_def Let_def simp del: upd_simps split: if_splits)
        (auto simp: upd_def)
    have "good s s1"
    proof (cases "s1 = s")
      case False
      then obtain s0 where f: "tcp_retrans env (peek_segment (tcpq_out (fst s)) (snd_retry (fst s))) s = Some s0" "keeps_view s0 s1"
        using m by (auto simp: bind_eq_Some_conv keeps_view_def split: if_splits option.splits)
      have "good s s0" by (rule retrans_good [OF f(1)]) (rule peek_mem)
      also note f(2)
      finally (good_keeps) show ?thesis .
    qed simp
    then show ?thesis using k by (rule good_keeps)
  qed
qed

lemma ack_count_good: "ack_count env f (una, n, ats, ts, s) = Some (m, s') \<Longrightarrow> good s s'"
proof -
  assume a: "ack_count env f (una, n, ats, ts, s) = Some (m, s')"
  let ?s1 = "upd (\<lambda>t. if n = 0 \<and> payload_len f = 0 \<and> in_flight t > 0 then t\<lparr>in_flight := in_flight t - 1\<rparr> else t) s"
  have k: "keeps_view s ?s1" by (simp add: keeps_view_def)
  have "good ?s1 s'"
    using a ack_duplicate_good [of env ?s1]
    by (auto simp: ack_count_def Let_def keeps_view_def keeps split: if_splits intro!: keeps_good)
  then show ?thesis by (rule good_trans [OF keeps_good [OF k]])
qed

lemma hold_make_view: "pico_hold_segment_make env t = Some (fo, t') \<Longrightarrow> view t' = view t"
  by (auto simp: pico_hold_segment_make_def Let_def split: option.splits if_splits prod.splits)

lemma ack_nagle_state: "ack_nagle k env t = Some t' \<Longrightarrow> state t' = state t \<and> nodelay t' = nodelay t"
proof (induction k env t rule: ack_nagle.induct)
  case (1 k env t)
  show ?case
  proof (cases "IS_TCP_HOLDQ_EMPTY t \<or> \<not> max_size (tcpq_out t) - size (tcpq_out t) \<ge> ucast (mss t)")
    case True
    then show ?thesis using "1.prems" by (subst (asm) ack_nagle.simps) simp
  next
    case False
    then obtain j where k: "k = Suc j" using "1.prems" by (subst (asm) ack_nagle.simps) (auto split: nat.splits)
    then obtain fo t1 where m: "pico_hold_segment_make env t = Some (fo, t1)"
      using False "1.prems" by (subst (asm) ack_nagle.simps) (auto simp: bind_eq_Some_conv)
    note v = hold_make_view [OF m]
    show ?thesis
    proof (cases fo)
      case None
      then show ?thesis using "1.prems" False k m v by (subst (asm) ack_nagle.simps) (simp add: view_def)
    next
      case (Some f)
      then have "ack_nagle j env (t1\<lparr>tcpq_out := snd (pico_enqueue_segment (mem_node env) (Some f) (tcpq_out t1))\<rparr>) = Some t'"
        using "1.prems" False k m by (subst (asm) ack_nagle.simps) simp
      from "1.IH" [OF False k m refl Some this] show ?thesis using v by (simp add: view_def)
    qed
  qed
qed

lemma ack_finish_good: "ack_finish env f (n, s) = Some s' \<Longrightarrow> good s s'"
proof -
  assume a: "ack_finish env f (n, s) = Some s'"
  define s1 where "s1 = (if pure_ack f \<and> ACKN f = snd_nxt (fst s) \<and> pico_seq_compare (SEQN f) (rcv_nxt (fst s)) < 0
      then tcp_send_ack (mem_ack env) (ucast (now env)) s else s)"
  define s2 where "s2 = upd tcp_congestion_control s1"
  define s3 where "s3 = (if n > 0 \<and> size (tcpq_out (fst s2)) < max_size (tcpq_out (fst s2)) then wakeup 2 s2 else s2)"
  have k: "keeps_view s s3" by (simp add: s3_def s2_def s1_def keeps_view_def keeps)
  obtain t4 s5 where t4: "(if nodelay (fst s3) then Some (fst s3) else ack_nagle (length (pool (tcpq_hold (fst s3))) + 1) env (fst s3)) = Some t4"
    and s5: "(if x_mode t4 = 0 \<and> ucast (cwnd t4) \<ge> in_flight t4 \<and> snd_nxt t4 > snd_last_out t4
       then map_option snd (pico_tcp_output env (int (unat (cwnd t4)) - sint (in_flight t4)) (t4, snd s3)) else Some (t4, snd s3)) = Some s5"
    and s': "s' = upd (\<lambda>t. t\<lparr>snd_old_ack := ACKN f\<rparr>) (add_retransmission_timer env 0 s5)"
    using a [unfolded ack_finish_def prod.case Let_def, folded s1_def, folded s2_def, folded s3_def]
    by (simp only: bind_eq_Some_conv option.inject) blast
  have "good s s3" by (rule keeps_good [OF k])
  also have "good s3 (t4, snd s3)"
    using t4 ack_nagle_state [of _ env "fst s3" t4]
    by (cases "nodelay (fst s3)") (auto simp: good_def fin_sent_def safe_def sender_ok_def)
  also have "good (t4, snd s3) s5" using s5 output_good [of env _ "(t4, snd s3)"] by (auto split: if_splits)
  also have "keeps_view s5 s'" by (simp add: s' keeps_view_def keeps)
  finally (good_keeps) show ?thesis .
qed

lemma tcp_ack_good: "tcp_ack env f s = Some (r, s') \<Longrightarrow> good s s'"
proof (cases "hdr_flags f AND PICO_TCP_ACK = 0")
  case False
  assume a: "tcp_ack env f s = Some (r, s')"
  obtain una n ats ts s1 m s2 where
    p: "ack_start env f s = Some (una, n, ats, ts, s1)" "ack_count env f (una, n, ats, ts, s1) = Some (m, s2)" "ack_finish env f (m, s2) = Some s'"
    using a False by (auto simp: tcp_ack_def bind_eq_Some_conv)
  show ?thesis using ack_start_good [OF p(1)] ack_count_good [OF p(2)] ack_finish_good [OF p(3)] good_trans by blast
qed (simp add: tcp_ack_def)

end
