(* ===== verification/PicoTcpTrans.thy ===== *)
theory PicoTcpTrans
  imports PicoTcpSender
begin

text \<open>
  The transitions of the TCP state machine: the states a segment can take a socket to, the segments that establish a
  connection, and that every segment keeps the sender's promise.
\<close>

section \<open>States and indices\<close>

text \<open>The row of the table is the upper octet of the state.\<close>

lemma upper_half: fixes st :: u16 shows "drop_bit 8 (st AND 0xFF00) = drop_bit 8 st"
proof -
  have m: "(0xFF00 :: u16) = push_bit 8 (mask 8)" by (simp add: mask_eq_exp_minus_1 push_bit_eq_mult)
  show ?thesis unfolding m by (rule bit_word_eqI) (auto simp: bit_simps dest: bit_imp_le_length)
qed

lemma upper_inj:
  fixes st c :: u16
  assumes "c AND 0xFF00 = c"
  shows "st AND 0xFF00 = c \<longleftrightarrow> unat (drop_bit 8 st) = unat (drop_bit 8 c)"
proof -
  have m: "(0xFF00 :: u16) = push_bit 8 (mask 8)" by (simp add: mask_eq_exp_minus_1 push_bit_eq_mult)
  have "x AND 0xFF00 = push_bit 8 (drop_bit 8 x)" for x :: u16
    unfolding m by (rule bit_word_eqI) (auto simp: bit_simps dest: bit_imp_le_length)
  then show ?thesis using assms upper_half word_unat_eq_iff by metis
qed

lemma state_index:
  "tcp_state t = 0x0200 \<longleftrightarrow> fsm_index t = 2" "tcp_state t = 0x0300 \<longleftrightarrow> fsm_index t = 3" "tcp_state t = 0x0500 \<longleftrightarrow> fsm_index t = 5"
  "tcp_state t = 0x0600 \<longleftrightarrow> fsm_index t = 6" "tcp_state t = 0x0a00 \<longleftrightarrow> fsm_index t = 10" "tcp_state t = 0x0b00 \<longleftrightarrow> fsm_index t = 11"
  unfolding tcp_state_def fsm_index_def by (subst upper_inj; simp)+

lemma state_above: "tcp_state t > 0x0400 \<longleftrightarrow> fsm_index t > 4"
proof -
  have m: "(0xFF00 :: u16) = push_bit 8 (mask 8)" by (simp add: mask_eq_exp_minus_1 push_bit_eq_mult)
  have "state t AND 0xFF00 = push_bit 8 (drop_bit 8 (state t))"
    unfolding m by (rule bit_word_eqI) (auto simp: bit_simps dest: bit_imp_le_length)
  then have u: "unat (tcp_state t) = (unat (state t) div 256) mod 65536 * 256 mod 65536"
    by (simp add: tcp_state_def push_bit_eq_mult unat_word_ariths unat_drop_bit_eq drop_bit_eq_div)
  define n where "n = unat (state t) div 256"
  have "n < 256" unfolding n_def using unsigned_less [of "state t"] by (simp add: less_mult_imp_div_less)
  then have "unat (tcp_state t) = 256 * n" unfolding u n_def [symmetric] by simp
  moreover have "fsm_index t = n" unfolding n_def fsm_index_def unat_drop_bit_eq by (simp add: drop_bit_eq_div)
  ultimately have "unat (tcp_state t) = 256 * fsm_index t" by simp
  then show ?thesis by (simp add: word_less_nat_alt)
qed

abbreviation ix :: "tcps \<Rightarrow> nat" where "ix s \<equiv> fsm_index (fst s)"

lemma index_set [simp]: "fsm_index (set_tcp_state st t) = unat (drop_bit 8 st)"
  by (simp add: fsm_index_def set_tcp_state_def)

lemma index_flags [simp]: "fsm_index (t\<lparr>state := state t' OR 0x0001\<rparr>) = fsm_index t'" "fsm_index (t\<lparr>state := state t' OR 0x0002\<rparr>) = fsm_index t'"
  "fsm_index (t\<lparr>state := state t' OR 0x0003\<rparr>) = fsm_index t'" "fsm_index (t\<lparr>state := 0x0020\<rparr>) = 0"
  by (simp_all add: fsm_index_def)

lemma view_index: "view t' = view t \<Longrightarrow> fsm_index t' = fsm_index t" by (simp add: view_def fsm_index_def)

lemma keeps_index: "keeps_view s s' \<Longrightarrow> ix s' = ix s" unfolding keeps_view_def by (blast intro: view_index)

lemma good_index: "good s s' \<Longrightarrow> ix s' = ix s \<or> ix s = 5 \<and> ix s' = 8 \<or> ix s = 6 \<and> ix s' = 7"
proof -
  assume g: "good s s'"
  have "tcp_state (fst s) = 0x0500 \<longleftrightarrow> ix s = 5" "tcp_state (fst s) = 0x0600 \<longleftrightarrow> ix s = 6" by (rule state_index)+
  then show ?thesis using g by (auto simp: good_def fin_sent_def fsm_index_def tcp_state_def)
qed

section \<open>Handlers\<close>

lemma set_state_safe: "safe s (upd (set_tcp_state st) s)"
  by (rule safe_view) (simp_all add: set_tcp_state_def)

lemma set_closed_safe: "safe s (upd set_closed s)" by (rule safe_view) (simp_all add: set_closed_def set_tcp_state_def Let_def)

lemma wakeup_safe [simp]: "safe s (wakeup ev s)" by (rule safe_view) simp_all

lemma socket_del_safe [simp]: "safe s (socket_del env s)" by (rule safe_view) (simp_all add: keeps)

lemma socket_del_ix [simp]: "ix (socket_del env s) = 0"
  using socket_del_data(3) [of env s] by (simp add: fsm_index_def)

lemma send_rst_trans:
  assumes "tcp_send_rst env f s = Some s'"
  shows "safe s s'" "ix s > 4 \<Longrightarrow> ix s' = ix s" "ix s \<le> 4 \<Longrightarrow> ix s' = 0"
proof -
  have "keeps_view s s'" if "ix s > 4"
    using assms that state_above by (auto simp: tcp_send_rst_def ST_SYN_RECV_def intro: do_send_rst_keeps)
  then show "ix s > 4 \<Longrightarrow> ix s' = ix s" by (rule keeps_index)
  obtain s2 where s2: "ix s \<le> 4 \<Longrightarrow> tcp_do_send_rst env (snd_nxt (fst s)) (upd (set_tcp_state ST_CLOSED) s) = Some s2"
    "ix s \<le> 4 \<Longrightarrow> s' = socket_del env (wakeup 0x10 (upd (\<lambda>t. t\<lparr>state := (state t AND 0xFF00) OR 0x0020\<rparr>) s2))"
    using assms state_above [of "fst s"] by (fastforce simp: tcp_send_rst_def ST_SYN_RECV_def set_tcp_state_def split: if_splits)
  then show "ix s \<le> 4 \<Longrightarrow> ix s' = 0" by simp
  show "safe s s'"
  proof (cases "ix s \<le> 4")
    case True
    let ?s3 = "upd (\<lambda>t. t\<lparr>state := (state t AND 0xFF00) OR 0x0020\<rparr>) s2"
    have "safe s (upd (set_tcp_state ST_CLOSED) s)" by (rule set_state_safe)
    also have "safe (upd (set_tcp_state ST_CLOSED) s) s2" by (rule keeps_safe [OF do_send_rst_keeps [OF s2(1) [OF True]]])
    also have "safe s2 ?s3" by (rule safe_view) simp_all
    also have "safe ?s3 (wakeup 0x10 ?s3)" by simp
    also have "safe (wakeup 0x10 ?s3) s'" unfolding s2(2) [OF True] by simp
    finally show ?thesis .
  qed (use \<open>ix s > 4 \<Longrightarrow> keeps_view s s'\<close> in \<open>auto intro: keeps_safe\<close>)
qed

lemma closed_del_safe: "safe s (socket_del env (wakeup ev (upd set_closed s)))"
  using safe_trans [OF set_closed_safe safe_trans [OF wakeup_safe socket_del_safe]] .

lemma force_closed_trans: "safe s (tcp_force_closed env s) \<and> ix (tcp_force_closed env s) = 0"
proof -
  have "fsm_index (set_closed (fst s)) \<noteq> 5"
    by (simp add: set_closed_def set_tcp_state_def ST_CLOSED_def fsm_index_def Let_def)
  then have "tcp_force_closed env s = socket_del env (wakeup 0x80 (upd set_closed s))"
    by (simp add: tcp_force_closed_def ST_ESTABLISHED_def state_index)
  then show ?thesis using closed_del_safe by simp
qed

lemma rst_trans: "safe s (tcp_rst env f s) \<and> (ix (tcp_rst env f s) = ix s \<or> ix (tcp_rst env f s) = 0)"
  using force_closed_trans by (auto simp: tcp_rst_def)

lemma finwaitack_trans:
  assumes "tcp_finwaitack env f s = Some s'"
  shows "safe s s'" "ix s = 8 \<Longrightarrow> ix s' \<in> {8, 9}"
proof -
  obtain r s1 where a: "tcp_ack env f s = Some (r, s1)" "s' = (if ACKN f = snd_nxt (fst s1) - 1 then upd (set_tcp_state ST_FIN_WAIT2) s1 else s1)"
    using assms by (auto simp: tcp_finwaitack_def)
  note g = tcp_ack_good [OF a(1)]
  show "safe s s'" using g a(2) safe_trans [OF _ set_state_safe] by (auto simp: good_def)
  show "ix s = 8 \<Longrightarrow> ix s' \<in> {8, 9}" using good_index [OF g] a(2) by (simp add: ST_FIN_WAIT2_def)
qed

lemma linger_safe: "safe s (tcp_linger env s) \<and> ix (tcp_linger env s) = ix s"
  using keeps_safe [of s "tcp_linger env s"] keeps_index [of s "tcp_linger env s"] by (simp add: keeps_view_def keeps)

lemma closing_ack_trans:
  assumes "tcp_closing_ack env f s = Some s'"
  shows "safe s s'" "ix s = 10 \<Longrightarrow> ix s' \<in> {10, 11}"
proof -
  obtain r s1 where a: "tcp_ack env f s = Some (r, s1)"
    "s' = (if ACKN f = snd_nxt (fst s1) then tcp_linger env (upd (set_tcp_state ST_TIME_WAIT) s1) else s1)"
    using assms by (auto simp: tcp_closing_ack_def)
  note g = tcp_ack_good [OF a(1)]
  show "safe s s'" using g a(2) safe_trans [OF _ safe_trans [OF set_state_safe conjunct1 [OF linger_safe]]] by (auto simp: good_def)
  show "ix s = 10 \<Longrightarrow> ix s' \<in> {10, 11}" using good_index [OF g] a(2) linger_safe by (simp add: ST_TIME_WAIT_def)
qed

lemma lastackwait_trans:
  assumes "tcp_lastackwait env f s = Some s'"
  shows "safe s s'" "s' = s \<or> state (fst s') = 0x0020"
proof -
  show "s' = s \<or> state (fst s') = 0x0020" using assms by (auto simp: tcp_lastackwait_def keeps)
  show "safe s s'" using assms by (auto simp: tcp_lastackwait_def intro: closed_del_safe)
qed

lemma attempt_closewait_trans:
  "safe s (tcp_attempt_closewait f s)"
  "ix (tcp_attempt_closewait f s) = ix s \<or> ix s = 5 \<and> ix (tcp_attempt_closewait f s) = 6"
proof -
  show "safe s (tcp_attempt_closewait f s)"
    by (rule safe_view) (simp_all add: tcp_attempt_closewait_def set_tcp_state_def Let_def)
  show "ix (tcp_attempt_closewait f s) = ix s \<or> ix s = 5 \<and> ix (tcp_attempt_closewait f s) = 6"
    by (simp add: tcp_attempt_closewait_def ST_ESTABLISHED_def state_index ST_CLOSE_WAIT_def set_tcp_state_def fsm_index_def Let_def)
qed

lemma safe_keeps: "safe s s1 \<Longrightarrow> keeps_view s1 s' \<Longrightarrow> safe s s' \<and> ix s' = ix s1"
  using safe_trans [OF _ keeps_safe] keeps_index by blast

lemma keeps_then_safe: "keeps_view s s1 \<Longrightarrow> safe s1 s' \<Longrightarrow> safe s s'" using safe_trans [OF keeps_safe] .

lemma linger_keeps: "keeps_view s (tcp_linger env s)" by (simp add: keeps_view_def keeps)

lemma closewait_trans:
  assumes "tcp_closewait env f s = Some s'"
  shows "safe s s'" "ix s' = ix s \<or> ix s = 5 \<and> ix s' \<in> {6, 8} \<or> ix s = 6 \<and> ix s' = 7"
proof -
  obtain s1 s2 where d: "(if payload_len f > 0 then data_in env f s else Some s) = Some s1"
    and a: "(if hdr_flags f AND PICO_TCP_ACK \<noteq> 0 then map_option snd (tcp_ack env f s1) else Some s1) = Some s2"
    and s': "s' = (if tcp_state (fst (tcp_attempt_closewait f s2)) = ST_CLOSE_WAIT \<or> tcp_state (fst (tcp_attempt_closewait f s2)) = ST_ESTABLISHED
      then send_ack_now env (tcp_attempt_closewait f s2) else tcp_attempt_closewait f s2)"
    using assms unfolding tcp_closewait_def Let_def by (simp only: bind_eq_Some_conv map_option_eq_Some) blast
  have k: "keeps_view s s1" using d data_in_keeps by (auto split: if_splits)
  have g: "good s1 s2" using a by (auto split: if_splits intro: tcp_ack_good)
  have k2: "keeps_view (tcp_attempt_closewait f s2) s'" using s' small_sends_keep(4) by simp
  show "safe s s'"
    using safe_trans [OF keeps_safe [OF k] safe_trans [OF _ safe_trans [OF attempt_closewait_trans(1) keeps_safe [OF k2]]]] g
    by (simp add: good_def)
  show "ix s' = ix s \<or> ix s = 5 \<and> ix s' \<in> {6, 8} \<or> ix s = 6 \<and> ix s' = 7"
    using keeps_index [OF k] good_index [OF g] attempt_closewait_trans(2) [of f s2] keeps_index [OF k2] by auto
qed

lemma rcvfin_trans: "safe s (tcp_rcvfin env s) \<and> ix (tcp_rcvfin env s) = 10"
proof -
  let ?s1 = "upd (\<lambda>t. (set_tcp_state ST_CLOSING t)\<lparr>rcv_processed := rcv_nxt t + 1, rcv_nxt := rcv_nxt t + 1\<rparr>) s"
  have "safe s ?s1" "ix ?s1 = 10"
    by (rule safe_view) (simp_all add: set_tcp_state_def ST_CLOSING_def fsm_index_def)
  then show ?thesis
    using safe_trans [OF _ keeps_safe [OF small_sends_keep(4)]] keeps_index [OF small_sends_keep(4)] by (simp add: tcp_rcvfin_def)
qed

lemma finack_trans: "safe s (tcp_finack env s) \<and> ix (tcp_finack env s) = 11"
proof -
  let ?s1 = "wakeup 0x10 (send_ack_now env (upd (\<lambda>t. t\<lparr>rcv_nxt := rcv_nxt t + 1\<rparr>) s))"
  let ?s2 = "upd (\<lambda>t. let t1 = set_tcp_state ST_TIME_WAIT t in t1\<lparr>state := state t1 OR 0x0002\<rparr>) ?s1"
  have "keeps_view s ?s1" by (simp add: keeps_view_def keeps)
  moreover have "safe ?s1 ?s2" "ix ?s2 = 11"
    by (rule safe_view) (simp_all add: set_tcp_state_def ST_TIME_WAIT_def fsm_index_def Let_def)
  ultimately have "safe s ?s2" "ix ?s2 = 11" by (blast intro: keeps_then_safe)+
  from safe_keeps [OF this(1) linger_keeps] this(2) show ?thesis unfolding tcp_finack_def by (simp only:)
qed

lemma finwaitfin_trans:
  assumes "tcp_finwaitfin env f s = Some s'"
  shows "safe s s' \<and> ix s' = 11"
proof -
  let ?s1 = "wakeup 8 (upd (\<lambda>t. (set_tcp_state ST_TIME_WAIT (t\<lparr>rcv_nxt := SEQN f + 1\<rparr>))\<lparr>state :=
                 state (set_tcp_state ST_TIME_WAIT t) OR 0x0002\<rparr>) s)"
  obtain s2 where d: "(if payload_len f > 0 then data_in env f ?s1 else Some ?s1) = Some s2" "s' = tcp_linger env (send_ack_now env s2)"
    using assms by (auto simp: tcp_finwaitfin_def Let_def)
  have "safe s ?s1" "ix ?s1 = 11"
    by (rule safe_view) (simp_all add: set_tcp_state_def ST_TIME_WAIT_def fsm_index_def)
  moreover have "keeps_view ?s1 s2" using d(1) data_in_keeps by (auto split: if_splits)
  then have "keeps_view ?s1 s'" unfolding d(2) by (intro keeps_view_trans [OF _ keeps_view_trans [OF small_sends_keep(4) linger_keeps]])
  ultimately show ?thesis using safe_keeps by (metis (no_types, lifting))
qed

lemma socket_close_trans:
  assumes "socket_close env s = Some s'"
  shows "safe s s'" "ix s > 4 \<Longrightarrow> ix s' = ix s \<or> ix s = 5 \<and> ix s' = 8 \<or> ix s = 6 \<and> ix s' = 7"
proof -
  let ?s1 = "upd (\<lambda>t. t\<lparr>state := state t OR 0x0003\<rparr>) s"
  have k: "safe s ?s1" "ix ?s1 = ix s" by (rule safe_view) simp_all
  consider "ix s = 2" "s' = socket_del env s" | "s' = s" | "good ?s1 s'"
    using assms check_closing_good [of env ?s1 s'] state_index(1) [of "fst s"]
    by (auto simp: socket_close_def ST_LISTEN_def pico_tcp_notify_closing_def split: if_splits)
  then have "safe s s' \<and> (ix s > 4 \<longrightarrow> ix s' = ix s \<or> ix s = 5 \<and> ix s' = 8 \<or> ix s = 6 \<and> ix s' = 7)"
  proof cases
    case 3
    then show ?thesis using safe_trans [OF k(1)] good_index [OF 3] k(2) by (auto simp: good_def)
  qed simp_all
  then show "safe s s'" "ix s > 4 \<Longrightarrow> ix s' = ix s \<or> ix s = 5 \<and> ix s' = 8 \<or> ix s = 6 \<and> ix s' = 7" by blast+
qed

text \<open>A FIN in \<open>SYN_RECV\<close> closes the socket after the move to \<open>CLOSE_WAIT\<close>.\<close>

abbreviation fin_received :: "bytes \<Rightarrow> tcps \<Rightarrow> tcps" where
  "fin_received f s \<equiv> upd (\<lambda>t. let t1 = set_tcp_state ST_CLOSE_WAIT (t\<lparr>rcv_nxt := SEQN f + 1\<rparr>) in t1\<lparr>state := state t1 OR 0x0001\<rparr>) s"

lemma fin_received_safe: "safe s (fin_received f s)"
  by (rule safe_view) (simp_all add: set_tcp_state_def ST_CLOSE_WAIT_def Let_def)

lemma fin_received_ix: "ix (fin_received f s) = 6"
  by (simp add: set_tcp_state_def ST_CLOSE_WAIT_def fsm_index_def Let_def)

lemma closeconn_trans:
  assumes "tcp_closeconn env f s = Some s'"
  shows "safe s s' \<and> (ix s = 4 \<longrightarrow> ix s' = 4 \<or> ix s' = 6 \<or> ix s' = 7)"
proof (cases "s' = s")
  case False
  then have c: "socket_close env (fin_received f s) = Some s'" using assms unfolding tcp_closeconn_def by (auto split: if_splits)
  have "safe s s'" by (rule safe_trans [OF fin_received_safe socket_close_trans(1) [OF c]])
  moreover have "ix s' = 6 \<or> ix s' = 7" using socket_close_trans(2) [OF c, unfolded fin_received_ix] by auto
  ultimately show ?thesis by blast
qed auto

lemma first_ack_trans:
  assumes "tcp_first_ack env f s = Some s'"
  shows "safe s s' \<and> (ix s = 4 \<longrightarrow> ix s' = 4 \<or> ix s' = 5 \<and> snd_nxt (fst s) = ACKN f)"
proof (cases "snd_nxt (fst s) = ACKN f")
  case True
  let ?s1 = "upd (\<lambda>t. t\<lparr>rcv_processed := rcv_nxt t\<rparr>) s"
  define signal where "signal = (\<lambda>s3 :: tcps. upd (\<lambda>t. t\<lparr>ev_pending := ev_pending t OR 2\<rparr>)
    (if has_parent (fst s3) then if has_wakeup (fst s3) then emit (WakeupParent 4) s3 else s3 else wakeup 4 s3))"
  have sig: "keeps_view x (signal x)" for x by (simp add: signal_def keeps_view_def)
  obtain r s2 where a: "tcp_ack env f ?s1 = Some (r, s2)" "s' = signal (upd (set_tcp_state ST_ESTABLISHED) s2)"
    using assms True by (cases "tcp_ack env f ?s1") (auto simp: tcp_first_ack_def signal_def Let_def simp del: upd_simps)
  have "safe s ?s1" by (rule safe_view) simp_all
  also have "safe ?s1 s2" using tcp_ack_good [OF a(1)] by (simp add: good_def)
  also have "safe s2 (upd (set_tcp_state ST_ESTABLISHED) s2)" by (rule set_state_safe)
  finally have "safe s (upd (set_tcp_state ST_ESTABLISHED) s2)" .
  from safe_keeps [OF this sig] have "safe s s' \<and> ix s' = ix (upd (set_tcp_state ST_ESTABLISHED) s2)" unfolding a(2) .
  then show ?thesis using True by (simp add: ST_ESTABLISHED_def)
next
  case False
  then have k: "keeps_view s s'" using assms by (auto simp: tcp_first_ack_def split: if_splits intro: nosync_rst_keeps)
  show ?thesis using keeps_safe [OF k] keeps_index [OF k] by simp
qed

lemma synack_trans:
  assumes "tcp_synack env f s = Some s'"
  shows "safe s s'" "ix s' = ix s \<or> ix s' = 5 \<and> ACKN f = 1 + snd_nxt (fst s)"
proof -
  let ?s1 = "upd (\<lambda>t. t\<lparr>retrans_tmr := 0, rcv_nxt := SEQN f, rcv_processed := SEQN f + 1\<rparr>) (emit (CancelTimer (retrans_tmr (fst s))) s)"
  consider r s2 where "tcp_ack env f ?s1 = Some (r, s2)" "ACKN f = 1 + snd_nxt (fst s)"
      "s' = tcp_send_ack (mem_ack env) (ucast (now env)) (upd (\<lambda>t. t\<lparr>ev_pending := ev_pending t OR 2, rcv_nxt := rcv_nxt t + 1, snd_nxt := snd_nxt t + 1\<rparr>)
                  (wakeup 4 (upd (set_tcp_state ST_ESTABLISHED) s2)))"
    | "keeps_view s s'"
    using assms by (cases "tcp_ack env f ?s1") (auto simp: tcp_synack_def Let_def split: if_splits intro: nosync_rst_keeps)
  then have "safe s s' \<and> (ix s' = ix s \<or> ix s' = 5 \<and> ACKN f = 1 + snd_nxt (fst s))"
  proof cases
    case (1 r s2)
    have k: "keeps_view (upd (set_tcp_state ST_ESTABLISHED) s2) s'" by (simp add: 1(3) keeps_view_def keeps)
    have "safe s ?s1" by (rule safe_view) simp_all
    also have "safe ?s1 s2" using tcp_ack_good [OF 1(1)] by (simp add: good_def)
    also have "safe s2 (upd (set_tcp_state ST_ESTABLISHED) s2)" by (rule set_state_safe)
    also have "safe (upd (set_tcp_state ST_ESTABLISHED) s2) s'" by (rule keeps_safe [OF k])
    finally show ?thesis using 1(2) keeps_index [OF k] by (simp add: ST_ESTABLISHED_def)
  next
    case 2
    then show ?thesis using keeps_safe [OF 2] keeps_index [OF 2] by simp
  qed
  then show "safe s s'" "ix s' = ix s \<or> ix s' = 5 \<and> ACKN f = 1 + snd_nxt (fst s)" by blast+
qed

section \<open>The table\<close>

text \<open>The rows a segment can take a socket to.\<close>

definition tcp_next :: "nat \<Rightarrow> nat list" where
  "tcp_next i = [[0], [1], [2], [3, 5, 0], [4, 5, 6, 7, 0], [5, 6, 8, 0], [6, 7, 0], [7, 0], [8, 9, 10, 11, 0], [9, 11, 0], [10, 11, 0], [11]] ! i"

text \<open>The rows a handler can leave a socket in, from the row it is called in.\<close>

fun handler_next :: "tcp_handler \<Rightarrow> nat \<Rightarrow> nat list" where
  "handler_next H_ack i = (if i = 5 then [5, 8] else if i = 6 then [6, 7] else [i])"
| "handler_next H_send_rst i = (if i > 4 then [i] else [0])"
| "handler_next H_lastackwait i = [i, 0]"
| "handler_next H_rst i = [i, 0]"
| "handler_next H_finwaitack i = (if i = 8 then [8, 9] else [0..<12])"
| "handler_next H_closing_ack i = (if i = 10 then [10, 11] else [0..<12])"
| "handler_next H_closewait i = (if i = 5 then [5, 6, 8] else if i = 6 then [6, 7] else [i])"
| "handler_next H_closeconn i = (if i = 4 then [4, 6, 7] else [0..<12])"
| "handler_next H_first_ack i = (if i = 4 then [4, 5] else [0..<12])"
| "handler_next H_synack i = [i, 5]"
| "handler_next H_synrecv_syn i = (if i = 4 then [4, 0] else [0..<12])"
| "handler_next H_rcvfin i = [10]"
| "handler_next H_finwaitfin i = [11]"
| "handler_next H_finack i = [11]"
| "handler_next h i = [i]"

text \<open>Handlers that rely on the row they are called in.\<close>

fun at_home :: "tcp_handler \<Rightarrow> nat \<Rightarrow> bool" where
  "at_home H_finwaitack i \<longleftrightarrow> i = 8"
| "at_home H_closing_ack i \<longleftrightarrow> i = 10"
| "at_home H_closeconn i \<longleftrightarrow> i = 4"
| "at_home H_first_ack i \<longleftrightarrow> i = 4"
| "at_home H_synrecv_syn i \<longleftrightarrow> i = 4"
| "at_home h i \<longleftrightarrow> True"

lemma send_synack_index: "tcp_send_synack env s = Some (r, s') \<Longrightarrow> ix s' = ix s"
proof (cases "mem_frame env")
  case True
  assume a: "tcp_send_synack env s = Some (r, s')"
  define s2 where "s2 = tcp_set_space (mem_ack env) (ucast (now env)) (upd (\<lambda>t. t\<lparr>rcv_processed := snd_nxt t, snd_last := snd_nxt t\<rparr>) s)"
  have i: "state (fst s2) = state (fst s)"
    using small_sends_view(2) [of "mem_ack env" "ucast (now env)" "upd (\<lambda>t. t\<lparr>rcv_processed := snd_nxt t, snd_last := snd_nxt t\<rparr>) s"]
    by (simp add: s2_def view_def)
  obtain opts t3 f x f1 s4 where o: "tcp_add_options (ucast (now env)) (fst s2) (PICO_TCP_SYN OR PICO_TCP_ACK)
      (tcp_options_size (fst s) (PICO_TCP_SYN OR PICO_TCP_ACK)) = Some (opts, t3)"
    "tcp_send env f opts (t3, snd s2) = (x, f1, s4)" "s' = s4"
    using a True by (auto simp: tcp_send_synack_def s2_def [symmetric] Let_def split: option.splits prod.splits)
  have "state t3 = state (fst s2)" using kept_add_options [OF o(1)] by (simp add: view_def)
  then show ?thesis using i o(3) send_state [OF o(2)] by (simp add: fsm_index_def)
qed (simp add: tcp_send_synack_def)

lemma synrecv_syn_index: "tcp_synrecv_syn env f s = Some s' \<Longrightarrow> ix s = 4 \<Longrightarrow> ix s' \<in> {4, 0}"
proof -
  assume a: "tcp_synrecv_syn env f s = Some s'" "ix s = 4"
  have "ix (upd (\<lambda>t. t\<lparr>snd_nxt := snd_nxt t - 1\<rparr>) s) = 4" using a(2) by (simp add: fsm_index_def)
  then show ?thesis using a send_rst_trans(3) [of env f s s']
    by (auto simp: tcp_synrecv_syn_def split: if_splits dest!: send_synack_index)
qed

lemma lastackwait_index: "tcp_lastackwait env f s = Some s' \<Longrightarrow> ix s' = ix s \<or> ix s' = 0"
  by (auto simp: tcp_lastackwait_def)

lemma handler_index:
  assumes "call_handler env clone f h s = Some (s', c)" "at_home h (ix s)"
  shows "ix s' \<in> set (handler_next h (ix s))"
proof (cases h)
  case H_syn
  then show ?thesis using assms by (auto simp: tcp_syn_def bind_eq_Some_conv Let_def fsm_index_def split: if_splits prod.splits)
next
  case H_halfopencon
  then have "s' = send_ack_now env s" using assms by (simp add: stay_def)
  then show ?thesis using H_halfopencon keeps_index [OF small_sends_keep(4)] by simp
next
  case H_ack
  then obtain r where "tcp_ack env f s = Some (r, s')" using assms by (auto simp: stay_def)
  from good_index [OF tcp_ack_good [OF this]] show ?thesis using H_ack by auto
next
  case H_lastackwait
  then show ?thesis using assms lastackwait_index [of env f s s'] by (auto simp: stay_def)
next
  case H_send_rst
  then show ?thesis using assms send_rst_trans(2,3) [of env f s s'] by (auto simp: stay_def)
next
  case H_rst
  then show ?thesis using assms rst_trans [of s env f] by (auto simp: stay_def)
qed (use assms in \<open>auto simp: stay_def rcvfin_trans finack_trans dest!: synrecv_syn_index keeps_index [OF data_in_keeps]
      synack_trans(2) first_ack_trans closing_ack_trans(2) closeconn_trans closewait_trans(2) finwaitack_trans(2) finwaitfin_trans\<close>)

lemma handler_safe:
  assumes "call_handler env clone f h s = Some (s', c)" "h \<noteq> H_synrecv_syn"
  shows "safe s s'"
proof (cases h)
  case H_syn
  then have "s' = s \<or> s' = upd (\<lambda>t. t\<lparr>number_of_pending_conn := number_of_pending_conn t + 1\<rparr>) s"
    using assms by (auto simp: tcp_syn_def bind_eq_Some_conv Let_def split: if_splits prod.splits)
  then show ?thesis by (auto intro: safe_view)
next
  case H_ack
  then obtain r where "tcp_ack env f s = Some (r, s')" using assms by (auto simp: stay_def)
  from tcp_ack_good [OF this] show ?thesis by (simp add: good_def)
qed (use assms in \<open>auto simp: stay_def rcvfin_trans finack_trans rst_trans intro: keeps_safe small_sends_keep(4) data_in_keeps
      closewait_trans(1) lastackwait_trans(1) send_rst_trans(1) synack_trans(1) first_ack_trans [THEN conjunct1]
      closing_ack_trans(1) closeconn_trans [THEN conjunct1] finwaitack_trans(1) finwaitfin_trans [THEN conjunct1]\<close>)

text \<open>A handler of the table that may or may not be there, or be called.\<close>

definition next_of :: "tcp_handler option \<Rightarrow> nat \<Rightarrow> nat list" where
  "next_of h i = (case h of None \<Rightarrow> [i] | Some c \<Rightarrow> i # handler_next c i)"

definition home_of :: "tcp_handler option \<Rightarrow> nat \<Rightarrow> bool" where
  "home_of h i \<longleftrightarrow> (case h of None \<Rightarrow> True | Some c \<Rightarrow> at_home c i)"

lemma act_cases:
  assumes "act env f b h s = Some s'"
  obtains "s' = s" | c e where "b" "h = Some c" "call_handler env False f c s = Some (s', e)"
  using assms by (auto simp: act_def tcp_action_call_def split: if_splits option.splits)

lemma act_index:
  assumes a: "act env f b h s = Some s'" and home: "home_of h (ix s)"
  shows "ix s' \<in> set (next_of h (ix s))"
  using a
proof (cases rule: act_cases)
  case (2 c e)
  then show ?thesis using handler_index [OF 2(3)] home by (simp add: next_of_def home_of_def)
qed (simp add: next_of_def split: option.split)

lemma act_safe: "act env f b h s = Some s' \<Longrightarrow> h \<noteq> Some H_synrecv_syn \<Longrightarrow> safe s s'"
  by (erule act_cases) (auto intro: handler_safe)

lemma act_False [simp]: "act env f False h s = Some s" by (simp add: act_def)

text \<open>What the table leads to, row by row.\<close>

lemma table_home: "\<forall>i \<in> set [0..<12]. let a = tcp_fsm ! i in
    home_of (a_ack a) i \<and> (\<forall>j \<in> set [0..<12]. home_of (a_data a) j) \<and>
    home_of (a_fin a) i \<and> home_of (a_finack a) i \<and> home_of (a_rst a) i \<and>
    home_of (a_syn a) i \<and> home_of (a_synack a) i"
  by code_simp

lemma table_next: "\<forall>i \<in> set [0..<12]. let a = tcp_fsm ! i in
    (\<forall>j \<in> set (next_of (a_ack a) i). j < 12 \<and> set (next_of (a_data a) j) \<subseteq> set (tcp_next i)) \<and>
    set (next_of (a_data a) i) \<subseteq> {i} \<and> set (next_of (a_fin a) i) \<subseteq> set (tcp_next i) \<and> set (next_of (a_finack a) i) \<subseteq> set (tcp_next i) \<and>
    set (next_of (a_rst a) i) \<subseteq> set (tcp_next i) \<and> set (next_of (a_syn a) i) \<subseteq> set (tcp_next i) \<and> set (next_of (a_synack a) i) \<subseteq> set (tcp_next i)"
  by code_simp

lemma table_established: "\<forall>i \<in> set [0..<12]. i \<noteq> 5 \<longrightarrow> (let a = tcp_fsm ! i in
    (\<forall>j \<in> set (next_of (a_ack a) i). 5 \<in> set (next_of (a_data a) j) \<longrightarrow> i = 4 \<and> j = 5) \<and>
    5 \<notin> set (next_of (a_fin a) i) \<and> 5 \<notin> set (next_of (a_finack a) i) \<and> 5 \<notin> set (next_of (a_rst a) i) \<and>
    5 \<notin> set (next_of (a_syn a) i) \<and> (5 \<in> set (next_of (a_synack a) i) \<longrightarrow> i = 3))"
  by code_simp

lemma flag_facts: "PICO_TCP_ACK \<noteq> PICO_TCP_FIN" "PA \<noteq> PICO_TCP_FIN" "PICO_TCP_ACK \<noteq> FA" "PA \<noteq> FA" "PICO_TCP_ACK \<noteq> FPA" "PA \<noteq> FPA"
  "PICO_TCP_FIN \<noteq> FA" "PICO_TCP_FIN \<noteq> FPA"
  "PICO_TCP_ACK AND PICO_TCP_RST = 0" "PA AND PICO_TCP_RST = 0" "PICO_TCP_FIN AND PICO_TCP_RST = 0" "FA AND PICO_TCP_RST = 0" "FPA AND PICO_TCP_RST = 0"
  by (simp_all add: PICO_TCP_ACK_def PICO_TCP_FIN_def PICO_TCP_PSH_def PICO_TCP_RST_def PA_def FA_def FPA_def)

text \<open>An acknowledgement is followed by the data; otherwise the data comes first and one more handler may follow.\<close>

lemma by_flags_cases:
  assumes "tcp_action_by_flags env a f flags s = Some s'"
  obtains (ack) s1 b where "flags = PICO_TCP_ACK \<or> flags = PA" "act env f True (a_ack a) s = Some s1" "act env f b (a_data a) s1 = Some s'"
    | (other) s1 b b' h where "act env f b (a_data a) s = Some s1" "act env f b' h s1 = Some s'" "h \<in> {None, a_fin a, a_finack a, a_rst a}"
proof -
  obtain s1 s2 s3 s4 b where c: "act env f (flags = PICO_TCP_ACK \<or> flags = PA) (a_ack a) s = Some s1" "act env f b (a_data a) s1 = Some s2"
    "act env f (flags = PICO_TCP_FIN) (a_fin a) s2 = Some s3" "act env f (flags = FA \<or> flags = FPA) (a_finack a) s3 = Some s4"
    "act env f (flags AND PICO_TCP_RST \<noteq> 0) (a_rst a) s4 = Some s'"
    using assms unfolding tcp_action_by_flags_def by (simp only: bind_eq_Some_conv) blast
  show ?thesis
  proof (cases "flags = PICO_TCP_ACK \<or> flags = PA")
    case True
    then have "s' = s2" using c(3-5) by (auto simp: flag_facts)
    then show ?thesis using ack True c(1,2) by simp
  next
    case no: False
    then have s1: "s1 = s" using c(1) by simp
    consider "flags = PICO_TCP_FIN" | "flags = FA \<or> flags = FPA" | "flags \<noteq> PICO_TCP_FIN \<and> flags \<noteq> FA \<and> flags \<noteq> FPA" by blast
    then show ?thesis
    proof cases
      case 1
      then have "s' = s3" using c(4,5) by (simp add: flag_facts)
      then show ?thesis using other [OF c(2) [unfolded s1]] c(3) by blast
    next
      case 2
      then have "s3 = s2" "s' = s4" using c(3,5) flag_facts by auto
      then show ?thesis using other [OF c(2) [unfolded s1]] c(4) by blast
    next
      case 3
      then have "s4 = s2" using c(3,4) by simp
      then show ?thesis using other [OF c(2) [unfolded s1]] c(5) by blast
    qed
  qed
qed

lemma table_late: "\<forall>i \<in> set [0..<12]. let a = tcp_fsm ! i in
    \<forall>h \<in> set [None, a_fin a, a_finack a, a_rst a]. \<forall>k \<in> set (next_of h i). k \<in> set (tcp_next i) \<and> (k = 5 \<longrightarrow> i = 5)"
  by code_simp

lemmas home_at = bspec [OF table_home, unfolded Let_def]
lemmas next_at = bspec [OF table_next, unfolded Let_def]
lemmas established_at = bspec [OF table_established, unfolded Let_def, THEN mp]

lemma by_flags_index:
  assumes run: "tcp_action_by_flags env (tcp_fsm ! ix s) f flags s = Some s'" and i: "ix s < 12"
  shows "ix s' \<in> set (tcp_next (ix s)) \<and>
    (ix s' = 5 \<longrightarrow> ix s = 5 \<or> ix s = 4 \<and> (flags = PICO_TCP_ACK \<or> flags = PA) \<and> ACKN f = snd_nxt (fst s))"
  using run
proof (cases rule: by_flags_cases)
  case (ack s1 b)
  have i': "ix s \<in> set [0..<12]" using i by simp
  note H = home_at [OF i'] and N = next_at [OF i'] and E = established_at [OF i']
  have j: "ix s1 \<in> set (next_of (a_ack (tcp_fsm ! ix s)) (ix s))" by (rule act_index [OF ack(2)]) (use H in blast)
  then have "ix s1 < 12" using N by blast
  then have j12: "ix s1 \<in> set [0..<12]" by simp
  have k: "ix s' \<in> set (next_of (a_data (tcp_fsm ! ix s)) (ix s1))" by (rule act_index [OF ack(3)]) (use H j12 in blast)
  have "ix s' \<in> set (tcp_next (ix s))" using N j k by blast
  moreover have "ix s = 4 \<and> ix s1 = 5" if "ix s' = 5" "ix s \<noteq> 5" using E [OF that(2)] j k that(1) by metis
  moreover have "ACKN f = snd_nxt (fst s)" if "ix s = 4" "ix s1 = 5"
  proof -
    have "a_ack (tcp_fsm ! 4) = Some H_first_ack" by (simp add: tcp_fsm_def row_def)
    then have "tcp_first_ack env f s = Some s1" using ack(2) that by (auto simp: act_def tcp_action_call_def stay_def)
    then show ?thesis using first_ack_trans [of env f s s1] that by simp
  qed
  ultimately show ?thesis using ack(1) by blast
next
  case (other s1 b b' h)
  have i': "ix s \<in> set [0..<12]" using i by simp
  note H = home_at [OF i'] and N = next_at [OF i'] and E = established_at [OF i']
  have "ix s1 \<in> set (next_of (a_data (tcp_fsm ! ix s)) (ix s))" by (rule act_index [OF other(1)]) (use H i' in blast)
  then have j: "ix s1 = ix s" using N by blast
  have "home_of h (ix s)" using other(3) H by (auto simp: home_of_def)
  then have k: "ix s' \<in> set (next_of h (ix s))" using act_index [OF other(2)] j by simp
  have "h \<in> set [None, a_fin (tcp_fsm ! ix s), a_finack (tcp_fsm ! ix s), a_rst (tcp_fsm ! ix s)]" using other(3) by simp
  from bspec [OF bspec [OF bspec [OF table_late i', unfolded Let_def] this] k] show ?thesis by blast
qed

section \<open>Segments\<close>

lemma signal_keeps: "keeps_view s (if ev_pending (fst s) \<noteq> 0 then wakeup (ev_pending (fst s)) s else s)"
  by (simp add: keeps_view_def)

lemma reply_keeps: "keeps_view s (pico_tcp_reply_rst env f s)" by (simp add: keeps_view_def keeps)

text \<open>The four ways of a segment.\<close>

lemma input_cases:
  assumes "pico_tcp_input env clone f s = Some (s', c)"
  obtains s1 where "ix s < 12" "keeps_view s1 s'" "c = None" "keeps_view s s1"
    | s1 where "ix s < 12" "keeps_view s1 s'" "hdr_flags f = PICO_TCP_SYN" "tcp_action_call env clone f (a_syn (tcp_fsm ! ix s)) s = Some (s1, c)"
    | s1 where "ix s < 12" "keeps_view s1 s'" "hdr_flags f = SA" "tcp_action_call env clone f (a_synack (tcp_fsm ! ix s)) s = Some (s1, c)"
    | s1 where "ix s < 12" "keeps_view s1 s'" "c = None" "tcp_action_by_flags env (tcp_fsm ! ix s) f (hdr_flags f) s = Some s1"
proof -
  have l: "length tcp_fsm = 12" by (simp add: tcp_fsm_def)
  then have i: "ix s < 12" using assms by (auto simp: pico_tcp_input_def split: if_splits)
  have ne: "(length f < 20 \<or> ix s \<ge> 12) = False" using assms l by (auto simp: pico_tcp_input_def split: if_splits)
  define D where "D = (if invalid_flags (fst s) (hdr_flags f) then Some (pico_tcp_reply_rst env f s, None)
              else if hdr_flags f = PICO_TCP_SYN then tcp_action_call env clone f (a_syn (tcp_fsm ! ix s)) s
              else if hdr_flags f = SA then tcp_action_call env clone f (a_synack (tcp_fsm ! ix s)) s
              else stay (tcp_action_by_flags env (tcp_fsm ! ix s) f (hdr_flags f) s))"
  have "map_option (\<lambda>(s1, c). (if ev_pending (fst s1) \<noteq> 0 then wakeup (ev_pending (fst s1)) s1 else s1, c)) D = Some (s', c)"
    using assms unfolding pico_tcp_input_def Let_def l ne if_False D_def [symmetric] .
  then obtain s1 where r: "D = Some (s1, c)" and s': "s' = (if ev_pending (fst s1) \<noteq> 0 then wakeup (ev_pending (fst s1)) s1 else s1)"
    by auto
  have k: "keeps_view s1 s'" unfolding s' by (rule signal_keeps)
  from r show ?thesis
    using that(1) [OF i k] that(2) [OF i k] that(3) [OF i k] that(4) [OF i k] reply_keeps [of s env f]
    unfolding D_def by (auto simp: stay_def split: if_splits)
qed

lemma call_index: "tcp_action_call env clone f h s = Some (s', c) \<Longrightarrow> home_of h (ix s) \<Longrightarrow> ix s' \<in> set (next_of h (ix s))"
  by (auto simp: tcp_action_call_def next_of_def home_of_def dest!: handler_index split: option.splits)

lemma input_transitions:
  assumes "pico_tcp_input env clone f s = Some (s', c)"
  shows "ix s < 12 \<and> ix s' \<in> set (tcp_next (ix s)) \<and>
    (ix s' = 5 \<longrightarrow> ix s = 5 \<or> ix s = 3 \<and> hdr_flags f = SA \<and> ACKN f = snd_nxt (fst s) + 1
       \<or> ix s = 4 \<and> (hdr_flags f = PICO_TCP_ACK \<or> hdr_flags f = PA) \<and> ACKN f = snd_nxt (fst s))"
  using assms
proof (cases rule: input_cases)
  case (1 s1)
  then have e: "ix s' = ix s" using keeps_index by metis
  have "ix s \<in> set [0..<12]" using 1(1) by simp
  from bspec [OF bspec [OF table_late this, unfolded Let_def], of None] have "ix s \<in> set (tcp_next (ix s))"
    by (simp add: next_of_def)
  then show ?thesis using 1(1) e by simp
next
  case (2 s1)
  have i': "ix s \<in> set [0..<12]" using 2(1) by simp
  have "ix s1 \<in> set (next_of (a_syn (tcp_fsm ! ix s)) (ix s))" by (rule call_index [OF 2(4)]) (use home_at [OF i'] in blast)
  then have "ix s1 \<in> set (tcp_next (ix s))" "ix s1 = 5 \<Longrightarrow> ix s = 5" using next_at [OF i'] established_at [OF i'] by (blast, metis)
  then show ?thesis using 2(1) keeps_index [OF 2(2)] by metis
next
  case (3 s1)
  have i': "ix s \<in> set [0..<12]" using 3(1) by simp
  have "ix s1 \<in> set (next_of (a_synack (tcp_fsm ! ix s)) (ix s))" by (rule call_index [OF 3(4)]) (use home_at [OF i'] in blast)
  then have n: "ix s1 \<in> set (tcp_next (ix s))" "ix s1 = 5 \<Longrightarrow> ix s \<noteq> 5 \<Longrightarrow> ix s = 3"
    using next_at [OF i'] established_at [OF i'] by (blast, metis)
  have "ACKN f = snd_nxt (fst s) + 1" if "ix s = 3" "ix s1 = 5"
  proof -
    have "a_synack (tcp_fsm ! 3) = Some H_synack" by (simp add: tcp_fsm_def row_def)
    then have "tcp_synack env f s = Some s1" using 3(4) that(1) by (auto simp: tcp_action_call_def stay_def)
    then show ?thesis using synack_trans(2) [of env f s s1] that by (simp add: add.commute)
  qed
  then show ?thesis using 3(1,3) n keeps_index [OF 3(2)] by metis
next
  case (4 s1)
  show ?thesis using by_flags_index [OF 4(4,1)] 4(1) keeps_index [OF 4(2)] by metis
qed

text \<open>Outside \<open>SYN_RECV\<close> every segment keeps the sender's promise.\<close>

lemma table_safe: "\<forall>i \<in> set [0..<12]. i \<noteq> 4 \<longrightarrow> (let a = tcp_fsm ! i in
    \<forall>h \<in> set [None, a_ack a, a_data a, a_fin a, a_finack a, a_rst a, a_synack a, a_syn a]. h \<noteq> Some H_synrecv_syn)"
  by code_simp

lemma call_safe: "tcp_action_call env clone f h s = Some (s', c) \<Longrightarrow> h \<noteq> Some H_synrecv_syn \<Longrightarrow> safe s s'"
  by (auto simp: tcp_action_call_def split: option.splits intro: handler_safe)

lemma input_safe:
  assumes "pico_tcp_input env clone f s = Some (s', c)" "ix s \<noteq> 4"
  shows "safe s s'"
proof -
  let ?a = "tcp_fsm ! ix s"
  have t: "h \<noteq> Some H_synrecv_syn" if "ix s < 12" "h \<in> {None, a_ack ?a, a_data ?a, a_fin ?a, a_finack ?a, a_rst ?a, a_synack ?a, a_syn ?a}" for h
  proof -
    have "ix s \<in> set [0..<12]" using that(1) by simp
    from bspec [OF mp [OF bspec [OF table_safe this] assms(2), unfolded Let_def], of h] show ?thesis using that(2) by simp
  qed
  from assms(1) show ?thesis
  proof (cases rule: input_cases)
    case (1 s1)
    then show ?thesis using safe_trans keeps_safe by metis
  next
    case (2 s1)
    show ?thesis by (rule safe_trans [OF call_safe [OF 2(4)] keeps_safe [OF 2(2)]]) (rule t [OF 2(1)], simp)
  next
    case (3 s1)
    show ?thesis by (rule safe_trans [OF call_safe [OF 3(4)] keeps_safe [OF 3(2)]]) (rule t [OF 3(1)], simp)
  next
    case (4 s1)
    from 4(4) have "safe s s1"
    proof (cases rule: by_flags_cases)
      case (ack s2 b)
      show ?thesis by (rule safe_trans [OF act_safe [OF ack(2)] act_safe [OF ack(3)]]) (rule t [OF 4(1)], simp)+
    next
      case (other s2 b b' h)
      have "h \<noteq> Some H_synrecv_syn" "a_data ?a \<noteq> Some H_synrecv_syn" using t [OF 4(1)] other(3) by blast+
      then show ?thesis using safe_trans [OF act_safe [OF other(1)] act_safe [OF other(2)]] by blast
    qed
    then show ?thesis by (rule safe_trans [OF _ keeps_safe [OF 4(2)]])
  qed
qed

end
