(* ===== verification/PicoTcpConn.thy ===== *)
theory PicoTcpConn
  imports PicoTcpTrans PicoTcpStream
begin

text \<open>
  Connections. What a connected socket sends is the stream its application pushed; what the other application reads is a
  prefix of it. A connection is established by the three segments of the handshake, with numbers that agree.
\<close>

section \<open>The sender\<close>

text \<open>The life of a connected socket: what the application pushes, segments, timers, and the application's other calls.\<close>

inductive sender_run :: "tcps \<Rightarrow> bytes \<Rightarrow> tcps \<Rightarrow> bool" for s0 where
  start: "sender_run s0 [] s0"
| push: "sender_run s0 D s \<Longrightarrow> pico_tcp_push env (xmit_frame env data (fst s)) (fst s) = Some (r, t) \<Longrightarrow>
    sender_run s0 (if r > 0 then D @ data else D) (t, snd s)"
| segment: "sender_run s0 D s \<Longrightarrow> pico_tcp_input env clone f s = Some (s', c) \<Longrightarrow> sender_run s0 D s'"
| out: "sender_run s0 D s \<Longrightarrow> pico_tcp_output env sc s = Some (r, s') \<Longrightarrow> sender_run s0 D s'"
| timer: "sender_run s0 D s \<Longrightarrow> tcp_retrans_timeout env val s = Some s' \<Longrightarrow> sender_run s0 D s'"
| keepalive: "sender_run s0 D s \<Longrightarrow> sender_run s0 D (pico_tcp_keepalive env s)"
| read: "sender_run s0 D s \<Longrightarrow> pico_tcp_read mem ms len s = Some (bs, s') \<Longrightarrow> sender_run s0 D s'"
| close: "sender_run s0 D s \<Longrightarrow> socket_close env s = Some s' \<Longrightarrow> sender_run s0 D s'"

inductive_cases sender_run_cases: "sender_run s0 D s"

lemma segment_refused: "pico_enqueue_segment m (Some f) q = (x, q') \<Longrightarrow> \<not> x > 0 \<Longrightarrow> q' = q"
proof -
  assume e: "pico_enqueue_segment m (Some f) q = (x, q')" "\<not> x > 0"
  have "uint (esize f) > 0" if "esize f \<noteq> 0" using that by (metis uint_0_iff uint_ge_0 order_le_less)
  then show ?thesis using e unfolding pico_enqueue_segment_def do_enqueue_segment_def by (auto split: if_splits)
qed

lemma push_ok:
  assumes "sender_ok D b s" "pico_tcp_push env (xmit_frame env data (fst s)) (fst s) = Some (r, t)"
  shows "sender_ok (if r > 0 then D @ data else D) b (t, snd s)"
proof -
  let ?f = "(xmit_frame env data (fst s))\<lparr>seq := snd_last (fst s) + 1\<rparr>"
  define t1 where "t1 = (if of_nat (plen ?f) > max_size (tcpq_out (fst s)) - size (tcpq_out (fst s))
                then (fst s)\<lparr>ev_pending := ev_pending (fst s) AND NOT 2\<rparr> else fst s)"
  have v: "view t1 = view (fst s)" "tcpq_out t1 = tcpq_out (fst s)" by (simp_all add: t1_def)
  then have n: "nodelay t1" "snd_last t1 = snd_last (fst s)" "state t1 = state (fst s)" using assms(1) by (simp_all add: view_def sender_ok_def)
  have f: "seq ?f = b + of_nat (length D)" "payload ?f = data" "plen ?f = length data"
    using assms(1) by (simp_all add: sender_ok_def xmit_frame_def plen_def)
  obtain x q where x: "pico_enqueue_segment (mem_node env) (Some ?f) (tcpq_out (fst s)) = (x, q)" by (metis surj_pair)
  have rt: "(r, t) = (if x > 0 then (int (plen ?f), t1\<lparr>tcpq_out := q, snd_last := snd_last t1 + of_nat (plen ?f)\<rparr>) else (0, t1\<lparr>tcpq_out := q\<rparr>))"
    using assms(2) n(1) x v(2)
    by (simp add: pico_tcp_push_def Let_def t1_def [symmetric] pico_tcp_push_nagle_enqueue_def push_to_def split: if_splits)
  have old: "chunk_ok (D @ E) b c" if "c \<in> set (chunks_out (fst s)) \<union> set (data_sent (snd s))" for c E
    using assms(1) that chunk_ok_append by (auto simp: sender_ok_def)
  have new: "chunk_ok (D @ data) b (b + of_nat (length D), data)" by (auto simp: chunk_ok.simps intro!: exI [of _ "length D"])
  have q: "chunk_ok (D @ data) b (seq g, payload g)" if "g \<in> set (pool q)" for g
    using that enqueue_mem [of g "mem_node env" ?f "tcpq_out (fst s)"] x new f old [of "(seq g, payload g)" data] by (auto simp: chunks_out_def)
  show "sender_ok (if r > 0 then D @ data else D) b (t, snd s)"
  proof (cases "x > 0")
    case True
    have r: "r = int (length data)" "t = t1\<lparr>tcpq_out := q, snd_last := snd_last t1 + of_nat (length data)\<rparr>" using rt True f(3) by auto
    have "sender_ok (D @ data) b (t, snd s)"
      using assms(1) r(2) n q old [of _ data] by (auto simp: sender_ok_def chunks_out_def)
    moreover have "(if r > 0 then D @ data else D) = D @ data" using r(1) by simp
    ultimately show ?thesis by (simp only:)
  next
    case False
    have r: "r = 0" "t = t1\<lparr>tcpq_out := q\<rparr>" using rt False by auto
    have "q = tcpq_out (fst s)" by (rule segment_refused [OF x False])
    then show ?thesis using assms(1) r n by (simp add: sender_ok_def chunks_out_def)
  qed
qed

lemma nagle_enqueue_state: "pico_tcp_push_nagle_enqueue env f t = (r, t') \<Longrightarrow> state t' = state t"
  by (auto simp: pico_tcp_push_nagle_enqueue_def split: if_splits prod.splits)

lemma nagle_hold_state: "pico_tcp_push_nagle_hold env f t = Some (r, t') \<Longrightarrow> state t' = state t"
proof -
  assume h: "pico_tcp_push_nagle_hold env f t = Some (r, t')"
  obtain ok q where e: "push_to (mem_node env) f (tcpq_hold t) = (ok, q)" by (metis surj_pair)
  define t1 where "t1 = t\<lparr>tcpq_hold := q, snd_last := snd_last t + of_nat (plen f)\<rparr>"
  have t1: "state t1 = state t" by (simp add: t1_def)
  consider "t' = t\<lparr>tcpq_hold := q\<rparr>" | "t' = t1" | fo t2 where "pico_hold_segment_make env t1 = Some (fo, t2)" "t' = t2 \<or> (\<exists>z. t' = t2\<lparr>tcpq_out := z\<rparr>)"
    using h e by (cases "pico_hold_segment_make env t1")
      (auto simp: pico_tcp_push_nagle_hold_def Let_def t1_def [symmetric] split: if_splits option.splits prod.splits)
  then show ?thesis
  proof cases
    case (3 fo t2)
    then show ?thesis using hold_make_view [OF 3(1)] t1 by (auto simp: view_def)
  qed (simp_all add: t1)
qed

lemma push_state: "pico_tcp_push env f t = Some (r, t') \<Longrightarrow> state t' = state t"
proof -
  assume p: "pico_tcp_push env f t = Some (r, t')"
  define f1 where "f1 = f\<lparr>seq := snd_last t + 1\<rparr>"
  define t1 where "t1 = (if of_nat (plen f1) > max_size (tcpq_out t) - size (tcpq_out t)
                then t\<lparr>ev_pending := ev_pending t AND NOT 2\<rparr> else t)"
  have "(if nodelay t1 then Some (pico_tcp_push_nagle_enqueue env f1 t1) else pico_tcp_push_nagle_on env f1 t1) = Some (r, t')"
    using p unfolding pico_tcp_push_def Let_def f1_def [symmetric] t1_def [symmetric] .
  then have "state t' = state t1"
    by (auto simp: pico_tcp_push_nagle_on_def split: if_splits intro: nagle_enqueue_state nagle_hold_state)
  then show ?thesis by (simp add: t1_def split: if_splits)
qed

text \<open>No operation of a connected socket brings it back to \<open>SYN_RECV\<close>.\<close>

lemma table_no_return: "\<forall>i \<in> set [0..<12]. i \<noteq> 4 \<longrightarrow> 4 \<notin> set (tcp_next i)" by code_simp

lemma good_not4: "good s s' \<Longrightarrow> ix s \<noteq> 4 \<Longrightarrow> ix s' \<noteq> 4" using good_index by fastforce

lemma keeps_ix4: "keeps_view s s' \<Longrightarrow> ix s \<noteq> 4 \<Longrightarrow> ix s' \<noteq> 4" using keeps_index by metis

lemma timeout_ix:
  assumes "tcp_retrans_timeout env val s = Some s'" "ix s \<noteq> 4"
  shows "ix s' \<noteq> 4"
proof -
  define s1 where "s1 = upd (\<lambda>t. t\<lparr>retrans_tmr_due := 0\<rparr>) (upd (\<lambda>t. t\<lparr>retrans_tmr := 0\<rparr>) s)"
  have k: "keeps_view s s1" by (simp add: s1_def keeps_view_def)
  consider "keeps_view s s'" | r where "tcp_retrans_timeout_check_queue env s1 = Some (r, s')" | "ix s' = 0"
    using assms k by (auto simp: tcp_retrans_timeout_def Let_def s1_def [symmetric] keeps keeps_view_def split: if_splits)
  then show ?thesis
  proof cases
    case (2 r)
    then have "good s1 s'" unfolding tcp_retrans_timeout_check_queue_def by (rule check_queue_good) (rule first_mem)
    then show ?thesis using good_not4 keeps_ix4 [OF k assms(2)] by blast
  qed (use keeps_ix4 assms(2) in auto)
qed

lemma read_safe:
  assumes "pico_tcp_read mem ms len s = Some (bs, s')"
  shows "safe s s'" "ix s \<noteq> 4 \<Longrightarrow> ix s' \<noteq> 4"
proof -
  obtain q p where s': "s' = tcp_read_finish mem ms ((fst s)\<lparr>tcpq_in := q, rcv_processed := p\<rparr>, snd s)"
    using assms by (auto simp: pico_tcp_read_def split: option.splits)
  obtain t lg where sp: "tcp_set_space mem ms ((fst s)\<lparr>tcpq_in := q, rcv_processed := p\<rparr>, snd s) = (t, lg)" by (metis surj_pair)
  have k: "view t = view (fst s)" "data_sent lg = data_sent (snd s)"
    using small_sends_keep(2) [of "((fst s)\<lparr>tcpq_in := q, rcv_processed := p\<rparr>, snd s)" mem ms] sp by (simp_all add: keeps_view_def)
  show "safe s s'" by (rule safe_view) (use k s' sp in \<open>auto simp: tcp_read_finish_def Let_def\<close>)
  show "ix s \<noteq> 4 \<Longrightarrow> ix s' \<noteq> 4"
    using k(1) view_index [OF k(1)] s' sp by (auto simp: tcp_read_finish_def fsm_index_def Let_def)
qed

lemma close_ix: "socket_close env s = Some s' \<Longrightarrow> ix s \<noteq> 4 \<Longrightarrow> ix s' \<noteq> 4"
proof -
  assume c: "socket_close env s = Some s'" "ix s \<noteq> 4"
  let ?s1 = "upd (\<lambda>t. t\<lparr>state := state t OR 0x0003\<rparr>) s"
  consider "ix s' = 0" | "s' = s" | "good ?s1 s'"
    using c check_closing_good [of env ?s1 s'] by (auto simp: socket_close_def pico_tcp_notify_closing_def split: if_splits)
  then show ?thesis
  proof cases
    case 3
    then show ?thesis using good_not4 [OF 3] c(2) by simp
  qed (use c(2) in auto)
qed

lemma sender_run_ok:
  assumes "sender_run s0 D s" "sender_ok [] b s0" "ix s0 \<noteq> 4"
  shows "ix s \<noteq> 4 \<and> (unwrapped D b \<longrightarrow> sender_ok D b s)"
  using assms(1)
proof induction
  case start
  then show ?case using assms(2,3) by simp
next
  case (push D s env data r t)
  have "unwrapped D b" if "unwrapped (if r > 0 then D @ data else D) b" using that by (auto simp: unwrapped_def split: if_splits)
  moreover have "fsm_index t = ix s" using push_state [OF push(2)] by (simp add: fsm_index_def)
  ultimately show ?case using push.IH push_ok [OF _ push(2)] by simp
next
  case (segment D s env clone f s' c)
  have "ix s < 12" "ix s' \<in> set (tcp_next (ix s))" using input_transitions [OF segment(2)] by blast+
  then have "ix s' \<noteq> 4" using table_no_return segment.IH by auto
  then show ?case using input_safe [OF segment(2)] segment.IH by (simp add: safe_def)
next
  case (out D s env sc r s')
  then show ?case using output_good [OF out(2)] good_not4 by (auto simp: good_def safe_def)
next
  case (timer D s env val s')
  then show ?case using timeout_safe [OF timer(2)] timeout_ix [OF timer(2)] by (simp add: safe_def)
next
  case (keepalive D s env)
  then show ?case using keeps_safe [OF keepalive_keeps] keeps_ix4 [OF keepalive_keeps] by (simp add: safe_def)
next
  case (read D s mem ms len bs s')
  then show ?case using read_safe [OF read(2)] by (simp add: safe_def)
next
  case (close D s env s')
  then show ?case using socket_close_trans(1) [OF close(2)] close_ix [OF close(2)] by (simp add: safe_def)
qed


definition env_example :: tcp_env where
  "env_example = \<lparr>mem_seg = True, mem_node = True, mem_sack = True, mem_ack = True, now = 1000, mem_frame = True, mem_copy = True,
     enq = True, timer_id = (\<lambda>n. of_nat n + 1), frame_overhead = 34, sock_mss = 1460, rand = 77\<rparr>"

text \<open>A socket just established, with a window of two bytes at the peer.\<close>

definition connected_example :: pico_socket_tcp where
  "connected_example = zero_tcp\<lparr>state := 0x050C, nodelay := True, tcpq_in := empty_queue 16384, tcpq_out := empty_queue 16384,
     snd_last := 100, snd_nxt := 101, rcv_nxt := 500, recv_wnd := 2, cwnd := 2, ssthresh := 8, rto := 70, mss := 1440\<rparr>"

definition pushed_example :: tcps where
  "pushed_example = (case pico_tcp_push env_example (xmit_frame env_example [1, 2, 3, 4, 5] connected_example) connected_example of
     Some (r, t) \<Rightarrow> (t, []) | None \<Rightarrow> (connected_example, []))"

lemmas example_defs = env_example_def connected_example_def zero_tcp_def empty_queue_def

lemma push_example: "pico_tcp_push env_example (xmit_frame env_example [1, 2, 3, 4, 5] connected_example) connected_example =
    Some (5, connected_example\<lparr>tcpq_out := \<lparr>pool = [\<lparr>seq = 101, payload = [1, 2, 3, 4, 5], esize = 63, tstamp = 0, sacked = False,
      hflags = 0, ts_saved = False\<rparr>], max_size = 16384, size = 63, frames = 1\<rparr>, snd_last := 105\<rparr>)"
  by (simp add: example_defs pico_tcp_push_def xmit_frame_def pico_tcp_overhead_def tcp_options_size_def plen_def
      pico_tcp_push_nagle_enqueue_def push_to_def pico_enqueue_segment_def do_enqueue_segment_def tfind_def tinsert_def)

lemma pushed_example_run: "sender_run (connected_example, []) [1, 2, 3, 4, 5] pushed_example"
proof -
  have "sender_run (connected_example, []) (if 5 > (0 :: int) then [] @ [1, 2, 3, 4, 5] else []) (fst pushed_example, snd (connected_example, []))"
    by (rule sender_run.push [OF sender_run.start, where env = env_example]) (simp add: pushed_example_def push_example)
  then show ?thesis by (simp add: pushed_example_def push_example)
qed

lemma output_example: "\<exists>r s. pico_tcp_output env_example 1 pushed_example = Some (r, s) \<and> data_sent (snd s) = [(101, [1, 2])]"
proof -
  have three: "nat 1 + 2 = Suc (Suc (Suc 0))" by simp
  show ?thesis unfolding pushed_example_def push_example pico_tcp_output_def three option.case prod.case
    by (simp add: example_defs first_segment_def peek_segment_def put_segment_def pico_seq_compare_def peer_wnd_def
        add_retransmission_timer_def timer_add_def tcp_split_segment_def pico_tcp_overhead_def tcp_options_size_def plen_def
        pico_discard_segment_def tfind_def tdelete_def pico_enqueue_segment_def do_enqueue_segment_def tinsert_def
        tcp_send_def tcp_send_add_tcpflags_def tcp_send_try_enqueue_def sent_frame_def segment_compare_def
        PICO_TCP_ACK_def PICO_TCP_SYN_def PICO_TCP_PSH_def)
qed


section \<open>From one application to the other\<close>

text \<open>
  A receiver that gets segments carrying chunks of a log, each at a position of \<open>T\<close>, in any order, again or never, and whose
  application reads.
\<close>

inductive delivered :: "u32 \<Rightarrow> chunk list \<Rightarrow> piece set \<Rightarrow> tcps \<Rightarrow> bytes \<Rightarrow> bool" for b cs T where
  start: "pool (tcpq_in t) = [] \<Longrightarrow> rcv_nxt t = b \<Longrightarrow> rcv_processed t = b \<Longrightarrow> delivered b cs T (t, lg) []"
| arrive: "delivered b cs T s got \<Longrightarrow> (q, p) \<in> set cs \<Longrightarrow> q = b + of_nat i \<Longrightarrow> i < 2 ^ 32 \<Longrightarrow> (i, length p) \<in> T \<Longrightarrow>
    carries f q p \<Longrightarrow> i + length p \<le> length got + 2 ^ 30 \<Longrightarrow> length got < i + 2 ^ 30 \<Longrightarrow>
    tcp_data_in m fuel ms f s = Some (r, s') \<Longrightarrow> delivered b cs T s' got"
| read: "delivered b cs T s got \<Longrightarrow> len < 2 ^ 31 \<Longrightarrow> pico_tcp_read mem ms len s = Some (bs, s') \<Longrightarrow> delivered b cs T s' (got @ bs)"

lemma position_unique:
  fixes b :: u32
  assumes "b + of_nat i = b + of_nat j" "i < 2 ^ 32" "j < 2 ^ 32"
  shows "i = j"
proof -
  have "(of_nat i :: u32) = of_nat j" using assms(1) by simp
  then have "unat (of_nat i :: u32) = unat (of_nat j :: u32)" by simp
  then show ?thesis using assms(2,3) by (simp add: unat_of_nat)
qed

lemma delivered_rx:
  assumes ok: "\<And>c. c \<in> set cs \<Longrightarrow> chunk_ok D b c" and T: "pieces_ok T" and D: "length D < 2 ^ 32"
  shows "delivered b cs T s got \<Longrightarrow> rx b (\<lambda>k. if k < length D then D ! k else x) T s got"
proof (induction rule: delivered.induct)
  case (arrive s got q p i f m fuel ms r s')
  have p: "p \<noteq> []" using pieces_pos [OF T arrive.hyps(5)] by auto
  then obtain j where j: "q = b + of_nat j" "j + length p \<le> length D" "p = take (length p) (drop j D)"
    using ok [OF arrive.hyps(2)] by (auto simp: chunk_ok.simps)
  have "j = i" using position_unique [of b j i] j(1,2) arrive.hyps(3,4) D by simp
  have "p = map (\<lambda>k. if k < length D then D ! k else x) [i..<i + length p]"
  proof (rule nth_equalityI)
    fix k assume k: "k < length p"
    have "p ! k = take (length p) (drop j D) ! k" using j(3) by simp
    also have "\<dots> = D ! (j + k)" using k j(2) by simp
    finally show "p ! k = map (\<lambda>k. if k < length D then D ! k else x) [i..<i + length p] ! k" using k j(2) \<open>j = i\<close> by simp
  qed simp
  then have "carries f (b + of_nat i) (map (\<lambda>k. if k < length D then D ! k else x) [i..<i + length p])"
    using arrive.hyps(3,6) by simp
  from rx.arrive [OF arrive.IH arrive.hyps(5) this arrive.hyps(7,8,9)] show ?case .
qed (auto intro: rx.start rx.read)


definition receiver_example :: pico_socket_tcp where
  "receiver_example = connected_example\<lparr>rcv_nxt := 101, rcv_processed := 101\<rparr>"

lemma receive_example: "\<exists>r s s'. tcp_data_in (tcp_mem.truncate env_example) 1 0 (plain_segment 101 [1, 2]) (receiver_example, []) = Some (r, s) \<and>
    pico_tcp_read True 0 10 s = Some ([1, 2], s')"
proof -
  let ?f = "plain_segment 101 [1, 2]" and ?m = "tcp_mem.truncate env_example"
  let ?q = "\<lparr>pool = [\<lparr>seq = 101, payload = [1, 2], esize = 2, tstamp = 0, sacked = False, hflags = 0, ts_saved = False\<rparr>],
      max_size = 16384, size = 2, frames = 1\<rparr>"
  have h: "hdr_len ?f = 20" "SEQN ?f = 101" "drop 20 ?f = [1, 2]" "\<not> length ?f < 20" "20 \<le> length ?f"
    using plain_segment_carries [of 101 "[1, 2]"] by (auto simp: carries_def)
  have p: "tcp_parse_options 1 [1, 2] (hdr_flags ?f) (Some 0) receiver_example = Parsed (receiver_example, 0)"
    by (simp add: tcp_parse_options_def opt_loop.simps)
  obtain r t where st: "store_segment ?m 101 [1, 2] receiver_example = (r, t)" by (metis surj_pair)
  then have t: "rx_view t = (?q, 103, 101)"
    by (auto simp: store_segment_def tcp_data_in_expected_def segment_from_frame_def receiver_example_def example_defs tcp_mem.defs
        pico_enqueue_segment_def do_enqueue_segment_def tfind_def tinsert_def peek_segment_def pico_seq_compare_def rx_view_def plen_def)
  obtain s where d: "tcp_data_in ?m 1 0 ?f (receiver_example, []) = Some (r, s)" "s = tcp_data_in_send_ack ?m 0 (hdr_flags ?f) (t, [])"
    using h p st by (simp add: tcp_data_in_def)
  have "rx_view (fst s) = rx_view t" unfolding d(2) tcp_data_in_send_ack_def tcp_send_ack_def using send_ack_view by simp
  then have v: "tcpq_in (fst s) = ?q" "rcv_processed (fst s) = 101" using t by (simp_all add: rx_view_def)
  have "read_loop 10 ?q 101 [] = Some ([1, 2], ?q\<lparr>pool := [], size := 0, frames := 0\<rparr>, 103)"
    by (simp add: read_loop.simps release_until_def release_loop.simps first_segment_def next_segment_def peek_segment_def
        pico_seq_compare_def plen_def tcp_read_in_frame_len_def tcp_read_check_segment_done_def pico_discard_segment_def
        tfind_def tdelete_def segment_compare_def)
  then show ?thesis using d(1) v by (simp add: pico_tcp_read_def)
qed


section \<open>The state machine\<close>

text \<open>C4: A segment can only take a socket along an edge of the state diagram, whatever it contains: no handler chain
  leaves the table of twelve states or skips one. A connection becomes established only from \<open>SYN_SENT\<close> by a SYN with an
  acknowledgement of the SYN sent, or from \<open>SYN_RECV\<close> by an acknowledgement of the number the socket expects.
\<close>

theorem pico_tcp_input_transitions:
  assumes "pico_tcp_input env clone f s = Some (s', c)"
  shows "fsm_index (fst s) < 12 \<and> fsm_index (fst s') \<in> set (tcp_next (fsm_index (fst s))) \<and>
    (fsm_index (fst s') = 5 \<longrightarrow> fsm_index (fst s) = 5
       \<or> fsm_index (fst s) = 3 \<and> hdr_flags f = SA \<and> ACKN f = snd_nxt (fst s) + 1
       \<or> fsm_index (fst s) = 4 \<and> (hdr_flags f = PICO_TCP_ACK \<or> hdr_flags f = PA) \<and> ACKN f = snd_nxt (fst s))"
  by (rule input_transitions [OF assms])

definition rst_segment :: bytes where "rst_segment = [0, 0, 0, 0, 0, 0, 0, 0, 0, 0, 0, 0, 0x50, 4, 0, 0, 0, 0, 0, 0]"

lemma reset_example: "\<exists>s. pico_tcp_input env_example True rst_segment (connected_example, []) = Some (s, None) \<and> fsm_index (fst s) = 0"
proof -
  let ?s = "(connected_example, [])"
  have a: "a_rst (tcp_fsm ! 5) = Some H_rst" "length tcp_fsm = 12" by (simp_all add: tcp_fsm_def row_def)
  have i: "fsm_index connected_example = 5" by (simp add: connected_example_def fsm_index_def)
  have f: "length rst_segment = 20" "hdr_flags rst_segment = 4" "payload_len rst_segment = 0"
    by (simp_all add: rst_segment_def hdr_flags_def hdr_len_def payload_len_def nth_append)
  have sq: "SEQN rst_segment = 0" "hdr_rwnd rst_segment = 0" by code_simp+
  have v: "invalid_flags connected_example 4 = False"
    by (simp add: invalid_flags_def i valid_flags_def PICO_TCP_RST_def)
  have n: "(4 :: u8) \<noteq> PICO_TCP_SYN" "(4 :: u8) \<noteq> SA" "(4 :: u8) \<noteq> PICO_TCP_ACK" "(4 :: u8) \<noteq> PA" "4 AND PICO_TCP_PSH = 0"
    "(4 :: u8) \<noteq> PICO_TCP_FIN" "(4 :: u8) \<noteq> FA" "(4 :: u8) \<noteq> FPA" "4 AND PICO_TCP_RST \<noteq> 0"
    by (simp_all add: PICO_TCP_SYN_def SA_def PICO_TCP_ACK_def PA_def PICO_TCP_PSH_def PICO_TCP_FIN_def FA_def FPA_def PICO_TCP_RST_def)
  have "tcp_action_by_flags env_example (tcp_fsm ! 5) rst_segment 4 ?s = Some (tcp_rst env_example rst_segment ?s)"
    using n f(3) by (simp add: tcp_action_by_flags_def) (simp add: act_def tcp_action_call_def a stay_def)
  moreover have "tcp_rst env_example rst_segment ?s = tcp_force_closed env_example ?s"
    by (simp add: tcp_rst_def connected_example_def tcp_state_def ST_SYN_SENT_def zero_tcp_def sq)
  ultimately have "pico_tcp_input env_example True rst_segment ?s =
      (let s1 = tcp_force_closed env_example ?s in Some (if ev_pending (fst s1) \<noteq> 0 then wakeup (ev_pending (fst s1)) s1 else s1, None))"
    using n(1,2) by (simp add: pico_tcp_input_def i f v a stay_def Let_def)
  then show ?thesis using force_closed_trans [of ?s env_example] by (simp add: Let_def)
qed

theorem pico_tcp_input_transitions_witness:
  "\<exists>s. pico_tcp_input env_example True rst_segment (connected_example, []) = Some (s, None) \<and> fsm_index (fst s) = 0 \<and>
     fsm_index (fst s) \<in> set (tcp_next 5)"
proof -
  obtain s where s: "pico_tcp_input env_example True rst_segment (connected_example, []) = Some (s, None)" "fsm_index (fst s) = 0"
    using reset_example by blast
  have "fsm_index connected_example = 5" by (simp add: connected_example_def fsm_index_def)
  then show ?thesis using pico_tcp_input_transitions [OF s(1)] s by simp
qed

end
