(* ===== verification/PicoTcpHandshake.thy ===== *)
theory PicoTcpHandshake
  imports PicoTcpConn
begin

text \<open>
  The three segments that establish a connection, between a socket that connects and one that listens: both end in
  \<open>ESTABLISHED\<close>, and each expects the number the other will use next.
\<close>

section \<open>Numbers and acknowledgements\<close>

definition nums :: "pico_socket_tcp \<Rightarrow> u32 \<times> u32" where "nums t = (snd_nxt t, rcv_nxt t)"

text \<open>Operations that leave the numbers and the view alone and send nothing but acknowledgements of the number expected.\<close>

definition ack_event :: "pico_socket_tcp \<Rightarrow> tcp_event \<Rightarrow> bool" where
  "ack_event t e \<longleftrightarrow> (\<exists>w opts. e = Sent PICO_TCP_ACK (snd_nxt t) (rcv_nxt t) w opts)"

definition acking :: "tcps \<Rightarrow> tcps \<Rightarrow> bool" where
  "acking s s' \<longleftrightarrow> view (fst s') = view (fst s) \<and> nums (fst s') = nums (fst s) \<and>
     (\<exists>L. snd s' = snd s @ L \<and> (\<forall>e \<in> set L. ack_event (fst s) e))"

definition quiet :: "tcps \<Rightarrow> tcps \<Rightarrow> bool" where
  "quiet s s' \<longleftrightarrow> view (fst s') = view (fst s) \<and> nums (fst s') = nums (fst s) \<and>
     (\<exists>L. snd s' = snd s @ L \<and> (\<forall>e \<in> set L. \<nexists>fl q a w opts. e = Sent fl q a w opts))"

lemma ack_event_nums: "nums t' = nums t \<Longrightarrow> ack_event t' = ack_event t" by (simp add: fun_eq_iff ack_event_def nums_def)

lemma acking_refl [simp, intro]: "acking s s" by (simp add: acking_def)

lemma acking_trans [trans]: "acking s s' \<Longrightarrow> acking s' s'' \<Longrightarrow> acking s s''"
  unfolding acking_def using ack_event_nums [of "fst s'" "fst s"] by fastforce

lemma parse_one_nums: "parse_one opt flags k len (t, ts, i) = Parsed (t', ts', i') \<Longrightarrow> nums t' = nums t"
proof -
  have sack: "nums (tcp_process_sack a b t) = nums t" for a b t
    by (simp add: tcp_process_sack_def nums_def Let_def split: prod.split)
  have blocks: "sack_blocks opt n t = Parsed t' \<Longrightarrow> nums t' = nums t" for opt n t t'
  proof (induction n arbitrary: opt t)
    case (Suc n)
    then show ?case using sack by (auto split: if_splits)
  qed simp
  show "parse_one opt flags k len (t, ts, i) = Parsed (t', ts', i') \<Longrightarrow> nums t' = nums t"
    unfolding parse_one_def
    by (auto simp: tcp_parse_option_ws_def tcp_parse_option_sack_ok_def tcp_parse_option_mss_def tcp_parse_option_timestamp_def
        expect_def tcp_rcv_sack_def nums_def Let_def split: if_splits parse.splits dest: blocks [unfolded nums_def])
qed

lemma parse_options_nums: "parse_options f t = Some (t', ts) \<Longrightarrow> nums t' = nums t"
  using opt_loop_keeps [of nums, OF parse_one_nums] by (auto simp: parse_options_def tcp_parse_options_def split: parse.splits)

lemma add_options_nums: "tcp_add_options nw t flags k = Some (opts, t') \<Longrightarrow> nums t' = nums t"
  by (auto simp: tcp_add_options_def tcp_add_sack_option_def nums_def Let_def split: if_splits prod.splits)

lemma set_space_acking: "(\<And>s. acking s (send s)) \<Longrightarrow> acking s (set_space_with send s)"
proof -
  assume send: "\<And>s. acking s (send s)"
  obtain t lg where s: "s = (t, lg)" by (cases s)
  obtain sp sh where w: "window_shift (tcp_space t) 0 = (sp, sh)" by (metis surj_pair)
  obtain u t1 where u: "tcp_set_space_check_winupdate sp sh t = (u, t1)" by (metis surj_pair)
  have t1: "view t1 = view t" "nums t1 = nums t"
    using u by (auto simp: tcp_set_space_check_winupdate_def nums_def Let_def split: if_splits)
  have "acking s (t1, lg)" using t1 by (simp add: s acking_def)
  then show ?thesis using acking_trans [OF _ send] s w u by (simp add: set_space_with_def)
qed

lemma send_empty_acking:
  assumes "\<And>s. acking s (send s)"
  shows "acking s (send_empty_with send mem nw PICO_TCP_ACK False s)"
proof (cases mem)
  case True
  obtain t lg where s': "set_space_with send s = (t, lg)" by (metis surj_pair)
  then have a: "acking s (t, lg)" using set_space_acking [of send s, OF assms] by simp
  show ?thesis
  proof (cases "tcp_add_options nw t PICO_TCP_ACK (tcp_options_size (fst s) PICO_TCP_ACK)")
    case None
    then show ?thesis using a s' True by (simp add: send_empty_with_def)
  next
    case (Some p)
    obtain opts t1 where p: "p = (opts, t1)" by (cases p)
    have k: "view t1 = view t" "nums t1 = nums t" using kept_add_options add_options_nums Some p by auto
    have "acking (t, lg) (t1\<lparr>rcv_ackd := rcv_nxt t1\<rparr>, lg @ [Sent PICO_TCP_ACK (snd_nxt t1) (rcv_nxt t1) (wnd t1) opts])"
      using k by (simp add: acking_def ack_event_def nums_def)
    then show ?thesis using acking_trans [OF a] s' True Some p
      by (simp add: send_empty_with_def PICO_TCP_ACK_def)
  qed
qed (simp add: send_empty_with_def)

lemma send_ack_acking: "acking s (send_ack d mem nw s)"
proof (induction d arbitrary: s)
  case (Suc d)
  then show ?case by (simp add: send_empty_acking)
qed simp

lemma acks: "acking s (tcp_send_ack mem nw s)" "acking s (tcp_set_space mem nw s)"
  unfolding tcp_send_ack_def tcp_set_space_def by (rule send_ack_acking, rule set_space_acking, rule send_ack_acking)

section \<open>A socket with nothing to send\<close>

definition idle :: "pico_socket_tcp \<Rightarrow> bool" where
  "idle t \<longleftrightarrow> pool (tcpq_out t) = [] \<and> nodelay t \<and> state t AND 0x0001 = 0"

lemma idle_view: "view t' = view t \<Longrightarrow> idle t' = idle t"
  by (auto simp: idle_def view_def chunks_out_def)

lemma quiet_refl [simp, intro]: "quiet s s" by (simp add: quiet_def)

lemma quiet_trans [trans]: "quiet s s' \<Longrightarrow> quiet s' s'' \<Longrightarrow> quiet s s''"
  unfolding quiet_def by fastforce

lemma quiet_upd: "view t' = view t \<Longrightarrow> nums t' = nums t \<Longrightarrow> quiet (t, lg) (t', lg)" by (simp add: quiet_def)

lemma timer_quiet: "quiet s (add_retransmission_timer env n s)"
  by (auto simp: quiet_def add_retransmission_timer_def timer_add_def nums_def Let_def)

lemma wakeup_quiet: "quiet s (wakeup ev s)" by (auto simp: quiet_def wakeup_def)

lemma output_idle:
  assumes "idle (fst s)" "pico_tcp_output env sc s = Some (r, s')"
  shows "s' = s"
proof -
  have "peek_segment (tcpq_out (fst s)) (snd_nxt (fst s)) = None" using assms(1) by (simp add: idle_def peek_segment_def)
  moreover obtain k where "nat sc + 2 = Suc k" by (metis add_2_eq_Suc')
  ultimately show ?thesis using assms by (auto simp: pico_tcp_output_def idle_def split: if_splits)
qed

lemma ack_idle:
  assumes a: "tcp_ack env f s = Some (r, s')" and i: "idle (fst s)"
  shows "\<exists>x y. quiet s x \<and> acking x y \<and> quiet y s' \<and> (\<not> pure_ack f \<longrightarrow> y = x)"
proof (cases "hdr_flags f AND PICO_TCP_ACK = 0")
  case True
  then have "s' = s" using a by (simp add: tcp_ack_def)
  then show ?thesis using quiet_refl acking_refl by metis
next
  case False
  obtain una n ats ts s1 m s2 where
    p: "ack_start env f s = Some (una, n, ats, ts, s1)" "ack_count env f (una, n, ats, ts, s1) = Some (m, s2)" "ack_finish env f (m, s2) = Some s'"
    using a False by (auto simp: tcp_ack_def bind_eq_Some_conv)
  obtain t0 ts0 where po: "parse_options f (fst s) = Some (t0, ts0)" using p(1) by (cases "parse_options f (fst s)") (auto simp: ack_start_def)
  have t0: "view t0 = view (fst s)" "nums t0 = nums (fst s)" "pool (tcpq_out t0) = []"
    using kept_parse_options [OF po] parse_options_nums [OF po] idle_view [OF kept_parse_options [OF po]] i by (auto simp: idle_def)
  have "una = None \<and> s1 = (the (ack_leave_mode 0 None (t0\<lparr>recv_wnd := hdr_rwnd f, tcpq_out := tcpq_out t0, ack_timestamp := now env\<rparr>)), snd s) \<and>
      ack_leave_mode 0 None (t0\<lparr>recv_wnd := hdr_rwnd f, tcpq_out := tcpq_out t0, ack_timestamp := now env\<rparr>) \<noteq> None"
    using p(1) po t0(3) by (auto simp: ack_start_def tcp_ack_advance_una_def release_all_until_def first_segment_def Let_def)
  then obtain t1 where t1: "ack_leave_mode 0 None (t0\<lparr>recv_wnd := hdr_rwnd f, tcpq_out := tcpq_out t0, ack_timestamp := now env\<rparr>) = Some t1"
    "s1 = (t1, snd s)" "una = None" by auto
  have "view t1 = view t0" using ack_leave_view [OF t1(1)] by (simp add: view_out)
  moreover have "nums t1 = nums t0"
    using t1(1) by (auto simp: ack_leave_mode_def bind_eq_Some_conv nums_def Let_def split: if_splits)
  ultimately have q1: "quiet s s1" using t0 t1(2) by (simp add: quiet_def)
  have "quiet s1 s2"
  proof -
    have "s2 = upd (ack_fresh (now env) ts ats n) (upd (\<lambda>t. if n = 0 \<and> payload_len f = 0 \<and> in_flight t > 0 then t\<lparr>in_flight := in_flight t - 1\<rparr> else t) s1)"
      using p(2) t1(3) by (auto simp: ack_count_def Let_def)
    then show ?thesis by (simp add: quiet_def keeps) (simp add: nums_def ack_fresh_def tcp_rtt_def rto_set_def Let_def)
  qed
  then have q2: "quiet s s2" by (rule quiet_trans [OF q1])
  define y where "y = (if pure_ack f \<and> ACKN f = snd_nxt (fst s2) \<and> pico_seq_compare (SEQN f) (rcv_nxt (fst s2)) < 0
                  then tcp_send_ack (mem_ack env) (ucast (now env)) s2 else s2)"
  have y: "acking s2 y" "\<not> pure_ack f \<longrightarrow> y = s2" using acks(1) by (auto simp: y_def)
  define s3 where "s3 = (if m > 0 \<and> size (tcpq_out (fst (upd tcp_congestion_control y))) < max_size (tcpq_out (fst (upd tcp_congestion_control y)))
    then wakeup 2 (upd tcp_congestion_control y) else upd tcp_congestion_control y)"
  have "quiet y (upd tcp_congestion_control y)"
    by (simp add: quiet_def keeps) (simp add: nums_def tcp_congestion_control_def Let_def)
  also have "quiet (upd tcp_congestion_control y) s3" using wakeup_quiet by (simp add: s3_def)
  finally have q3: "quiet y s3" .
  have "view (fst s3) = view (fst s)" using q2 q3 y(1) by (simp add: quiet_def acking_def)
  then have i3: "idle (fst s3)" using i idle_view by blast
  obtain s5 where s5: "(if x_mode (fst s3) = 0 \<and> ucast (cwnd (fst s3)) \<ge> in_flight (fst s3) \<and> snd_nxt (fst s3) > snd_last_out (fst s3)
       then map_option snd (pico_tcp_output env (int (unat (cwnd (fst s3))) - sint (in_flight (fst s3))) (fst s3, snd s3)) else Some (fst s3, snd s3)) = Some s5"
    and s': "s' = upd (\<lambda>t. t\<lparr>snd_old_ack := ACKN f\<rparr>) (add_retransmission_timer env 0 s5)"
    using p(3) [unfolded ack_finish_def prod.case Let_def, folded y_def, folded s3_def] i3
    by (auto simp: idle_def bind_eq_Some_conv simp del: upd_simps)
  have "s5 = s3" using s5 output_idle [OF i3] by (auto split: if_splits)
  moreover have "quiet (add_retransmission_timer env 0 s5) s'" unfolding s' by (simp add: quiet_def nums_def)
  ultimately have "quiet s3 s'" using quiet_trans [OF timer_quiet] by blast
  then show ?thesis using q2 y quiet_trans [OF q3] by blast
qed

definition same :: "pico_socket_tcp \<Rightarrow> pico_socket_tcp \<Rightarrow> bool" where
  "same t t' \<longleftrightarrow> view t' = view t \<and> nums t' = nums t"

lemma ack_idle_same:
  assumes "tcp_ack env f s = Some (r, s')" "idle (fst s)"
  shows "same (fst s) (fst s')"
proof -
  obtain x y where "quiet s x" "acking x y" "quiet y s'" using ack_idle [OF assms] by blast
  then show ?thesis by (simp add: same_def quiet_def acking_def)
qed

lemma ack_idle_quiet:
  assumes "tcp_ack env f s = Some (r, s')" "idle (fst s)" "\<not> pure_ack f"
  shows "quiet s s'"
proof -
  obtain x y where "quiet s x" "quiet y s'" "y = x" using ack_idle [OF assms(1,2)] assms(3) by blast
  then show ?thesis using quiet_trans by blast
qed

section \<open>The three steps\<close>

text \<open>The first step: the number of the SYN is the one the socket goes on from.\<close>

definition syn_number :: "tcp_env \<Rightarrow> tcps \<Rightarrow> u32" where
  "syn_number env s = (if snd_nxt (fst s) = 0 then rand env else snd_nxt (fst s))"

definition syn_socket :: "tcp_env \<Rightarrow> u16 \<Rightarrow> tcps \<Rightarrow> tcps" where
  "syn_socket env th s = upd (\<lambda>t. t\<lparr>snd_nxt := syn_number env s, snd_last := syn_number env s, cwnd := 2, mss := sock_mss env - 20, ssthresh := th\<rparr>) s"

lemma initconn_run:
  assumes "pico_tcp_initconn env s = Some (0, s')"
  obtains th s2 opts t3 i tm where "s2 = tcp_set_space (mem_ack env) (ucast (now env)) (syn_socket env th s)"
    "tcp_add_options (ucast (now env)) (fst s2) PICO_TCP_SYN (tcp_options_size (fst s) PICO_TCP_SYN) = Some (opts, t3)"
    "s' = (t3\<lparr>retrans_tmr := i\<rparr>, snd s2 @ [Sent PICO_TCP_SYN (syn_number env s) 0 (wnd (fst s2)) opts, SetTimer Initconn tm])"
proof -
  obtain th where th: "initial_ssthresh (sock_mss env - 20) = Some th" and mem: "mem_frame env"
    using assms by (auto simp: pico_tcp_initconn_def Let_def bind_eq_Some_conv split: if_splits)
  define s2 where "s2 = tcp_set_space (mem_ack env) (ucast (now env)) (syn_socket env th s)"
  note run = assms [unfolded pico_tcp_initconn_def Let_def, folded syn_number_def, unfolded eqTrueI [OF mem] th not_True_eq_False if_False
      Option.bind.bind_lunit, folded syn_socket_def, folded s2_def]
  obtain opts t3 where t3: "tcp_add_options (ucast (now env)) (fst s2) PICO_TCP_SYN (tcp_options_size (fst s) PICO_TCP_SYN) = Some (opts, t3)"
    using run by (cases "tcp_add_options (ucast (now env)) (fst s2) PICO_TCP_SYN (tcp_options_size (fst s) PICO_TCP_SYN)") auto
  show thesis using that [OF s2_def t3] run unfolding t3 by (auto simp: timer_add_def upd_def emit_def)
qed

text \<open>The first step: the number of the SYN is the one the socket goes on from.\<close>

lemma initconn_step:
  assumes "pico_tcp_initconn env s = Some (0, s')" "snd s = []" "Sent PICO_TCP_SYN q a w opts \<in> set (snd s')"
  shows "snd_nxt (fst s') = q" "idle (fst s) \<Longrightarrow> idle (fst s')" "state (fst s') = state (fst s)"
proof -
  obtain th s2 o2 t3 i tm where r: "s2 = tcp_set_space (mem_ack env) (ucast (now env)) (syn_socket env th s)"
    "tcp_add_options (ucast (now env)) (fst s2) PICO_TCP_SYN (tcp_options_size (fst s) PICO_TCP_SYN) = Some (o2, t3)"
    "s' = (t3\<lparr>retrans_tmr := i\<rparr>, snd s2 @ [Sent PICO_TCP_SYN (syn_number env s) 0 (wnd (fst s2)) o2, SetTimer Initconn tm])"
    using assms(1) by (rule initconn_run)
  have k: "acking (syn_socket env th s) s2" unfolding r(1) by (rule acks)
  have n3: "view t3 = view (fst (syn_socket env th s))" "nums t3 = nums (fst (syn_socket env th s))"
    using kept_add_options [OF r(2)] add_options_nums [OF r(2)] k by (simp_all add: acking_def)
  have "\<forall>e \<in> set (snd s2). ack_event (fst (syn_socket env th s)) e" using k assms(2) by (auto simp: acking_def syn_socket_def)
  then have "q = syn_number env s"
    using assms(3) unfolding r(3) by (auto simp: ack_event_def PICO_TCP_ACK_def PICO_TCP_SYN_def)
  then have "snd_nxt (fst s') = q \<and> (idle (fst s) \<longrightarrow> idle (fst s')) \<and> state (fst s') = state (fst s)"
    using n3 unfolding r(3) by (auto simp: nums_def view_def idle_def chunks_out_def syn_socket_def)
  then show "snd_nxt (fst s') = q" "idle (fst s) \<Longrightarrow> idle (fst s')" "state (fst s') = state (fst s)" by blast+
qed

text \<open>The second step: the child of the listening socket.\<close>

fun frame_event :: "tcp_event \<Rightarrow> bool" where
  "frame_event (SentFrame fl q a w opts p) = True"
| "frame_event e = False"

definition no_frames :: "tcp_event list \<Rightarrow> bool" where
  "no_frames lg \<longleftrightarrow> (\<forall>e \<in> set lg. \<not> frame_event e)"

lemma acking_no_frames: "acking s s' \<Longrightarrow> no_frames (snd s) \<Longrightarrow> no_frames (snd s')"
  by (fastforce simp: acking_def no_frames_def ack_event_def)

lemma flags_of_synack: "(PICO_TCP_SYN OR PICO_TCP_ACK) AND PICO_TCP_ACK \<noteq> 0" "(PICO_TCP_SYN OR PICO_TCP_ACK OR PICO_TCP_ACK) AND PICO_TCP_SYN \<noteq> 0"
  "(PICO_TCP_SYN OR PICO_TCP_ACK) AND PICO_TCP_SYN \<noteq> 0"
  by (simp_all add: PICO_TCP_SYN_def PICO_TCP_ACK_def)

lemma synack_send:
  assumes "tcp_send env f opts (t, lg) = (r, f1, s')" "hflags f = PICO_TCP_SYN OR PICO_TCP_ACK" "payload f = []" "seq f = snd_nxt t"
    and "no_frames lg" "SentFrame fl q a w o2 p \<in> set (snd s')"
  shows "q = snd_nxt t" "a = rcv_nxt t" "nums (fst s') = (snd_nxt t + 1, rcv_nxt t)" "view (fst s') = view t"
proof -
  define f0 where "f0 = (if seq f = 0 then f\<lparr>seq := snd_nxt t\<rparr> else f)"
  have f0: "hflags f0 = PICO_TCP_SYN OR PICO_TCP_ACK" "payload f0 = []" "seq f0 = snd_nxt t" using assms(2-4) by (simp_all add: f0_def)
  obtain a1 g t1 where g: "tcp_send_add_tcpflags t f0 = (a1, g, t1)" by (metis surj_pair)
  have g1: "a1 = rcv_nxt t" "payload g = []" "seq g = snd_nxt t" "nums t1 = (snd_nxt t + 1, rcv_nxt t)" "view t1 = view t"
    using g f0 flags_of_synack by (auto simp: tcp_send_add_tcpflags_def nums_def Let_def split: if_splits)
  have e: "tcp_send_try_enqueue env g a1 opts (t1, lg) = (r, s')"
    using assms(1) g unfolding tcp_send_def Let_def fst_conv snd_conv f0_def by (simp split: prod.splits)
  have "SentFrame fl q a w o2 p \<notin> set lg" using assms(5) by (auto simp: no_frames_def)
  then have "s' = (t1, lg @ [sent_frame t1 g a1 opts])" "SentFrame fl q a w o2 p = sent_frame t1 g a1 opts"
    using e assms(6) g1(2) by (auto simp: tcp_send_try_enqueue_def upd_def emit_def split: if_splits)
  then show "q = snd_nxt t" "a = rcv_nxt t" "nums (fst s') = (snd_nxt t + 1, rcv_nxt t)" "view (fst s') = view t"
    using g1 by (simp_all add: sent_frame_def)
qed

lemma send_synack_step:
  assumes "tcp_send_synack env s = Some (r, s')" "no_frames (snd s)" "SentFrame fl q a w opts p \<in> set (snd s')"
  shows "q = snd_nxt (fst s)" "a = rcv_nxt (fst s)" "nums (fst s') = (snd_nxt (fst s) + 1, rcv_nxt (fst s))"
    "state (fst s') = state (fst s)" "chunks_out (fst s') = chunks_out (fst s)" "nodelay (fst s') = nodelay (fst s)"
proof -
  let ?fl = "PICO_TCP_SYN OR PICO_TCP_ACK"
  define s1 where "s1 = upd (\<lambda>t. t\<lparr>rcv_processed := snd_nxt t, snd_last := snd_nxt t\<rparr>) s"
  define s2 where "s2 = tcp_set_space (mem_ack env) (ucast (now env)) s1"
  have k: "acking s1 s2" unfolding s2_def by (rule acks)
  have mem: "mem_frame env" using assms by (auto simp: tcp_send_synack_def no_frames_def Let_def split: if_splits)
  note run = assms(1) [unfolded tcp_send_synack_def Let_def eqTrueI [OF mem] not_True_eq_False if_False, folded s1_def, folded s2_def]
  obtain o3 t3 where t3: "tcp_add_options (ucast (now env)) (fst s2) ?fl (tcp_options_size (fst s) ?fl) = Some (o3, t3)"
    using run by (cases "tcp_add_options (ucast (now env)) (fst s2) ?fl (tcp_options_size (fst s) ?fl)") auto
  have n: "nums t3 = nums (fst s1)" "view t3 = view (fst s1)"
    using kept_add_options [OF t3] add_options_nums [OF t3] k by (simp_all add: acking_def)
  define f where "f = \<lparr>seq = snd_nxt (fst s), payload = [], esize = of_nat (frame_overhead env + 20 + tcp_options_size (fst s) ?fl),
     tstamp = now env, sacked = False, hflags = ?fl, ts_saved = False\<rparr>"
  obtain x f1 s4 where snt: "tcp_send env f o3 (t3, snd s2) = (x, f1, s4)" by (metis surj_pair)
  then have s4: "s' = s4" using run unfolding t3 f_def by simp
  have nf: "no_frames (snd s2)" using acking_no_frames [OF k] assms(2) by (simp add: s1_def)
  have sn: "snd_nxt t3 = snd_nxt (fst s)" "rcv_nxt t3 = rcv_nxt (fst s)" using n(1) by (simp_all add: nums_def s1_def)
  have f: "hflags f = ?fl" "payload f = []" "seq f = snd_nxt t3" by (simp_all add: f_def sn)
  note st = synack_send [OF snt f nf, of fl q a w opts p, OF assms(3) [unfolded s4]]
  show "q = snd_nxt (fst s)" "a = rcv_nxt (fst s)" "nums (fst s') = (snd_nxt (fst s) + 1, rcv_nxt (fst s))"
    using st sn s4 by simp_all
  show "state (fst s') = state (fst s)" "chunks_out (fst s') = chunks_out (fst s)" "nodelay (fst s') = nodelay (fst s)"
    using st(4) n(2) s4 by (simp_all add: view_def s1_def chunks_out_def)
qed

lemma open_idle: "pool (tcpq_out (fst (pico_tcp_open env))) = []" "nodelay (fst (pico_tcp_open env))" "no_frames (snd (pico_tcp_open env))"
proof -
  let ?t = "rto_set PICO_TCP_RTO_MIN (zero_tcp\<lparr>mss := sock_mss env - 20, tcpq_in := empty_queue PICO_DEFAULT_SOCKETQ,
                tcpq_out := empty_queue PICO_DEFAULT_SOCKETQ, tcpq_hold := empty_queue (2 * ucast (sock_mss env - 20)), nodelay := True,
                linger_timeout := 3000\<rparr>)"
  let ?s = "upd (\<lambda>t. t\<lparr>keepalive_tmr := timer_id env 0\<rparr>) (?t, [SetTimer Keepalive 1000])"
  have o: "pico_tcp_open env = tcp_set_space (mem_ack env) (ucast (now env)) ?s"
    by (simp add: pico_tcp_open_def timer_add_def emit_def Let_def)
  have k: "acking ?s (pico_tcp_open env)" unfolding o by (rule acks)
  have v: "chunks_out (fst ?s) = []" "nodelay (fst ?s)" by (simp_all add: chunks_out_def rto_set_def empty_queue_def Let_def)
  show "pool (tcpq_out (fst (pico_tcp_open env))) = []" "nodelay (fst (pico_tcp_open env))"
    using k v by (auto simp: acking_def view_def chunks_out_def)
  show "no_frames (snd (pico_tcp_open env))" using acking_no_frames [OF k] by (simp add: no_frames_def)
qed

lemma syn_step:
  assumes "tcp_syn env cl f l = Some (l', Some ch)" "SentFrame fl q a w opts p \<in> set (snd ch)"
  shows "fsm_index (fst ch) = 4" "idle (fst ch)" "nums (fst ch) = (q + 1, SEQN f + 1)" "a = SEQN f + 1"
proof -
  obtain c0 lg0 where c0: "pico_tcp_open env = (c0, lg0)" by (metis surj_pair)
  obtain c1 ts where c1: "parse_options f (c0\<lparr>state := state (fst l)\<rparr>) = Some (c1, ts)"
    using assms(1) c0 by (auto simp: tcp_syn_def Let_def bind_eq_Some_conv split: if_splits)
  obtain c3 r where c3: "tcp_send_synack env (c3, lg0) = Some (r, ch)" "snd_nxt c3 = rand env" "rcv_nxt c3 = SEQN f + 1"
      "state c3 = 0x040C" "chunks_out c3 = chunks_out c1" "nodelay c3 = nodelay c1"
    using assms(1) c0 c1
    by (auto simp: tcp_syn_def Let_def bind_eq_Some_conv rto_set_def ST_SYN_RECV_def chunks_out_def split: if_splits)
  have c1v: "chunks_out c1 = []" "nodelay c1"
    using kept_parse_options [OF c1] open_idle [of env] c0 by (auto simp: view_def chunks_out_def)
  have nf: "no_frames (snd (c3, lg0))" using open_idle(3) [of env] c0 by simp
  note st = send_synack_step [OF c3(1) nf assms(2)]
  show "fsm_index (fst ch) = 4" using st(4) c3(4) by (simp add: fsm_index_def)
  show "idle (fst ch)" using st(4-6) c3(4-6) c1v by (simp add: idle_def chunks_out_def)
  show "nums (fst ch) = (q + 1, SEQN f + 1)" "a = SEQN f + 1" using st(1-3) c3(2,3) by simp_all
qed

lemma wakeup_log: "\<exists>W. snd (wakeup ev s) = snd s @ W \<and> set W \<subseteq> {Wakeup ev}"
  by (cases "has_wakeup (fst s)") (auto simp: wakeup_def)

text \<open>The third step: the socket that connects.\<close>

lemma synack_step:
  assumes r: "tcp_synack env f s = Some s'" and i: "idle (fst s)" and n: "ACKN f = snd_nxt (fst s) + 1" and fl: "hdr_flags f = SA"
  shows "fsm_index (fst s') = 5" "nums (fst s') = (snd_nxt (fst s) + 1, SEQN f + 1)"
    "\<exists>L. snd s' = snd s @ L \<and> (\<forall>q a w opts. Sent PICO_TCP_ACK q a w opts \<in> set L \<longrightarrow> q = snd_nxt (fst s) + 1 \<and> a = SEQN f + 1)"
proof -
  define s1 where "s1 = upd (\<lambda>t. t\<lparr>retrans_tmr := 0, rcv_nxt := SEQN f, rcv_processed := SEQN f + 1\<rparr>) (emit (CancelTimer (retrans_tmr (fst s))) s)"
  have np: "\<not> pure_ack f" by (simp add: pure_ack_def fl SA_def PICO_TCP_PSH_def PICO_TCP_SYN_def PICO_TCP_ACK_def)
  obtain x s2 where a: "tcp_ack env f s1 = Some (x, s2)" and
    s': "s' = tcp_send_ack (mem_ack env) (ucast (now env))
               (upd (\<lambda>t. t\<lparr>ev_pending := ev_pending t OR 2, rcv_nxt := rcv_nxt t + 1, snd_nxt := snd_nxt t + 1\<rparr>)
                  (wakeup 4 (upd (set_tcp_state ST_ESTABLISHED) s2)))"
    using r n by (cases "tcp_ack env f s1") (auto simp: tcp_synack_def Let_def s1_def add.commute split: if_splits)
  have "idle (fst s1)" using i by (simp add: s1_def idle_def)
  from ack_idle_quiet [OF a this np] have q: "quiet s1 s2" .
  let ?s3 = "upd (\<lambda>t. t\<lparr>ev_pending := ev_pending t OR 2, rcv_nxt := rcv_nxt t + 1, snd_nxt := snd_nxt t + 1\<rparr>)
                  (wakeup 4 (upd (set_tcp_state ST_ESTABLISHED) s2))"
  have n3: "nums (fst ?s3) = (snd_nxt (fst s) + 1, SEQN f + 1)"
    using q by (simp add: quiet_def nums_def s1_def set_tcp_state_def)
  have k: "acking ?s3 s'" unfolding s' by (rule acks)
  show "nums (fst s') = (snd_nxt (fst s) + 1, SEQN f + 1)" using k n3 by (simp add: acking_def)
  have "fsm_index (fst s') = fsm_index (fst ?s3)" using k by (simp add: acking_def fsm_index_def view_def)
  then show "fsm_index (fst s') = 5" by (simp add: fsm_index_def set_tcp_state_def ST_ESTABLISHED_def)
  obtain L1 where L1: "snd s2 = snd s1 @ L1" "\<forall>e \<in> set L1. \<nexists>fl q a w opts. e = Sent fl q a w opts" using q by (auto simp: quiet_def)
  obtain L2 where L2: "snd s' = snd ?s3 @ L2" "\<forall>e \<in> set L2. ack_event (fst ?s3) e" using k by (auto simp: acking_def)
  obtain W where W: "snd ?s3 = snd s2 @ W" "set W \<subseteq> {Wakeup 4}"
    using wakeup_log [of 4 "upd (set_tcp_state ST_ESTABLISHED) s2"] by auto
  have "snd s' = snd s @ ([CancelTimer (retrans_tmr (fst s))] @ L1 @ W @ L2)" using L1(1) L2(1) W(1) by (simp add: s1_def)
  moreover have "q = snd_nxt (fst s) + 1 \<and> a = SEQN f + 1"
    if "Sent PICO_TCP_ACK q a w opts \<in> set ([CancelTimer (retrans_tmr (fst s))] @ L1 @ W @ L2)" for q a w opts
  proof -
    have "Sent PICO_TCP_ACK q a w opts \<in> set L2" using that L1(2) W(2) by auto
    then have "ack_event (fst ?s3) (Sent PICO_TCP_ACK q a w opts)" using L2(2) by blast
    then have "q = snd_nxt (fst ?s3)" "a = rcv_nxt (fst ?s3)" by (auto simp: ack_event_def)
    then show ?thesis using n3 by (simp add: nums_def)
  qed
  ultimately show "\<exists>L. snd s' = snd s @ L \<and> (\<forall>q a w opts. Sent PICO_TCP_ACK q a w opts \<in> set L \<longrightarrow> q = snd_nxt (fst s) + 1 \<and> a = SEQN f + 1)"
    by blast
qed

lemma first_ack_step:
  assumes r: "tcp_first_ack env f s = Some s'" and i: "idle (fst s)" and n: "ACKN f = snd_nxt (fst s)"
  shows "fsm_index (fst s') = 5" "nums (fst s') = nums (fst s)"
proof -
  let ?s1 = "upd (\<lambda>t. t\<lparr>rcv_processed := rcv_nxt t\<rparr>) s"
  obtain x s2 where a: "tcp_ack env f ?s1 = Some (x, s2)" and
    s': "fst s' = (set_tcp_state ST_ESTABLISHED (fst s2))\<lparr>ev_pending := ev_pending (set_tcp_state ST_ESTABLISHED (fst s2)) OR 2\<rparr>"
    using r n by (cases "tcp_ack env f ?s1") (auto simp: tcp_first_ack_def Let_def simp del: upd_simps split: if_splits, simp_all add: upd_def)
  have "idle (fst ?s1)" using i by (simp add: idle_def)
  from ack_idle_same [OF a this] show "nums (fst s') = nums (fst s)" by (simp add: same_def s' nums_def set_tcp_state_def)
  show "fsm_index (fst s') = 5" by (simp add: s' fsm_index_def set_tcp_state_def ST_ESTABLISHED_def)
qed

text \<open>The segments of the handshake reach their handlers.\<close>

lemma signal_facts: "fst (if ev_pending (fst x) \<noteq> 0 then wakeup (ev_pending (fst x)) x else x) = fst x"
  "\<exists>W. snd (if ev_pending (fst x) \<noteq> 0 then wakeup (ev_pending (fst x)) x else x) = snd x @ W \<and> (\<forall>e \<in> set W. \<exists>ev. e = Wakeup ev)"
  by (auto simp: wakeup_def)

lemma input_at:
  assumes "pico_tcp_input env clone f s = Some (s', c)" "\<not> invalid_flags (fst s) (hdr_flags f)"
  obtains x where "s' = (if ev_pending (fst x) \<noteq> 0 then wakeup (ev_pending (fst x)) x else x)"
    "(if hdr_flags f = PICO_TCP_SYN then tcp_action_call env clone f (a_syn (tcp_fsm ! fsm_index (fst s))) s
              else if hdr_flags f = SA then tcp_action_call env clone f (a_synack (tcp_fsm ! fsm_index (fst s))) s
              else stay (tcp_action_by_flags env (tcp_fsm ! fsm_index (fst s)) f (hdr_flags f) s)) = Some (x, c)"
proof -
  have ne: "(length f < 20 \<or> fsm_index (fst s) \<ge> length tcp_fsm) = False" using assms(1) by (auto simp: pico_tcp_input_def split: if_splits)
  note r = assms(1) [unfolded pico_tcp_input_def Let_def ne if_False, unfolded if_not_P [OF assms(2)]]
  show thesis using r that by (auto simp only: map_option_eq_Some prod.case split: prod.splits)
qed

lemma flag_values: "SA \<noteq> PICO_TCP_SYN" "PICO_TCP_ACK \<noteq> PICO_TCP_SYN" "PICO_TCP_ACK \<noteq> SA" "SA \<noteq> 0" "PICO_TCP_ACK \<noteq> 0" "PICO_TCP_SYN \<noteq> 0"
  by (simp_all add: SA_def PICO_TCP_SYN_def PICO_TCP_ACK_def)

lemma input_syn:
  assumes "pico_tcp_input env clone f l = Some (l', Some ch)" "fsm_index (fst l) = 2" "hdr_flags f = PICO_TCP_SYN"
  shows "\<exists>l1. tcp_syn env clone f l = Some (l1, Some ch)"
proof -
  have v: "\<not> invalid_flags (fst l) (hdr_flags f)" by (simp add: invalid_flags_def assms(2,3) valid_flags_def flag_values)
  have a: "a_syn (tcp_fsm ! 2) = Some H_syn" by (simp add: tcp_fsm_def row_def)
  obtain y where "(if hdr_flags f = PICO_TCP_SYN then tcp_action_call env clone f (a_syn (tcp_fsm ! fsm_index (fst l))) l
              else if hdr_flags f = SA then tcp_action_call env clone f (a_synack (tcp_fsm ! fsm_index (fst l))) l
              else stay (tcp_action_by_flags env (tcp_fsm ! fsm_index (fst l)) f (hdr_flags f) l)) = Some (y, Some ch)"
    by (rule input_at [OF assms(1) v])
  then show ?thesis by (auto simp: assms(2,3) a tcp_action_call_def)
qed

lemma input_synack:
  assumes "pico_tcp_input env clone f s = Some (s', c)" "fsm_index (fst s) = 3" "hdr_flags f = SA"
  obtains x where "tcp_synack env f s = Some x" "s' = (if ev_pending (fst x) \<noteq> 0 then wakeup (ev_pending (fst x)) x else x)"
proof -
  have v: "\<not> invalid_flags (fst s) (hdr_flags f)" by (simp add: invalid_flags_def assms(2,3) valid_flags_def flag_values)
  have "a_synack (tcp_fsm ! 3) = Some H_synack" by (simp add: tcp_fsm_def row_def)
  then show thesis using input_at [OF assms(1) v] assms(2,3) that by (auto simp: tcp_action_call_def stay_def flag_values)
qed

lemma input_ack:
  assumes "pico_tcp_input env clone f s = Some (s', c)" "fsm_index (fst s) = 4" "hdr_flags f = PICO_TCP_ACK" "payload_len f = 0"
  obtains x where "tcp_first_ack env f s = Some x" "fst s' = fst x"
proof -
  have v: "\<not> invalid_flags (fst s) (hdr_flags f)" by (simp add: invalid_flags_def assms(2,3) valid_flags_def flag_values)
  have a: "a_ack (tcp_fsm ! 4) = Some H_first_ack" by (simp add: tcp_fsm_def row_def)
  obtain x where x: "s' = (if ev_pending (fst x) \<noteq> 0 then wakeup (ev_pending (fst x)) x else x)" and
    y: "(if hdr_flags f = PICO_TCP_SYN then tcp_action_call env clone f (a_syn (tcp_fsm ! fsm_index (fst s))) s
              else if hdr_flags f = SA then tcp_action_call env clone f (a_synack (tcp_fsm ! fsm_index (fst s))) s
              else stay (tcp_action_by_flags env (tcp_fsm ! fsm_index (fst s)) f (hdr_flags f) s)) = Some (x, c)"
    by (rule input_at [OF assms(1) v])
  have y: "tcp_action_by_flags env (tcp_fsm ! 4) f PICO_TCP_ACK s = Some x" using y by (auto simp: assms(2,3) stay_def flag_values)
  have "PICO_TCP_ACK AND PICO_TCP_PSH = 0" by (simp add: PICO_TCP_ACK_def PICO_TCP_PSH_def)
  then have "tcp_first_ack env f s = Some x"
    using y assms(4) a by (simp add: tcp_action_by_flags_def flag_facts) (auto simp: act_def tcp_action_call_def stay_def)
  then show thesis using that x by simp
qed

section \<open>Two concrete sockets\<close>


definition client_example :: pico_socket_tcp where
  "client_example = zero_tcp\<lparr>state := 0x030C, nodelay := True, tcpq_in := empty_queue 16384, tcpq_out := empty_queue 16384, snd_nxt := 100\<rparr>"

definition env_quiet :: tcp_env where "env_quiet = env_example\<lparr>mem_ack := False\<rparr>"

definition listen_example :: pico_socket_tcp where
  "listen_example = zero_tcp\<lparr>state := 0x0204, nodelay := True, max_backlog := 1, tcpq_in := empty_queue 16384, tcpq_out := empty_queue 16384\<rparr>"

definition syn_options :: bytes where
  "syn_options = [2, 4, 5, 160, 4, 2, 3, 3, 0, 8, 10, 0, 0, 3, 232, 0, 0, 0, 0, 1, 1, 1, 1, 0]"

definition client_syn :: tcps where
  "client_syn = (client_example\<lparr>snd_last := 100, retrans_tmr := 2, cwnd := 2, ssthresh := 10, wnd := 16384, mss := 1440\<rparr>,
     [Sent 2 100 0 16384 syn_options, SetTimer Initconn 2000])"

lemmas handshake_defs = env_quiet_def example_defs client_example_def listen_example_def syn_options_def client_syn_def

lemmas flag_defs = PICO_TCP_SYN_def PICO_TCP_ACK_def PICO_TCP_FIN_def PICO_TCP_PSH_def PICO_TCP_RST_def SA_def PA_def FA_def FPA_def RA_def

lemma window_example: "window_shift 16384 0 = (16384, 0)" by (simp add: window_shift.simps)

lemma syn_area: "tcp_add_options 1000 t (2 OR x) 24 = Some (syn_options, t)"
  if "mss t = 1440" "wnd_scale t = 0" "ts_nxt t = 0" "sack_ok t = False" "x = 0 \<or> x = 16"
proof -
  have b: "bytes_of_u32 (long_be 1000) = [0, 0, 3, 232]" "bytes_of_u32 (long_be 0) = [0, 0, 0, 0]" by code_simp+
  have r: "replicate 5 (1 :: u8) = [1, 1, 1, 1, 1]" by code_simp
  show ?thesis using that by (auto simp: tcp_add_options_def tcp_add_sack_option_def flag_defs syn_options_def option_kinds b r Let_def)
qed

lemma client_syn_example: "pico_tcp_initconn env_quiet (client_example, []) = Some (0, client_syn)"
  using syn_area [of _ 0]
  by (simp add: pico_tcp_initconn_def tcp_options_size_def initial_ssthresh_def PICO_DEFAULT_SOCKETQ_def tcp_set_space_def set_space_with_def
     tcp_space_def window_example tcp_set_space_check_winupdate_def timer_add_def emit_def upd_def handshake_defs flag_defs Let_def)

definition syn_segment :: bytes where "syn_segment = [0, 0, 0, 0, 0, 0, 0, 100, 0, 0, 0, 0, 0x50, 2, 0, 10, 0, 0, 0, 0]"
definition synack_segment :: bytes where "synack_segment = [0, 0, 0, 0, 0, 0, 0, 77, 0, 0, 0, 101, 0x50, 18, 0, 10, 0, 0, 0, 0]"
definition ack_segment :: bytes where "ack_segment = [0, 0, 0, 0, 0, 0, 0, 101, 0, 0, 0, 78, 0x50, 16, 0, 10, 0, 0, 0, 0]"

lemma segment_fields:
  "SEQN syn_segment = 100" "hdr_flags syn_segment = 2" "hdr_len syn_segment = 20" "hdr_rwnd syn_segment = 10" "payload_len syn_segment = 0" "length syn_segment = 20"
  "SEQN synack_segment = 77" "ACKN synack_segment = 101" "hdr_flags synack_segment = 18" "hdr_len synack_segment = 20" "hdr_rwnd synack_segment = 10"
  "payload_len synack_segment = 0" "length synack_segment = 20"
  "SEQN ack_segment = 101" "ACKN ack_segment = 78" "hdr_flags ack_segment = 16" "hdr_len ack_segment = 20" "hdr_rwnd ack_segment = 10"
  "payload_len ack_segment = 0" "length ack_segment = 20"
  by code_simp+

lemma parse_nothing: "length f = 20 \<Longrightarrow> parse_options f t = Some (t, 0)"
  by (simp add: parse_options_def tcp_parse_options_def opt_loop.simps)

definition child_example :: tcps where
  "child_example = (zero_tcp\<lparr>state := 0x040C, nodelay := True, has_parent := True, tcpq_in := empty_queue 16384, tcpq_out := empty_queue 16384,
     tcpq_hold := empty_queue 2920, snd_nxt := 78, snd_last := 77, rto := 70, cwnd := 2, ssthresh := 10, recv_wnd := 10, rcv_nxt := 101, rcv_ackd := 101,
     rcv_processed := 77, wnd := 16384, mss := 1440, linger_timeout := 3000, keepalive_tmr := 1\<rparr>,
     [SetTimer Keepalive 1000, SentFrame 18 77 101 16384 syn_options []])"

definition open_example :: tcps where
  "open_example = (zero_tcp\<lparr>nodelay := True, tcpq_in := empty_queue 16384, tcpq_out := empty_queue 16384, tcpq_hold := empty_queue 2880,
     mss := 1440, rto := 70, linger_timeout := 3000, keepalive_tmr := 1, wnd := 16384\<rparr>, [SetTimer Keepalive 1000])"

lemma open_example: "pico_tcp_open env_quiet = open_example"
  by (simp add: pico_tcp_open_def open_example_def timer_add_def emit_def upd_def rto_set_def PICO_TCP_RTO_MIN_def PICO_TCP_RTO_MAX_def PICO_DEFAULT_SOCKETQ_def
     tcp_set_space_def set_space_with_def tcp_space_def window_example tcp_set_space_check_winupdate_def handshake_defs Let_def)

lemma env_fields: "now env_quiet = 1000" "mem_frame env_quiet" "mem_copy env_quiet" "enq env_quiet" "frame_overhead env_quiet = 34"
  "sock_mss env_quiet = 1460" "rand env_quiet = 77"
  by (simp_all add: env_quiet_def env_example_def)

lemma child_of_syn: "\<exists>l. tcp_syn env_quiet True syn_segment (listen_example, []) = Some (l, Some child_example)"
  using syn_area [of _ 16]
  by (simp add: tcp_syn_def open_example open_example_def parse_nothing segment_fields initial_ssthresh_def PICO_DEFAULT_SOCKETQ_def ST_SYN_RECV_def
     tcp_send_synack_def tcp_options_size_def tcp_set_space_def set_space_with_def tcp_space_def window_example tcp_set_space_check_winupdate_def
     tcp_send_def tcp_send_add_tcpflags_def tcp_send_try_enqueue_def sent_frame_def emit_def upd_def rto_set_def PICO_TCP_RTO_MIN_def PICO_TCP_RTO_MAX_def
     child_example_def env_fields zero_tcp_def empty_queue_def listen_example_def syn_options_def flag_defs Let_def)

lemma env_fields2: "now env_example = 1000" "mem_frame env_example" "mem_copy env_example" "enq env_example" "mem_ack env_example"
  "timer_id env_example = (\<lambda>n. of_nat n + 1)"
  by (simp_all add: env_example_def)

lemmas ack_defs = tcp_ack_def ack_start_def ack_count_def ack_finish_def ack_leave_mode_def ack_fresh_def tcp_ack_advance_una_def release_all_until_def
  first_segment_def peek_segment_def tcp_rtt_def time_diff_def rto_set_def PICO_TCP_RTO_MIN_def PICO_TCP_RTO_MAX_def tcp_congestion_control_def
  PICO_TCP_LOOKAHEAD_def pure_ack_def pico_tcp_output_def add_retransmission_timer_def timer_add_def wakeup_def emit_def upd_def pico_seq_compare_def

lemma output_none: "output_loop (Suc k) env una None sc data s = Some (sc, data, s)" by simp


lemma start_nothing:
  assumes "length f = 20" "pool (tcpq_out t) = []" "x_mode t = 0"
  shows "ack_start env_example f (t, e) = Some (None, 0, 0, 0, t\<lparr>recv_wnd := hdr_rwnd f, ack_timestamp := 1000\<rparr>, e)"
  using assms by (simp add: ack_start_def parse_nothing tcp_ack_advance_una_def release_all_until_def first_segment_def ack_leave_mode_def Let_def env_fields2)

lemma count_nothing:
  assumes "in_flight t = 0"
  shows "ack_count env_example f (None, 0, 0, 0, (t, e)) = Some (0, t\<lparr>x_mode := 0, backoff := 0\<rparr>, e)"
  using assms by (simp add: ack_count_def upd_def ack_fresh_def tcp_rtt_def env_fields2 time_diff_def Let_def)

lemma output_nothing:
  assumes "pool (tcpq_out t) = []" "state t AND 1 = 0"
  shows "pico_tcp_output env_example d (t, e) = Some (d, (t, e))"
  using assms by (simp add: pico_tcp_output_def first_segment_def peek_segment_def output_none)

lemma finish_nothing:
  assumes "pool (tcpq_out t) = []" "SEQN f = rcv_nxt t" "nodelay t" "x_mode t = 0" "cwnd t < ssthresh t" "state t AND 1 = 0" "retrans_tmr t = 0"
  shows "ack_finish env_example f (0, (t, e)) = Some (t\<lparr>cwnd := cwnd t + 1, retrans_tmr_due := 1001, retrans_tmr := of_nat (length e) + 1, snd_old_ack := ACKN f\<rparr>,
    e @ [SetTimer Retrans 1])"
proof -
  have "add_retransmission_timer env_example 0 (t\<lparr>cwnd := cwnd t + 1\<rparr>, e) =
      (t\<lparr>cwnd := cwnd t + 1, retrans_tmr_due := 1001, retrans_tmr := of_nat (length e) + 1\<rparr>, e @ [SetTimer Retrans 1])"
    using assms by (simp add: add_retransmission_timer_def timer_add_def emit_def upd_def env_fields2 Let_def)
  then show ?thesis
    using assms by (simp add: ack_finish_def pico_seq_compare_def tcp_congestion_control_def PICO_TCP_LOOKAHEAD_def output_nothing upd_def Let_def)
qed

lemma ack_nothing:
  assumes "hdr_flags f AND PICO_TCP_ACK \<noteq> 0" "length f = 20" "pool (tcpq_out t) = []" "SEQN f = rcv_nxt t" "nodelay t" "x_mode t = 0" "in_flight t = 0" "cwnd t < ssthresh t"
    "state t AND 1 = 0" "retrans_tmr t = 0"
  shows "tcp_ack env_example f (t, e) = Some (0, t\<lparr>recv_wnd := hdr_rwnd f, ack_timestamp := 1000, x_mode := 0, backoff := 0, cwnd := cwnd t + 1, retrans_tmr_due := 1001,
    retrans_tmr := of_nat (length e) + 1, snd_old_ack := ACKN f\<rparr>, e @ [SetTimer Retrans 1])"
  using assms by (simp add: tcp_ack_def start_nothing count_nothing finish_nothing)

lemma ack_sent:
  assumes "tcpq_in t = empty_queue 16384" "wnd t = 16384" "wnd_scale t = 0" "ts_ok t = False" "sack_ok t = False"
  shows "\<exists>opts. tcp_send_ack True 1000 (t, e) = (t\<lparr>rcv_ackd := rcv_nxt t\<rparr>, e @ [Sent PICO_TCP_ACK (snd_nxt t) (rcv_nxt t) 16384 opts])"
proof -
  have s: "set_space_with g (t, e) = (t, e)" for g
    using assms by (simp add: set_space_with_def tcp_space_def window_example tcp_set_space_check_winupdate_def empty_queue_def)
  obtain opts where o: "tcp_add_options 1000 t PICO_TCP_ACK (tcp_options_size t PICO_TCP_ACK) = Some (opts, t)"
    using assms by (simp add: tcp_add_options_def tcp_options_size_def tcp_add_sack_option_def PICO_TCP_ACK_def PICO_TCP_SYN_def Let_def)
  have "PICO_TCP_ACK AND PICO_TCP_ACK \<noteq> 0" by (simp add: PICO_TCP_ACK_def)
  then show ?thesis using assms(2) by (simp add: tcp_send_ack_def numeral_2_eq_2 send_empty_with_def s o Let_def)
qed

lemma synack_event:
  "\<exists>t opts. tcp_synack env_example synack_segment client_syn = Some (t, snd client_syn @ [CancelTimer 2, SetTimer Retrans 1, Sent PICO_TCP_ACK 101 78 16384 opts]) \<and> \<not> has_wakeup t"
proof -
  note d = client_syn_def client_example_def zero_tcp_def empty_queue_def
  let ?s = "upd (\<lambda>t. t\<lparr>retrans_tmr := 0, rcv_nxt := 77, rcv_processed := 78\<rparr>) (emit (CancelTimer 2) client_syn)"
  let ?g = "\<lambda>s2. upd (\<lambda>t. t\<lparr>ev_pending := ev_pending t OR 2, rcv_nxt := rcv_nxt t + 1, snd_nxt := snd_nxt t + 1\<rparr>)
                  (wakeup 4 (upd (set_tcp_state ST_ESTABLISHED) s2))"
  obtain t where t: "tcp_ack env_example synack_segment ?s = Some (0, t, snd client_syn @ [CancelTimer 2, SetTimer Retrans 1])"
      "tcpq_in t = empty_queue 16384" "wnd t = 16384" "wnd_scale t = 0" "ts_ok t = False" "sack_ok t = False" "has_wakeup t = False" "rcv_nxt t = 77" "snd_nxt t = 100"
    by (simp add: d upd_def emit_def ack_nothing segment_fields PICO_TCP_ACK_def)
  obtain u where u: "?g (t, snd client_syn @ [CancelTimer 2, SetTimer Retrans 1]) = (u, snd client_syn @ [CancelTimer 2, SetTimer Retrans 1])"
      "tcpq_in u = empty_queue 16384" "wnd u = 16384" "wnd_scale u = 0" "ts_ok u = False" "sack_ok u = False" "has_wakeup u = False" "rcv_nxt u = 78" "snd_nxt u = 101"
    using t(2-) by (simp add: upd_def wakeup_def set_tcp_state_def)
  obtain opts where o: "tcp_send_ack True 1000 (u, snd client_syn @ [CancelTimer 2, SetTimer Retrans 1]) =
     (u\<lparr>rcv_ackd := 78\<rparr>, snd client_syn @ [CancelTimer 2, SetTimer Retrans 1, Sent PICO_TCP_ACK 101 78 16384 opts])"
    using ack_sent [OF u(2-6), of "snd client_syn @ [CancelTimer 2, SetTimer Retrans 1]"] u(8,9) by auto
  have "tcp_synack env_example synack_segment client_syn = map_option (\<lambda>(r, s2). tcp_send_ack True 1000 (?g s2)) (tcp_ack env_example synack_segment ?s)"
    by (simp add: tcp_synack_def segment_fields env_fields2 d)
  then show ?thesis using t(1) u(1,7) o by simp
qed

lemma synack_example: "\<exists>t opts. pico_tcp_input env_example True synack_segment client_syn =
    Some ((t, snd client_syn @ [CancelTimer 2, SetTimer Retrans 1, Sent PICO_TCP_ACK 101 78 16384 opts]), None)"
proof -
  have i: "fsm_index (fst client_syn) = 3" by (simp add: client_syn_def client_example_def fsm_index_def)
  have v: "invalid_flags (fst client_syn) 18 = False" by (simp add: invalid_flags_def i valid_flags_def flag_defs)
  have a: "a_synack (tcp_fsm ! 3) = Some H_synack" "length tcp_fsm = 12" by (simp_all add: tcp_fsm_def row_def)
  have f: "(18 :: u8) \<noteq> PICO_TCP_SYN" "18 = SA" by (simp_all add: flag_defs)
  have e: "pico_tcp_input env_example True synack_segment client_syn =
    map_option (\<lambda>s. (if ev_pending (fst s) \<noteq> 0 then wakeup (ev_pending (fst s)) s else s, None)) (tcp_synack env_example synack_segment client_syn)"
    using f(1) by (simp add: pico_tcp_input_def segment_fields i v a f(2) [symmetric] tcp_action_call_def stay_def Let_def option.map_comp comp_def)
  show ?thesis using synack_event e by (auto simp: wakeup_def)
qed

lemma syn_example: "\<exists>l. pico_tcp_input env_quiet True syn_segment (listen_example, []) = Some (l, Some child_example)"
proof -
  have i: "fsm_index listen_example = 2" by (simp add: listen_example_def fsm_index_def)
  have v: "invalid_flags listen_example 2 = False" by (simp add: invalid_flags_def i valid_flags_def flag_defs)
  have a: "a_syn (tcp_fsm ! 2) = Some H_syn" "length tcp_fsm = 12" by (simp_all add: tcp_fsm_def row_def)
  have f: "2 = PICO_TCP_SYN" by (simp_all add: flag_defs)
  obtain l where l: "tcp_syn env_quiet True syn_segment (listen_example, []) = Some (l, Some child_example)" using child_of_syn by blast
  show ?thesis by (simp add: pico_tcp_input_def segment_fields i v a f [symmetric] tcp_action_call_def l Let_def)
qed

lemma ack_example: "\<exists>c. pico_tcp_input env_example True ack_segment child_example = Some (c, None)"
proof -
  note d = child_example_def zero_tcp_def empty_queue_def
  have i: "fsm_index (fst child_example) = 4" by (simp add: d fsm_index_def)
  have v: "invalid_flags (fst child_example) 16 = False" by (simp add: invalid_flags_def i valid_flags_def flag_defs)
  have a: "a_ack (tcp_fsm ! 4) = Some H_first_ack" "length tcp_fsm = 12" by (simp_all add: tcp_fsm_def row_def)
  have f: "PICO_TCP_ACK \<noteq> PICO_TCP_SYN" "PICO_TCP_ACK \<noteq> SA" "PICO_TCP_ACK AND PICO_TCP_PSH = 0" "hdr_flags ack_segment = PICO_TCP_ACK"
    using segment_fields by (simp_all add: flag_defs)
  have v: "invalid_flags (fst child_example) PICO_TCP_ACK = False" using v by (simp add: PICO_TCP_ACK_def)
  obtain s where s: "tcp_first_ack env_example ack_segment child_example = Some s"
    by (simp add: tcp_first_ack_def d upd_def ack_nothing segment_fields PICO_TCP_ACK_def Let_def)
  have b: "tcp_action_by_flags env_example (tcp_fsm ! 4) ack_segment PICO_TCP_ACK child_example = Some s"
    using a by (simp add: tcp_action_by_flags_def flag_facts segment_fields(19) f(3)) (auto simp: act_def tcp_action_call_def stay_def s)
  show ?thesis by (simp add: pico_tcp_input_def segment_fields(20) f i v a(2) stay_def Let_def b)
qed

section \<open>The handshake\<close>

text \<open>C2: The three-way handshake. A socket that connects sends a SYN; a listening socket that takes it makes a child, which answers with a SYN and
  an acknowledgement; the first socket takes that, and any acknowledgement it then sends reaches the child. Then both are established, and each
  expects exactly the sequence number the other will send next.
\<close>

theorem tcp_handshake:
  assumes "fsm_index (fst c) = 3" "idle (fst c)" "snd c = []" "fsm_index (fst l) = 2"
    and "pico_tcp_initconn env1 c = Some (0, c1)"
    and "Sent PICO_TCP_SYN (SEQN f1) a1 w1 o1 \<in> set (snd c1)" "hdr_flags f1 = PICO_TCP_SYN"
    and "pico_tcp_input env2 True f1 l = Some (l1, Some ch)"
    and "SentFrame SA (SEQN f2) (ACKN f2) w2 o2 [] \<in> set (snd ch)" "hdr_flags f2 = SA"
    and "pico_tcp_input env3 b3 f2 c1 = Some (c2, x3)"
    and "Sent PICO_TCP_ACK (SEQN f3) (ACKN f3) w3 o3 \<in> set (drop (length (snd c1)) (snd c2))" "hdr_flags f3 = PICO_TCP_ACK" "payload_len f3 = 0"
    and "pico_tcp_input env4 b4 f3 ch = Some (ch2, x4)"
  shows "fsm_index (fst c2) = 5 \<and> fsm_index (fst ch2) = 5 \<and> snd_nxt (fst c2) = rcv_nxt (fst ch2) \<and> snd_nxt (fst ch2) = rcv_nxt (fst c2)"
proof -
  note s1 = initconn_step [OF assms(5,3,6)]
  have c1: "fsm_index (fst c1) = 3" "idle (fst c1)" using s1 assms(1,2) by (simp_all add: fsm_index_def)
  obtain l2 where "tcp_syn env2 True f1 l = Some (l2, Some ch)" using input_syn [OF assms(8,4,7)] by blast
  note s2 = syn_step [OF this assms(9)]
  obtain x where x: "tcp_synack env3 f2 c1 = Some x" "c2 = (if ev_pending (fst x) \<noteq> 0 then wakeup (ev_pending (fst x)) x else x)"
    by (rule input_synack [OF assms(11) c1(1) assms(10)])
  have n: "ACKN f2 = snd_nxt (fst c1) + 1" using s1(1) s2(4) by simp
  note s3 = synack_step [OF x(1) c1(2) n assms(10)]
  obtain L where L: "snd x = snd c1 @ L" "\<forall>q a w opts. Sent PICO_TCP_ACK q a w opts \<in> set L \<longrightarrow> q = snd_nxt (fst c1) + 1 \<and> a = SEQN f2 + 1"
    using s3(3) by blast
  obtain W where W: "snd c2 = snd x @ W" "\<forall>e \<in> set W. \<exists>ev. e = Wakeup ev" using signal_facts(2) [of x] unfolding x(2) by blast
  have "Sent PICO_TCP_ACK (SEQN f3) (ACKN f3) w3 o3 \<in> set L" using assms(12) L(1) W by auto
  then have f3: "SEQN f3 = snd_nxt (fst c1) + 1" "ACKN f3 = SEQN f2 + 1" using L(2) by blast+
  have ch: "snd_nxt (fst ch) = SEQN f2 + 1" "rcv_nxt (fst ch) = SEQN f1 + 1" using s2(3) by (simp_all add: nums_def)
  obtain y where y: "tcp_first_ack env4 f3 ch = Some y" "fst ch2 = fst y" by (rule input_ack [OF assms(15) s2(1) assms(13,14)])
  have "ACKN f3 = snd_nxt (fst ch)" using f3 ch by simp
  note s4 = first_ack_step [OF y(1) s2(2) this]
  have "fst c2 = fst x" using signal_facts(1) [of x] x(2) by simp
  then show ?thesis using s1(1) s3(1,2) s4 y(2) ch by (simp add: nums_def)
qed

theorem tcp_handshake_witness:
  "\<exists>c1 ch c2 ch2. fsm_index c2 = 5 \<and> fsm_index ch2 = 5 \<and> snd_nxt c2 = rcv_nxt ch2 \<and> snd_nxt ch2 = rcv_nxt c2
     \<and> (\<exists>e l. pico_tcp_initconn env_quiet (client_example, []) = Some (0, c1) \<and> pico_tcp_input env_quiet True syn_segment (listen_example, []) = Some (l, Some ch)
        \<and> pico_tcp_input env_example True synack_segment c1 = Some ((c2, e), None) \<and> (\<exists>d. pico_tcp_input env_example True ack_segment ch = Some ((ch2, d), None)))"
proof -
  obtain l where l: "pico_tcp_input env_quiet True syn_segment (listen_example, []) = Some (l, Some child_example)" using syn_example by blast
  obtain t opts where t: "pico_tcp_input env_example True synack_segment client_syn =
    Some ((t, snd client_syn @ [CancelTimer 2, SetTimer Retrans 1, Sent PICO_TCP_ACK 101 78 16384 opts]), None)" using synack_example by blast
  obtain d u where u: "pico_tcp_input env_example True ack_segment child_example = Some ((u, d), None)" using ack_example by force
  have "fsm_index (fst (t, snd client_syn @ [CancelTimer 2, SetTimer Retrans 1, Sent PICO_TCP_ACK 101 78 16384 opts])) = 5 \<and> fsm_index (fst (u, d)) = 5
     \<and> snd_nxt (fst (t, snd client_syn @ [CancelTimer 2, SetTimer Retrans 1, Sent PICO_TCP_ACK 101 78 16384 opts])) = rcv_nxt (fst (u, d))
     \<and> snd_nxt (fst (u, d)) = rcv_nxt (fst (t, snd client_syn @ [CancelTimer 2, SetTimer Retrans 1, Sent PICO_TCP_ACK 101 78 16384 opts]))"
  proof (rule tcp_handshake [OF _ _ _ _ client_syn_example _ _ l _ _ t _ _ _ u])
    show "fsm_index (fst (client_example, [])) = 3" "idle (fst (client_example, []))" "snd (client_example, []) = []" "fsm_index (fst (listen_example, [])) = 2"
      by (simp_all add: client_example_def listen_example_def fsm_index_def idle_def zero_tcp_def empty_queue_def)
    show "hdr_flags syn_segment = PICO_TCP_SYN" "hdr_flags synack_segment = SA" "hdr_flags ack_segment = PICO_TCP_ACK" "payload_len ack_segment = 0"
      by (simp_all add: segment_fields flag_defs)
    show "Sent PICO_TCP_SYN (SEQN syn_segment) 0 16384 syn_options \<in> set (snd client_syn)" by (simp add: client_syn_def segment_fields PICO_TCP_SYN_def)
    show "SentFrame SA (SEQN synack_segment) (ACKN synack_segment) 16384 syn_options [] \<in> set (snd child_example)"
      by (simp add: child_example_def segment_fields flag_defs)
    show "Sent PICO_TCP_ACK (SEQN ack_segment) (ACKN ack_segment) 16384 opts
       \<in> set (drop (length (snd client_syn)) (snd (t, snd client_syn @ [CancelTimer 2, SetTimer Retrans 1, Sent PICO_TCP_ACK 101 78 16384 opts])))"
      by (simp add: segment_fields)
  qed
  then have "fsm_index t = 5 \<and> fsm_index u = 5 \<and> snd_nxt t = rcv_nxt u \<and> snd_nxt u = rcv_nxt t" by simp
  then show ?thesis using l t u client_syn_example by blast
qed

end
