(* ===== verification/FdWrapper.thy ===== *)
theory FdWrapper
  imports PicoIPv4Addr
begin

text \<open>
  The wrapper itself: \<^verbatim>\<open>fd_picotcp.c\<close> (table of descriptors, initialisation, wake-ups),
  \<^verbatim>\<open>fd_functions.c\<close> (the blocking adapter) and \<^verbatim>\<open>device.c\<close> (settings). The socket calls of
  picoTCP and the device drivers are a record of operations on an abstract stack state; pipes are
  the number of characters they hold. A call is undefined (\<open>UB\<close>) when it reads \<^verbatim>\<open>fd_table\<close> out
  of bounds or before it exists, or overflows a fixed array; it is \<open>Blocked\<close> when it waits on a
  semaphore or pipe that another thread has to serve.
\<close>

section \<open>State\<close>

record fd_elem =
  fd0 :: nat
  fd1 :: nat
  fd_write_count :: int
  fd_char_count :: int
  isIpv6 :: bool
  accept_sem :: nat
  read_sem :: nat
  socket :: nat

datatype fd_error = FD_OK | FD_SOCKET_NOT_FOUND | FD_SOCKET_IS_NULL | FD_ELEM_NOT_ALLOCATED
  | FD_SEM_NOT_ALLOCATED | FD_TABLE_WRITE_ON_NOT_NULL | FD_TABLE_MAX_SIZE_REACHED | FD_INVALID_ADDRESS
  | FD_INVALID_NETMASK | FD_PIPE_NOT_INITIALIZED | FD_INTERFACE_NOT_LINKED | FD_TABLE_INSERT_ERROR | FD_THREAD_ERROR

datatype device_type = DEVICE_VDE | DEVICE_TAP | DEVICE_TUN

record 's wrapper =
  FD_TABLE_SIZE :: nat
  MAX_FD :: nat
  fd_table :: "fd_elem option list option"
  fd_err :: fd_error
  vde_switch_name :: string
  macaddr :: bytes
  device_name :: string
  ipv4_mask_string :: string
  ipv6_mask_string :: string
  is_mac_changed :: bool
  pico_dev :: "nat option"
  device_type :: device_type
  thread_launched :: bool
  pipe_chars :: "nat \<Rightarrow> nat"
  stack :: 's

datatype ('a, 's) res = UB | Blocked | Done 'a "'s wrapper"

fun bind_res :: "('a, 's) res \<Rightarrow> ('a \<Rightarrow> 's wrapper \<Rightarrow> ('b, 's) res) \<Rightarrow> ('b, 's) res" where
  "bind_res UB k = UB"
| "bind_res Blocked k = Blocked"
| "bind_res (Done a w) k = k a w"

definition fail :: "fd_error \<Rightarrow> 's wrapper \<Rightarrow> (int, 's) res" where
  "fail e w = Done (- 1) (w\<lparr>fd_err := e\<rparr>)"

text \<open>The operations of picoTCP the wrapper calls, and the libc conversions of IPv6 addresses.\<close>

record 's pico_api =
  pico_stack_init :: "'s \<Rightarrow> 's"
  create_device :: "device_type \<Rightarrow> string \<Rightarrow> string \<Rightarrow> bytes \<Rightarrow> 's \<Rightarrow> nat option \<times> 's"
  pico_socket_open :: "bool \<Rightarrow> bool \<Rightarrow> 's \<Rightarrow> nat option \<times> 's"
  pico_ipv4_link_find :: "u32 \<Rightarrow> 's \<Rightarrow> bool"
  pico_ipv4_link_add :: "nat option \<Rightarrow> u32 \<Rightarrow> u32 \<Rightarrow> 's \<Rightarrow> bool \<times> 's"
  pico_ipv6_link_find :: "bytes \<Rightarrow> 's \<Rightarrow> bool"
  pico_ipv6_link_add :: "nat option \<Rightarrow> bytes \<Rightarrow> bytes \<Rightarrow> 's \<Rightarrow> bool \<times> 's"
  pico_string_to_ipv6 :: "string \<Rightarrow> bytes option"
  pico_ipv6_to_string :: "bytes \<Rightarrow> string"
  pico_socket_bind :: "nat \<Rightarrow> u32 + bytes \<Rightarrow> u16 \<Rightarrow> 's \<Rightarrow> int \<times> 's"
  pico_socket_listen :: "nat \<Rightarrow> int \<Rightarrow> 's \<Rightarrow> int \<times> 's"
  pico_socket_connect :: "nat \<Rightarrow> u32 + bytes \<Rightarrow> u16 \<Rightarrow> 's \<Rightarrow> int \<times> 's"
  pico_socket_accept :: "nat \<Rightarrow> 's \<Rightarrow> (nat \<times> (u32 + bytes) \<times> u16) option \<times> 's"
  pico_socket_write :: "nat \<Rightarrow> bytes \<Rightarrow> int \<Rightarrow> 's \<Rightarrow> int \<times> 's"
  pico_socket_read :: "nat \<Rightarrow> int \<Rightarrow> 's \<Rightarrow> (int \<times> bytes) \<times> 's"
  pico_socket_close :: "nat \<Rightarrow> 's \<Rightarrow> int \<times> 's"
  inet_ntop6 :: "bytes \<Rightarrow> string"
  inet_pton6 :: "string \<Rightarrow> bytes"

section \<open>The descriptor table\<close>

text \<open>Reading \<^verbatim>\<open>fd_table[fd]\<close>: \<open>None\<close> is undefined behaviour.\<close>

definition tbl :: "int \<Rightarrow> 's wrapper \<Rightarrow> fd_elem option option" where
  "tbl fd w = (case fd_table w of
       None \<Rightarrow> None
     | Some t \<Rightarrow> if 0 \<le> fd \<and> nat fd < length t then Some (t ! nat fd) else None)"

definition tbl_set :: "int \<Rightarrow> fd_elem option \<Rightarrow> 's wrapper \<Rightarrow> 's wrapper" where
  "tbl_set fd e w = w\<lparr>fd_table := map_option (\<lambda>t. t[nat fd := e]) (fd_table w)\<rparr>"

definition get_socket_from_fd :: "int \<Rightarrow> 's wrapper \<Rightarrow> nat option option" where
  "get_socket_from_fd fd w = map_option (map_option socket) (tbl fd w)"

definition get_fd_elem_from_fd :: "int \<Rightarrow> 's wrapper \<Rightarrow> fd_elem option option" where
  "get_fd_elem_from_fd fd w = tbl fd w"

fun find_socket :: "nat \<Rightarrow> nat \<Rightarrow> fd_elem option list \<Rightarrow> (nat \<times> fd_elem) option" where
  "find_socket s i [] = None"
| "find_socket s i (e # es) =
     (case e of Some l \<Rightarrow> if socket l = s then Some (i, l) else find_socket s (i + 1) es
      | None \<Rightarrow> find_socket s (i + 1) es)"

definition get_fd_elem_from_socket :: "nat \<Rightarrow> 's wrapper \<Rightarrow> fd_elem option option" where
  "get_fd_elem_from_socket s w = map_option (\<lambda>t. map_option snd (find_socket s 0 t)) (fd_table w)"

definition is_socket_in_table :: "nat \<Rightarrow> 's wrapper \<Rightarrow> nat option" where
  "is_socket_in_table s w =
     map_option (\<lambda>t. case find_socket s 0 t of Some (i, _) \<Rightarrow> i | None \<Rightarrow> 0) (fd_table w)"

record create_mem =
  mem_elem :: bool
  mem_sems :: bool
  sem_inits :: bool
  mem_table :: bool

text \<open>The table is doubled once, whatever the descriptor is.\<close>

definition fd_elem_create :: "create_mem \<Rightarrow> nat \<Rightarrow> nat \<Rightarrow> nat \<Rightarrow> 's wrapper \<Rightarrow> (int, 's) res" where
  "fd_elem_create mem a b s w =
     (if \<not> mem_elem mem then fail FD_ELEM_NOT_ALLOCATED w
      else if \<not> mem_sems mem then fail FD_SEM_NOT_ALLOCATED w
      else if \<not> sem_inits mem then Done (- 1) w
      else
        let l = \<lparr>fd0 = a, fd1 = b, fd_write_count = 0, fd_char_count = 0, isIpv6 = False,
                 accept_sem = 0, read_sem = 0, socket = s\<rparr>;
            grown = (if a \<ge> FD_TABLE_SIZE w \<or> b \<ge> FD_TABLE_SIZE w then
                       (if 2 * FD_TABLE_SIZE w > MAX_FD w then fail FD_TABLE_MAX_SIZE_REACHED w
                        else if \<not> mem_table mem then Done (- 1) w
                        else case fd_table w of
                          None \<Rightarrow> UB
                        | Some t \<Rightarrow> if length t < FD_TABLE_SIZE w then UB
                            else Done 0 (w\<lparr>fd_table := Some (take (FD_TABLE_SIZE w) t @ replicate (FD_TABLE_SIZE w) None),
                                          FD_TABLE_SIZE := 2 * FD_TABLE_SIZE w\<rparr>))
                     else Done 0 w)
        in bind_res grown (\<lambda>r w1.
             if r = - 1 then Done (- 1) w1
             else case tbl (int a) w1 of
               None \<Rightarrow> UB
             | Some (Some _) \<Rightarrow> fail FD_TABLE_WRITE_ON_NOT_NULL w1
             | Some None \<Rightarrow> Done (int a) (tbl_set (int a) (Some l) w1)))"

section \<open>Initialisation\<close>

definition mac_of_pid :: "nat \<Rightarrow> bytes \<Rightarrow> bytes" where
  "mac_of_pid pid mac = mac[4 := mac ! 4 XOR of_nat (pid div 256), 5 := mac ! 5 XOR of_nat (pid mod 256)]"

text \<open>
  What the kernel and the C library decide in a call: the descriptors of \<^verbatim>\<open>pipe\<close>, the allocations, the
  result of \<^verbatim>\<open>pthread_create\<close>, the process id and the limit on descriptors.
\<close>

record kernel =
  pipe_fds :: "(nat \<times> nat) option"
  mem :: create_mem
  mem_init :: bool
  pthread_err :: int
  rlim_cur :: nat
  pid :: nat

text \<open>\<^verbatim>\<open>char device_name[8]\<close> and \<^verbatim>\<open>char pid_string[8]\<close> bound the name the process id is appended to.\<close>

definition init :: "'s pico_api \<Rightarrow> kernel \<Rightarrow> 's wrapper \<Rightarrow> (unit, 's) res" where
  "init api k w =
     (if \<not> mem_init k then UB
      else
        let w1 = w\<lparr>fd_table := Some (replicate (FD_TABLE_SIZE w) None), MAX_FD := rlim_cur k,
                   stack := pico_stack_init api (stack w)\<rparr>;
            w2 = (if \<not> is_mac_changed w1 then w1\<lparr>macaddr := mac_of_pid (pid k) (macaddr w1)\<rparr> else w1);
            name = device_name w2 @ decimal (pid k)
        in if length (decimal (pid k)) + 1 > 8 \<or> length name + 1 > 8 then UB
           else
             let w3 = w2\<lparr>device_name := name\<rparr>;
                 (d, s) = create_device api (device_type w3) (vde_switch_name w3) name (macaddr w3) (stack w3);
                 w4 = w3\<lparr>pico_dev := d, stack := s\<rparr>
             in Done () (if pthread_err k = - 1 then w4\<lparr>fd_err := FD_THREAD_ERROR\<rparr> else w4))"

section \<open>Semaphores and wake-ups\<close>

definition sem_post_once :: "nat \<Rightarrow> nat" where
  "sem_post_once v = (if v > 0 then v else v + 1)"

definition unlock_accept :: "fd_elem \<Rightarrow> fd_elem" where
  "unlock_accept l = l\<lparr>accept_sem := sem_post_once (accept_sem l)\<rparr>"

definition unlock_read :: "fd_elem \<Rightarrow> fd_elem" where
  "unlock_read l = l\<lparr>read_sem := sem_post_once (read_sem l)\<rparr>"

fun upd_socket :: "nat \<Rightarrow> (fd_elem \<Rightarrow> fd_elem) \<Rightarrow> fd_elem option list \<Rightarrow> fd_elem option list" where
  "upd_socket s h [] = []"
| "upd_socket s h (e # es) =
     (case e of Some l \<Rightarrow> if socket l = s then Some (h l) # es else e # upd_socket s h es
      | None \<Rightarrow> e # upd_socket s h es)"

definition upd_elem :: "nat \<Rightarrow> (fd_elem \<Rightarrow> fd_elem) \<Rightarrow> 's wrapper \<Rightarrow> 's wrapper" where
  "upd_elem s h w = w\<lparr>fd_table := map_option (upd_socket s h) (fd_table w)\<rparr>"

definition PICO_SOCK_EV_RD :: u16 where "PICO_SOCK_EV_RD = 1"
definition PICO_SOCK_EV_CONN :: u16 where "PICO_SOCK_EV_CONN = 4"

definition handle_wakeup :: "u16 \<Rightarrow> nat \<Rightarrow> 's wrapper \<Rightarrow> (unit, 's) res" where
  "handle_wakeup ev s w =
     (case get_fd_elem_from_socket s w of
        None \<Rightarrow> UB
      | Some None \<Rightarrow>
          if ev AND PICO_SOCK_EV_CONN \<noteq> 0 \<or> ev AND PICO_SOCK_EV_RD \<noteq> 0
          then Done () (w\<lparr>fd_err := FD_SOCKET_NOT_FOUND\<rparr>) else Done () w
      | Some (Some l) \<Rightarrow>
          let w1 = (if ev AND PICO_SOCK_EV_CONN \<noteq> 0 then upd_elem s unlock_accept w else w);
              w2 = (if ev AND PICO_SOCK_EV_RD \<noteq> 0
                    then (upd_elem s (\<lambda>l. unlock_read (l\<lparr>fd_write_count := fd_write_count l + 1\<rparr>)) w1)
                           \<lparr>pipe_chars := (pipe_chars w1)(fd0 l := pipe_chars w1 (fd0 l) + 1)\<rparr>
                    else w1)
          in Done () w2)"

section \<open>The adapter\<close>

definition isIpv4_str :: "string \<Rightarrow> bool" where
  "isIpv4_str a \<longleftrightarrow> list_ex (\<lambda>c. c = CHR ''.'') a"

definition isIpv6_str :: "string \<Rightarrow> bool" where
  "isIpv6_str a \<longleftrightarrow> list_ex (\<lambda>c. c = CHR '':'') a"

definition fd_pico_socket_open :: "'s pico_api \<Rightarrow> kernel \<Rightarrow> bool \<Rightarrow> bool \<Rightarrow> 's wrapper \<Rightarrow> (int, 's) res" where
  "fd_pico_socket_open api k ip6 tcp w =
     bind_res (if \<not> thread_launched w then init api k (w\<lparr>thread_launched := True\<rparr>) else Done () w)
       (\<lambda>_ w1.
          case pico_socket_open api ip6 tcp (stack w1) of
            (None, s1) \<Rightarrow> fail FD_SOCKET_IS_NULL (w1\<lparr>stack := s1\<rparr>)
          | (Some s, s1) \<Rightarrow>
              let w2 = w1\<lparr>stack := s1\<rparr> in
              (case pipe_fds k of
                 None \<Rightarrow> fail FD_PIPE_NOT_INITIALIZED w2
               | Some (a, b) \<Rightarrow>
                   bind_res (fd_elem_create (mem k) a b s (w2\<lparr>pipe_chars := (pipe_chars w2)(a := 0)\<rparr>))
                     (\<lambda>new_fd w3.
                        if new_fd < 0 then Done (- 1) w3
                        else case tbl new_fd w3 of
                          Some (Some l) \<Rightarrow> Done new_fd (tbl_set new_fd (Some (l\<lparr>isIpv6 := ip6\<rparr>)) w3)
                        | _ \<Rightarrow> UB)))"

text \<open>\<open>polls\<close> are the states of the stack at the successive turns of the waiting loop with the seconds
  elapsed; the stack thread runs in between. The list running out means the loop still waits.\<close>

fun dad_wait :: "'s pico_api \<Rightarrow> bytes \<Rightarrow> (nat \<times> 's) list \<Rightarrow> 's \<Rightarrow> (bool \<times> 's) option" where
  "dad_wait api a polls s =
     (if pico_ipv6_link_find api a s then Some (True, s)
      else case polls of
        [] \<Rightarrow> None
      | (elapsed, s') # rest \<Rightarrow> if elapsed \<ge> 3 then Some (False, s) else dad_wait api a rest s')"

definition call :: "int \<times> 's \<Rightarrow> 's wrapper \<Rightarrow> (int, 's) res" where
  "call r w = Done (fst r) (w\<lparr>stack := snd r\<rparr>)"

definition fd_pico_socket_bind ::
  "'s pico_api \<Rightarrow> (nat \<times> 's) list \<Rightarrow> int \<Rightarrow> string \<Rightarrow> u16 \<Rightarrow> 's wrapper \<Rightarrow> (int, 's) res" where
  "fd_pico_socket_bind api polls fd a port w =
     (case get_socket_from_fd fd w of
        None \<Rightarrow> UB
      | Some None \<Rightarrow> fail FD_SOCKET_NOT_FOUND w
      | Some (Some s) \<Rightarrow>
          if isIpv4_str a then
            (case pico_string_to_ipv4 a of
               None \<Rightarrow> fail FD_INVALID_ADDRESS w
             | Some ip \<Rightarrow>
                 (case pico_string_to_ipv4 (ipv4_mask_string w) of
                    None \<Rightarrow> fail FD_INVALID_NETMASK w
                  | Some nm \<Rightarrow>
                      let (ok, s1) = (if \<not> pico_ipv4_link_find api ip (stack w)
                                      then pico_ipv4_link_add api (pico_dev w) ip nm (stack w) else (True, stack w));
                          w1 = w\<lparr>stack := s1\<rparr>
                      in if \<not> ok then fail FD_INTERFACE_NOT_LINKED w1
                         else call (pico_socket_bind api s (Inl ip) port (stack w1)) w1))
          else if isIpv6_str a then
            (case pico_string_to_ipv6 api a of
               None \<Rightarrow> fail FD_INVALID_ADDRESS w
             | Some ip \<Rightarrow>
                 (case pico_string_to_ipv6 api (ipv6_mask_string w) of
                    None \<Rightarrow> fail FD_INVALID_NETMASK w
                  | Some nm \<Rightarrow>
                      let (ok, s1) = (if \<not> pico_ipv6_link_find api ip (stack w)
                                      then pico_ipv6_link_add api (pico_dev w) ip nm (stack w) else (True, stack w));
                          w1 = w\<lparr>stack := s1\<rparr>
                      in if \<not> ok then fail FD_INTERFACE_NOT_LINKED w1
                         else case dad_wait api ip polls (stack w1) of
                           None \<Rightarrow> Blocked
                         | Some (False, s2) \<Rightarrow> fail FD_INTERFACE_NOT_LINKED (w1\<lparr>stack := s2\<rparr>)
                         | Some (True, s2) \<Rightarrow> call (pico_socket_bind api s (Inr ip) port s2) (w1\<lparr>stack := s2\<rparr>)))
          else fail FD_INVALID_ADDRESS w)"

definition fd_pico_socket_listen :: "'s pico_api \<Rightarrow> int \<Rightarrow> int \<Rightarrow> 's wrapper \<Rightarrow> (int, 's) res" where
  "fd_pico_socket_listen api fd backlog w =
     (case get_socket_from_fd fd w of
        None \<Rightarrow> UB
      | Some None \<Rightarrow> fail FD_SOCKET_NOT_FOUND w
      | Some (Some s) \<Rightarrow> call (pico_socket_listen api s backlog (stack w)) w)"

definition fd_pico_socket_connect :: "'s pico_api \<Rightarrow> int \<Rightarrow> string \<Rightarrow> u16 \<Rightarrow> 's wrapper \<Rightarrow> (int, 's) res" where
  "fd_pico_socket_connect api fd a port w =
     (case get_fd_elem_from_fd fd w of
        None \<Rightarrow> UB
      | Some None \<Rightarrow> fail FD_SOCKET_NOT_FOUND w
      | Some (Some l) \<Rightarrow>
          if \<not> isIpv6 l then
            (case pico_string_to_ipv4 a of
               None \<Rightarrow> fail FD_INVALID_ADDRESS w
             | Some ip \<Rightarrow> call (pico_socket_connect api (socket l) (Inl ip) port (stack w)) w)
          else
            (case pico_string_to_ipv6 api a of
               None \<Rightarrow> fail FD_INVALID_ADDRESS w
             | Some ip \<Rightarrow> call (pico_socket_connect api (socket l) (Inr ip) port (stack w)) w))"

definition waiton :: "nat \<Rightarrow> nat option" where
  "waiton v = (if v = 0 then None else Some (v - 1))"

text \<open>
  The peer's address is written through \<^verbatim>\<open>void *\<close> into a \<^verbatim>\<open>pico_ip4\<close> or a zeroed \<^verbatim>\<open>pico_ip6\<close>, chosen by
  \<^verbatim>\<open>isIpv6\<close>: sixteen bytes do not fit the first, four bytes leave the rest of the second zero.
\<close>

definition peer_string :: "'s pico_api \<Rightarrow> bool \<Rightarrow> u32 + bytes \<Rightarrow> string option" where
  "peer_string api ip6 peer =
     (case peer of
        Inl ip \<Rightarrow> Some (if ip6 then pico_ipv6_to_string api (bytes_of_u32 ip @ replicate 12 0) else pico_ipv4_to_string ip)
      | Inr ip \<Rightarrow> if ip6 then Some (pico_ipv6_to_string api ip) else None)"

text \<open>The result carries the address string and the port written through the pointers. The result of
  \<^verbatim>\<open>pipe\<close> is not looked at: without a pipe the descriptors are indeterminate.\<close>

definition fd_pico_socket_accept ::
  "'s pico_api \<Rightarrow> kernel \<Rightarrow> int \<Rightarrow> 's wrapper \<Rightarrow> (int \<times> (string \<times> u16) option, 's) res" where
  "fd_pico_socket_accept api k fd w =
     (case get_fd_elem_from_fd fd w of
        None \<Rightarrow> UB
      | Some None \<Rightarrow> bind_res (fail FD_SOCKET_NOT_FOUND w) (\<lambda>r w. Done (r, None) w)
      | Some (Some l) \<Rightarrow>
          (case waiton (accept_sem l) of
             None \<Rightarrow> Blocked
           | Some v \<Rightarrow>
               let w1 = tbl_set fd (Some (l\<lparr>accept_sem := v\<rparr>)) w in
               (case pico_socket_accept api (socket l) (stack w1) of
                  (None, s1) \<Rightarrow> bind_res (fail FD_SOCKET_IS_NULL (w1\<lparr>stack := s1\<rparr>)) (\<lambda>r w. Done (r, None) w)
                | (Some (c, peer, port), s1) \<Rightarrow>
                    let w2 = w1\<lparr>stack := s1\<rparr> in
                    (case (peer_string api (isIpv6 l) peer, pipe_fds k) of
                         (Some str, Some (a, b)) \<Rightarrow>
                           bind_res (fd_elem_create (mem k) a b c (w2\<lparr>pipe_chars := (pipe_chars w2)(a := 0)\<rparr>))
                             (\<lambda>new_fd w3.
                                if new_fd < 0 then Done (- 1, Some (str, port)) w3
                                else if isIpv6 l then
                                  (case tbl new_fd w3 of
                                     None \<Rightarrow> UB
                                   | Some None \<Rightarrow> Done (new_fd, Some (str, port)) w3
                                   | Some (Some nl) \<Rightarrow>
                                       Done (new_fd, Some (str, port)) (tbl_set new_fd (Some (nl\<lparr>isIpv6 := True\<rparr>)) w3))
                                else Done (new_fd, Some (str, port)) w3)
                       | _ \<Rightarrow> UB))))"

definition fd_pico_socket_write :: "'s pico_api \<Rightarrow> int \<Rightarrow> bytes \<Rightarrow> int \<Rightarrow> 's wrapper \<Rightarrow> (int, 's) res" where
  "fd_pico_socket_write api fd buf len w =
     (case get_fd_elem_from_fd fd w of
        None \<Rightarrow> UB
      | Some None \<Rightarrow> fail FD_SOCKET_NOT_FOUND w
      | Some (Some l) \<Rightarrow> call (pico_socket_write api (socket l) buf len (stack w)) w)"

text \<open>The drain loop reads up to ten characters at a time and blocks on an empty pipe.\<close>

function drain :: "int \<Rightarrow> nat \<Rightarrow> (int \<times> nat) option" where
  "drain count chars =
     (if count > 0 then (if chars = 0 then None else drain (count - int (min 10 chars)) (chars - min 10 chars))
      else Some (count, chars))"
  by pat_completeness auto
termination
  by (relation "measure snd") auto

declare drain.simps [simp del]

definition fd_pico_socket_read :: "'s pico_api \<Rightarrow> int \<Rightarrow> int \<Rightarrow> 's wrapper \<Rightarrow> (int \<times> bytes, 's) res" where
  "fd_pico_socket_read api fd len w =
     (case get_fd_elem_from_fd fd w of
        None \<Rightarrow> UB
      | Some None \<Rightarrow> bind_res (fail FD_SOCKET_NOT_FOUND w) (\<lambda>r w. Done (r, []) w)
      | Some (Some l) \<Rightarrow>
          (case waiton (read_sem l) of
             None \<Rightarrow> Blocked
           | Some v \<Rightarrow>
               (case drain (fd_write_count l) (pipe_chars w (fd0 l)) of
                  None \<Rightarrow> Blocked
                | Some (cnt, chars) \<Rightarrow>
                    let l1 = l\<lparr>read_sem := v, fd_write_count := cnt\<rparr>;
                        w1 = (tbl_set fd (Some l1) w)\<lparr>pipe_chars := (pipe_chars w)(fd0 l := chars)\<rparr>;
                        ((read_len, buf), s1) = pico_socket_read api (socket l) len (stack w1);
                        w2 = w1\<lparr>stack := s1\<rparr>
                    in if len = read_len then Done (read_len, buf) (tbl_set fd (Some (unlock_read l1)) w2)
                       else Done (read_len, buf) w2)))"

section \<open>Closing\<close>

text \<open>
  \<^verbatim>\<open>fd_elem_delete\<close> closes the two ends of the pipe with \<^verbatim>\<open>close\<close>, which in both libraries is the
  one of \<^verbatim>\<open>socket.c\<close>; that one calls \<^verbatim>\<open>fd_pico_socket_close\<close> for a descriptor of the table, which
  calls \<^verbatim>\<open>fd_elem_delete\<close>. The first two take the \<^verbatim>\<open>close\<close> they call as an argument and \<open>close_fd\<close>
  ties the knot; \<open>depth\<close> is the room left on the call stack, and \<open>None\<close> means it is exhausted.
\<close>

type_synonym 's closer = "int \<Rightarrow> 's wrapper \<Rightarrow> (int, 's) res option"

definition then_close :: "(int, 's) res option \<Rightarrow> ('s wrapper \<Rightarrow> (int, 's) res option) \<Rightarrow> (int, 's) res option" where
  "then_close r k = (case r of Some (Done _ w) \<Rightarrow> k w | _ \<Rightarrow> r)"

definition fd_elem_delete :: "'s closer \<Rightarrow> int \<Rightarrow> 's wrapper \<Rightarrow> (int, 's) res option" where
  "fd_elem_delete close fd w =
     (case tbl fd w of
        None \<Rightarrow> Some UB
      | Some None \<Rightarrow> Some (Done (- 1) w)
      | Some (Some l) \<Rightarrow>
          then_close (close (int (fd0 l)) w) (\<lambda>w1.
            case tbl fd w1 of
              Some (Some l1) \<Rightarrow> then_close (close (int (fd1 l1)) w1) (\<lambda>w2. Some (Done 0 (tbl_set fd None w2)))
            | _ \<Rightarrow> Some UB))"

definition fd_pico_socket_close :: "'s pico_api \<Rightarrow> 's closer \<Rightarrow> int \<Rightarrow> 's wrapper \<Rightarrow> (int, 's) res option" where
  "fd_pico_socket_close api close fd w =
     (case get_socket_from_fd fd w of
        None \<Rightarrow> Some UB
      | Some None \<Rightarrow> Some (fail FD_SOCKET_NOT_FOUND w)
      | Some (Some s) \<Rightarrow>
          let (ret, s1) = pico_socket_close api s (stack w)
          in then_close (fd_elem_delete close fd (w\<lparr>stack := s1\<rparr>)) (\<lambda>w2. Some (Done ret w2)))"

fun close_fd :: "'s pico_api \<Rightarrow> (int \<Rightarrow> int) \<Rightarrow> nat \<Rightarrow> 's closer" where
  "close_fd api sys_close 0 fd w = None"
| "close_fd api sys_close (Suc depth) fd w =
     (case get_socket_from_fd fd w of
        None \<Rightarrow> Some UB
      | Some None \<Rightarrow> Some (Done (sys_close fd) w)
      | Some (Some s) \<Rightarrow> fd_pico_socket_close api (close_fd api sys_close depth) fd w)"

section \<open>Settings\<close>

definition set_device_mac :: "bytes \<Rightarrow> 's wrapper \<Rightarrow> 's wrapper" where
  "set_device_mac mac w = w\<lparr>is_mac_changed := True, macaddr := take 6 mac\<rparr>"

definition set_interface_name :: "string \<Rightarrow> 's wrapper \<Rightarrow> (unit, 's) res" where
  "set_interface_name name w = (if length name + 1 > 256 then UB else Done () (w\<lparr>vde_switch_name := name\<rparr>))"

text \<open>The value of the successful call is indeterminate: the function ends without \<^verbatim>\<open>return\<close>.\<close>

definition set_device_type :: "device_type option \<Rightarrow> 's wrapper \<Rightarrow> (int option, 's) res" where
  "set_device_type type w =
     (case type of
        None \<Rightarrow> Done (Some (- 1)) w
      | Some t \<Rightarrow>
          bind_res (set_interface_name (case t of DEVICE_VDE \<Rightarrow> ''/tmp/vde.ctl'' | DEVICE_TAP \<Rightarrow> ''tap''
                                          | DEVICE_TUN \<Rightarrow> ''tun'') w)
            (\<lambda>_ w1. Done None (w1\<lparr>device_type := t\<rparr>)))"

definition set_switch_path :: "string \<Rightarrow> 's wrapper \<Rightarrow> (unit, 's) res" where
  "set_switch_path p w = (if length p + 1 > 256 then UB else Done () (w\<lparr>vde_switch_name := p\<rparr>))"

definition set_ipv4_netmask :: "string \<Rightarrow> 's wrapper \<Rightarrow> (unit, 's) res" where
  "set_ipv4_netmask m w = (if length m + 1 > 16 then UB else Done () (w\<lparr>ipv4_mask_string := m\<rparr>))"

definition set_ipv6_netmask :: "string \<Rightarrow> 's wrapper \<Rightarrow> (unit, 's) res" where
  "set_ipv6_netmask m w = (if length m + 1 > 100 then UB else Done () (w\<lparr>ipv6_mask_string := m\<rparr>))"

definition fd_perror :: "'s wrapper \<Rightarrow> string" where
  "fd_perror w = ''fd_perror: '' @ (case fd_err w of
       FD_OK \<Rightarrow> ''OK''
     | FD_SOCKET_NOT_FOUND \<Rightarrow> ''Socket not found''
     | FD_SOCKET_IS_NULL \<Rightarrow> ''Socket is null''
     | FD_ELEM_NOT_ALLOCATED \<Rightarrow> ''Error allocating fd element''
     | FD_SEM_NOT_ALLOCATED \<Rightarrow> ''Error allocating semaphore''
     | FD_TABLE_WRITE_ON_NOT_NULL \<Rightarrow> ''Writing on not-null element''
     | FD_TABLE_MAX_SIZE_REACHED \<Rightarrow> ''Max number of file descriptor reached''
     | FD_INVALID_ADDRESS \<Rightarrow> ''Invalid address''
     | FD_INVALID_NETMASK \<Rightarrow> ''Invalid netmask''
     | FD_PIPE_NOT_INITIALIZED \<Rightarrow> ''Error initializing pipe''
     | FD_INTERFACE_NOT_LINKED \<Rightarrow> ''Error linking picotcp interface''
     | FD_TABLE_INSERT_ERROR \<Rightarrow> ''Error inserting elemet in table''
     | FD_THREAD_ERROR \<Rightarrow> ''Error launching init thread'') @ [CHR 0x0A]"

section \<open>Invariant\<close>

definition elem_ok :: "(nat \<Rightarrow> nat) \<Rightarrow> nat \<Rightarrow> fd_elem \<Rightarrow> bool" where
  "elem_ok chars i l \<longleftrightarrow> fd0 l = i \<and> accept_sem l \<le> 1 \<and> read_sem l \<le> 1 \<and> fd_write_count l = int (chars i)"

definition table_ok :: "nat \<Rightarrow> (nat \<Rightarrow> nat) \<Rightarrow> fd_elem option list \<Rightarrow> bool" where
  "table_ok n chars t \<longleftrightarrow> length t = n \<and> (\<forall>i<n. \<forall>l. t ! i = Some l \<longrightarrow> elem_ok chars i l)"

definition wrap_inv :: "'s wrapper \<Rightarrow> bool" where
  "wrap_inv w \<longleftrightarrow> (case fd_table w of None \<Rightarrow> True | Some t \<Rightarrow> table_ok (FD_TABLE_SIZE w) (pipe_chars w) t)"

named_theorems wrap_simps "projections and updates of the wrapper's state"

lemma wrap_inv_stack [wrap_simps]: "wrap_inv (w\<lparr>stack := s\<rparr>) \<longleftrightarrow> wrap_inv w"
  "wrap_inv (w\<lparr>fd_err := e\<rparr>) \<longleftrightarrow> wrap_inv w"
  by (simp_all add: wrap_inv_def split: option.split)

lemma tblD: "wrap_inv w \<Longrightarrow> tbl fd w = Some (Some l) \<Longrightarrow>
    0 \<le> fd \<and> elem_ok (pipe_chars w) (nat fd) l \<and> int (fd0 l) = fd"
  by (auto simp: wrap_inv_def tbl_def table_ok_def elem_ok_def split: option.splits if_splits)

text \<open>Changing one entry, and the characters of its own pipe only, keeps the invariant.\<close>

lemma wrap_inv_set:
  assumes "wrap_inv w" "tbl fd w \<noteq> None" "\<And>l. e = Some l \<Longrightarrow> elem_ok chars (nat fd) l"
    and "\<And>i. i \<noteq> nat fd \<Longrightarrow> chars i = pipe_chars w i"
  shows "wrap_inv ((tbl_set fd e w)\<lparr>pipe_chars := chars\<rparr>)"
  using assms
  by (auto simp: wrap_inv_def tbl_set_def tbl_def table_ok_def nth_list_update elem_ok_def
      split: option.splits if_splits)

lemma wrap_inv_set_same:
  assumes "wrap_inv w" "tbl fd w \<noteq> None" "\<And>l. e = Some l \<Longrightarrow> elem_ok (pipe_chars w) (nat fd) l"
  shows "wrap_inv (tbl_set fd e w)"
  using assms
  by (auto simp: wrap_inv_def tbl_set_def tbl_def table_ok_def nth_list_update split: option.splits if_splits)

text \<open>\<^verbatim>\<open>pipe\<close> returns descriptors that are not open, so not those of a live entry.\<close>

definition pipe_fresh :: "kernel \<Rightarrow> 's wrapper \<Rightarrow> bool" where
  "pipe_fresh k w \<longleftrightarrow> (case pipe_fds k of None \<Rightarrow> True | Some (a, b) \<Rightarrow> (\<forall>l. tbl (int a) w \<noteq> Some (Some l)))"

lemma create_inv:
  assumes inv: "wrap_inv w" and fresh: "\<forall>l. tbl (int a) w \<noteq> Some (Some l)"
    and r: "fd_elem_create m a b s (w\<lparr>pipe_chars := (pipe_chars w)(a := 0)\<rparr>) = Done r w'"
  shows "wrap_inv w'"
proof -
  let ?w = "w\<lparr>pipe_chars := (pipe_chars w)(a := 0)\<rparr>"
  have tw: "tbl fd ?w = tbl fd w" for fd by (simp add: tbl_def)
  have inv0: "wrap_inv ?w"
    using inv fresh by (auto simp: wrap_inv_def tbl_def table_ok_def elem_ok_def split: option.splits if_splits)
  have grow: "wrap_inv (?w\<lparr>fd_table := Some (take (FD_TABLE_SIZE w) t @ replicate (FD_TABLE_SIZE w) None),
      FD_TABLE_SIZE := 2 * FD_TABLE_SIZE w\<rparr>)" if "fd_table w = Some t" for t
    using inv0 that by (auto simp: wrap_inv_def table_ok_def nth_append split: if_splits)
  show ?thesis
    using r inv0 grow unfolding fd_elem_create_def fail_def
    by (auto simp: Let_def wrap_simps elem_ok_def intro!: wrap_inv_set_same split: if_splits option.splits)
qed

lemma tbl_set_pipe: "(tbl_set fd e w)\<lparr>pipe_chars := p\<rparr> = tbl_set fd e (w\<lparr>pipe_chars := p\<rparr>)"
  by (simp add: tbl_set_def)

lemma bind_res_Done: "bind_res r k = Done a w \<longleftrightarrow> (\<exists>b w'. r = Done b w' \<and> k b w' = Done a w)"
  by (cases r) auto

lemma call_inv [wrap_simps]: "call r w = Done a w' \<Longrightarrow> wrap_inv w \<Longrightarrow> wrap_inv w'"
  by (auto simp: call_def wrap_simps)

lemma fail_inv [wrap_simps]: "fail e w = Done a w' \<Longrightarrow> wrap_inv w \<Longrightarrow> wrap_inv w'"
  by (auto simp: fail_def wrap_simps)

lemma init_inv: "init api k w = Done u w' \<Longrightarrow> wrap_inv w'"
  by (auto simp: init_def Let_def wrap_inv_def table_ok_def split: if_splits prod.splits)

lemma init_no_live: "init api k w = Done u w' \<Longrightarrow> tbl fd w' \<noteq> Some (Some l)"
  by (auto simp: init_def Let_def tbl_def split: if_splits prod.splits)

lemma open_inv:
  assumes inv: "wrap_inv w" and k: "pipe_fresh k w" and r: "fd_pico_socket_open api k ip6 tcp w = Done a w'"
  shows "wrap_inv w'"
proof -
  obtain w1 where w1: "(if \<not> thread_launched w then init api k (w\<lparr>thread_launched := True\<rparr>)
      else Done () w) = Done () w1"
    using r unfolding fd_pico_socket_open_def bind_res_Done by auto
  have i1: "wrap_inv w1" using w1 inv init_inv by (auto split: if_splits)
  have f1: "pipe_fresh k w1"
  proof (cases "thread_launched w")
    case False
    then have "tbl fd w1 \<noteq> Some (Some l)" for fd l using w1 init_no_live by simp
    then show ?thesis by (auto simp: pipe_fresh_def split: option.split)
  qed (use w1 k in simp)
  obtain so s1 where so: "pico_socket_open api ip6 tcp (stack w1) = (so, s1)" by (cases "pico_socket_open api ip6 tcp (stack w1)")
  have r1: "(case (so, s1) of
            (None, s1) \<Rightarrow> fail FD_SOCKET_IS_NULL (w1\<lparr>stack := s1\<rparr>)
          | (Some s, s1) \<Rightarrow>
              let w2 = w1\<lparr>stack := s1\<rparr> in
              (case pipe_fds k of
                 None \<Rightarrow> fail FD_PIPE_NOT_INITIALIZED w2
               | Some (a, b) \<Rightarrow>
                   bind_res (fd_elem_create (mem k) a b s (w2\<lparr>pipe_chars := (pipe_chars w2)(a := 0)\<rparr>))
                     (\<lambda>new_fd w3.
                        if new_fd < 0 then Done (- 1) w3
                        else case tbl new_fd w3 of
                          Some (Some l) \<Rightarrow> Done new_fd (tbl_set new_fd (Some (l\<lparr>isIpv6 := ip6\<rparr>)) w3)
                        | _ \<Rightarrow> UB))) = Done a w'"
    using r w1 so unfolding fd_pico_socket_open_def by simp
  show ?thesis
  proof (cases so)
    case None
    then show ?thesis using r1 i1 by (auto simp: fail_def wrap_simps)
  next
    case (Some s)
    let ?w2 = "w1\<lparr>stack := s1\<rparr>"
    show ?thesis
    proof (cases "pipe_fds k")
      case None
      then show ?thesis using r1 Some i1 by (auto simp: fail_def wrap_simps)
    next
      case (Some q)
      then obtain x y where q: "pipe_fds k = Some (x, y)" by (cases q) auto
      obtain nf w3 where c: "fd_elem_create (mem k) x y s (?w2\<lparr>pipe_chars := (pipe_chars ?w2)(x := 0)\<rparr>) = Done nf w3"
          "(if nf < 0 then Done (- 1) w3 else case tbl nf w3 of
              Some (Some l) \<Rightarrow> Done nf (tbl_set nf (Some (l\<lparr>isIpv6 := ip6\<rparr>)) w3) | _ \<Rightarrow> UB) = Done a w'"
        using r1 \<open>so = Some s\<close> q by (auto simp: bind_res_Done)
      have "\<forall>l. tbl (int x) ?w2 \<noteq> Some (Some l)" using f1 q by (auto simp: pipe_fresh_def tbl_def)
      then have i3: "wrap_inv w3" using create_inv [of ?w2 x] c(1) i1 by (simp add: wrap_simps)
      show ?thesis
        using c(2) i3 tblD [OF i3, of nf]
        by (auto simp: elem_ok_def intro!: wrap_inv_set_same split: if_splits option.splits)
    qed
  qed
qed

lemma accept_inv:
  assumes inv: "wrap_inv w" and k: "pipe_fresh k w" and r: "fd_pico_socket_accept api k fd w = Done a w'"
  shows "wrap_inv w'"
proof (cases "tbl fd w")
  case None
  then show ?thesis using r by (simp add: fd_pico_socket_accept_def get_fd_elem_from_fd_def)
next
  case e: (Some e)
  show ?thesis
  proof (cases e)
    case None
    then show ?thesis using e r inv by (auto simp: fd_pico_socket_accept_def get_fd_elem_from_fd_def fail_def wrap_simps)
  next
    case l: (Some l)
    obtain v where v: "waiton (accept_sem l) = Some v"
      using r e l by (cases "waiton (accept_sem l)") (auto simp: fd_pico_socket_accept_def get_fd_elem_from_fd_def)
    define w1 where "w1 = tbl_set fd (Some (l\<lparr>accept_sem := v\<rparr>)) w"
    have lo: "elem_ok (pipe_chars w) (nat fd) l" using tblD [OF inv] e l by auto
    have i1: "wrap_inv w1"
      unfolding w1_def using lo e v by (intro wrap_inv_set_same [OF inv]) (auto simp: elem_ok_def waiton_def split: if_splits)
    obtain ac s1 where ac: "pico_socket_accept api (socket l) (stack w1) = (ac, s1)"
      by (cases "pico_socket_accept api (socket l) (stack w1)")
    show ?thesis
    proof (cases ac)
      case None
      then show ?thesis
        using r e l v ac i1 by (auto simp: fd_pico_socket_accept_def get_fd_elem_from_fd_def w1_def fail_def wrap_simps)
    next
      case (Some acc)
      obtain c peer port where acc: "acc = (c, peer, port)" by (cases acc)
      obtain x y where q: "pipe_fds k = Some (x, y)"
        using r e l v ac Some acc
        by (cases "pipe_fds k")
          (auto simp: fd_pico_socket_accept_def get_fd_elem_from_fd_def w1_def [symmetric] Let_def split: option.splits)
      let ?w2 = "w1\<lparr>stack := s1\<rparr>"
      have fr: "\<forall>l. tbl (int x) ?w2 \<noteq> Some (Some l)"
        using k q e l by (auto simp: pipe_fresh_def w1_def tbl_def tbl_set_def nth_list_update split: option.splits if_splits)
      obtain nf w3 where c: "fd_elem_create (mem k) x y c (?w2\<lparr>pipe_chars := (pipe_chars ?w2)(x := 0)\<rparr>) = Done nf w3"
          "w' = w3 \<or> (\<exists>nl. tbl nf w3 = Some (Some nl) \<and> w' = tbl_set nf (Some (nl\<lparr>isIpv6 := True\<rparr>)) w3)"
        using r e l v ac Some acc q
        by (auto simp: fd_pico_socket_accept_def get_fd_elem_from_fd_def w1_def [symmetric] Let_def bind_res_Done
            split: if_splits option.splits)
      have i3: "wrap_inv w3" using create_inv [of ?w2 x] c(1) i1 fr by (simp add: wrap_simps)
      show ?thesis
        using c(2) i3 tblD [OF i3, of nf] by (auto simp: elem_ok_def intro!: wrap_inv_set_same)
    qed
  qed
qed

lemma drain_exact: "drain (int n) n = Some (0, 0)"
proof (induction n rule: less_induct)
  case (less n)
  show ?case
  proof (cases "n = 0")
    case True
    then show ?thesis by (simp add: drain.simps)
  next
    case False
    have "drain (int n) n = drain (int (n - min 10 n)) (n - min 10 n)"
      using False by (subst drain.simps) (simp add: of_nat_diff)
    then show ?thesis using less.IH [of "n - min 10 n"] False by simp
  qed
qed

lemma read_result:
  assumes inv: "wrap_inv w" and t: "tbl fd w = Some (Some l)" and s: "read_sem l > 0"
  shows "\<exists>r w' l'. fd_pico_socket_read api fd len w = Done r w' \<and> wrap_inv w' \<and> pipe_chars w' (nat fd) = 0 \<and>
    tbl fd w' = Some (Some l') \<and> fd_write_count l' = 0 \<and> read_sem l' = (if fst r = len then 1 else 0)"
proof -
  have lo: "elem_ok (pipe_chars w) (nat fd) l" "0 \<le> fd" using tblD [OF inv t] by auto
  have sem: "waiton (read_sem l) = Some 0" using lo s by (auto simp: waiton_def elem_ok_def)
  have fd0: "fd0 l = nat fd" "fd_write_count l = int (pipe_chars w (nat fd))" using lo by (auto simp: elem_ok_def)
  define l1 where "l1 = l\<lparr>read_sem := 0, fd_write_count := 0\<rparr>"
  define w1 where "w1 = (tbl_set fd (Some l1) w)\<lparr>pipe_chars := (pipe_chars w)(nat fd := 0)\<rparr>"
  have ok1: "elem_ok ((pipe_chars w)(nat fd := 0)) (nat fd) l1" using lo by (auto simp: elem_ok_def l1_def)
  have i1: "wrap_inv w1" unfolding w1_def using ok1 t by (intro wrap_inv_set [OF inv]) auto
  obtain n buf s1 where rd: "pico_socket_read api (socket l) len (stack w) = ((n, buf), s1)"
    by (metis prod.exhaust)
  let ?w2 = "w1\<lparr>stack := s1\<rparr>"
  have t2: "tbl fd ?w2 = Some (Some l1)" using t by (auto simp: w1_def tbl_def tbl_set_def split: option.splits if_splits)
  have p2: "pipe_chars ?w2 = (pipe_chars w)(nat fd := 0)" by (simp add: w1_def)
  have res: "fd_pico_socket_read api fd len w =
      (if len = n then Done (n, buf) (tbl_set fd (Some (unlock_read l1)) ?w2) else Done (n, buf) ?w2)"
    using t sem fd0 drain_exact rd
    by (simp add: fd_pico_socket_read_def get_fd_elem_from_fd_def Let_def l1_def w1_def tbl_set_def)
  show ?thesis
  proof (cases "len = n")
    case True
    let ?w3 = "tbl_set fd (Some (unlock_read l1)) ?w2"
    have "wrap_inv ?w3"
      using i1 t2 ok1 p2
      by (intro wrap_inv_set_same) (auto simp: wrap_simps elem_ok_def unlock_read_def sem_post_once_def)
    moreover have "tbl fd ?w3 = Some (Some (unlock_read l1))"
      using t2 by (auto simp: tbl_def tbl_set_def split: option.splits if_splits)
    moreover have "pipe_chars ?w3 (nat fd) = 0" using p2 by (simp add: tbl_set_def)
    ultimately show ?thesis using res True by (auto simp: unlock_read_def sem_post_once_def l1_def)
  next
    case False
    then show ?thesis using res i1 t2 p2 by (auto simp: wrap_simps l1_def)
  qed
qed

lemma read_inv:
  assumes inv: "wrap_inv w" and r: "fd_pico_socket_read api fd len w = Done a w'"
  shows "wrap_inv w'"
proof (cases "tbl fd w")
  case None
  then show ?thesis using r by (simp add: fd_pico_socket_read_def get_fd_elem_from_fd_def)
next
  case e: (Some e)
  show ?thesis
  proof (cases e)
    case None
    then show ?thesis using e r inv by (auto simp: fd_pico_socket_read_def get_fd_elem_from_fd_def fail_def wrap_simps)
  next
    case (Some l)
    then have "read_sem l > 0" using e r by (auto simp: fd_pico_socket_read_def get_fd_elem_from_fd_def waiton_def split: if_splits)
    then show ?thesis using read_result [OF inv, of fd l api len] e Some r by auto
  qed
qed

lemma find_socket_nth:
  "find_socket s i t = Some (j, l) \<Longrightarrow> i \<le> j \<and> j < i + length t \<and> t ! (j - i) = Some l \<and> socket l = s \<and>
     (\<forall>h. upd_socket s h t = t[j - i := Some (h l)])"
proof (induction t arbitrary: i)
  case (Cons e es)
  show ?case
  proof (cases "\<exists>k. e = Some k \<and> socket k = s")
    case True
    then show ?thesis using Cons.prems by auto
  next
    case False
    then have fs: "find_socket s (i + 1) es = Some (j, l)" using Cons.prems by (auto split: option.splits if_splits)
    have u: "upd_socket s h (e # es) = e # upd_socket s h es" for h using False by (auto split: option.splits)
    have "i + 1 \<le> j \<and> j < i + 1 + length es \<and> es ! (j - (i + 1)) = Some l \<and> socket l = s \<and>
        (\<forall>h. upd_socket s h es = es[j - (i + 1) := Some (h l)])" using Cons.IH [OF fs] .
    moreover have "j - i = Suc (j - (i + 1))" using calculation by linarith
    ultimately show ?thesis using u by simp
  qed
qed simp

lemma upd_elem_set:
  assumes "get_fd_elem_from_socket s w = Some (Some l)"
  shows "\<exists>j. tbl (int j) w = Some (Some l) \<and> (\<forall>h. upd_elem s h w = tbl_set (int j) (Some (h l)) w)"
proof -
  obtain t where t: "fd_table w = Some t" using assms by (auto simp: get_fd_elem_from_socket_def)
  then obtain j where "find_socket s 0 t = Some (j, l)" using assms by (auto simp: get_fd_elem_from_socket_def)
  from find_socket_nth [OF this] t have "tbl (int j) w = Some (Some l) \<and> (\<forall>h. upd_elem s h w = tbl_set (int j) (Some (h l)) w)"
    by (auto simp: tbl_def upd_elem_def tbl_set_def)
  then show ?thesis by blast
qed

lemma elem_ok_unlock:
  "elem_ok c i l \<Longrightarrow> elem_ok c i (unlock_accept l)"
  "elem_ok c i l \<Longrightarrow> elem_ok (c(i := c i + 1)) i (unlock_read (l\<lparr>fd_write_count := fd_write_count l + 1\<rparr>))"
  by (auto simp: elem_ok_def unlock_accept_def unlock_read_def sem_post_once_def)

lemma upd_accept_inv:
  assumes "wrap_inv w" "get_fd_elem_from_socket s w = Some (Some l)"
  shows "wrap_inv (upd_elem s unlock_accept w)" "get_fd_elem_from_socket s (upd_elem s unlock_accept w) = Some (Some (unlock_accept l))"
proof -
  obtain j where j: "tbl (int j) w = Some (Some l)" "\<And>h. upd_elem s h w = tbl_set (int j) (Some (h l)) w"
    using upd_elem_set [OF assms(2)] by blast
  have "elem_ok (pipe_chars w) j l" using tblD [OF assms(1) j(1)] by simp
  then show "wrap_inv (upd_elem s unlock_accept w)"
    unfolding j(2) using j(1) by (intro wrap_inv_set_same [OF assms(1)]) (auto intro: elem_ok_unlock)
  have "map_option snd (find_socket s i (upd_socket s unlock_accept t)) = Some (unlock_accept l)"
    if "map_option snd (find_socket s i t) = Some l" for t i
    using that by (induction t arbitrary: i) (auto simp: unlock_accept_def split: option.splits if_splits)
  then show "get_fd_elem_from_socket s (upd_elem s unlock_accept w) = Some (Some (unlock_accept l))"
    using assms(2) by (auto simp: get_fd_elem_from_socket_def upd_elem_def)
qed

lemma wakeup_inv:
  assumes inv: "wrap_inv w" and r: "handle_wakeup ev s w = Done u w'"
  shows "wrap_inv w'"
proof (cases "get_fd_elem_from_socket s w")
  case None
  then show ?thesis using r by (simp add: handle_wakeup_def)
next
  case e: (Some e)
  show ?thesis
  proof (cases e)
    case None
    then show ?thesis using e r inv by (auto simp: handle_wakeup_def wrap_simps split: if_splits)
  next
    case l: (Some l)
    define w1 where "w1 = (if ev AND PICO_SOCK_EV_CONN \<noteq> 0 then upd_elem s unlock_accept w else w)"
    define l1 where "l1 = (if ev AND PICO_SOCK_EV_CONN \<noteq> 0 then unlock_accept l else l)"
    have i1: "wrap_inv w1" and g1: "get_fd_elem_from_socket s w1 = Some (Some l1)" and f1: "fd0 l1 = fd0 l"
      using upd_accept_inv [OF inv] e l inv by (auto simp: w1_def l1_def unlock_accept_def)
    obtain j where j: "tbl (int j) w1 = Some (Some l1)" "\<And>h. upd_elem s h w1 = tbl_set (int j) (Some (h l1)) w1"
      using upd_elem_set [OF g1] by blast
    have lo: "elem_ok (pipe_chars w1) j l1" "fd0 l1 = j" using tblD [OF i1 j(1)] by (auto simp: elem_ok_def)
    have w': "w' = (if ev AND PICO_SOCK_EV_RD \<noteq> 0
        then (upd_elem s (\<lambda>l. unlock_read (l\<lparr>fd_write_count := fd_write_count l + 1\<rparr>)) w1)
               \<lparr>pipe_chars := (pipe_chars w1)(fd0 l := pipe_chars w1 (fd0 l) + 1)\<rparr> else w1)"
      using r e l unfolding handle_wakeup_def w1_def Let_def by (simp split del: if_split)
    show ?thesis
    proof (cases "ev AND PICO_SOCK_EV_RD \<noteq> 0")
      case True
      have "wrap_inv ((tbl_set (int j) (Some (unlock_read (l1\<lparr>fd_write_count := fd_write_count l1 + 1\<rparr>))) w1)
          \<lparr>pipe_chars := (pipe_chars w1)(j := pipe_chars w1 j + 1)\<rparr>)"
        using j(1) elem_ok_unlock(2) [OF lo(1)] by (intro wrap_inv_set [OF i1]) auto
      then show ?thesis unfolding w' using True j(2) lo(2) f1 by simp
    next
      case False
      then show ?thesis using w' i1 by simp
    qed
  qed
qed

lemma bind_inv: "wrap_inv w \<Longrightarrow> fd_pico_socket_bind api polls fd a port w = Done r w' \<Longrightarrow> wrap_inv w'"
  unfolding fd_pico_socket_bind_def
  by (auto simp: Let_def fail_def call_def wrap_simps split: option.splits if_splits prod.splits bool.splits)

lemma connect_inv: "wrap_inv w \<Longrightarrow> fd_pico_socket_connect api fd a port w = Done r w' \<Longrightarrow> wrap_inv w'"
  unfolding fd_pico_socket_connect_def
  by (auto simp: fail_def call_def wrap_simps split: option.splits if_splits)

lemma listen_write_inv:
  "wrap_inv w \<Longrightarrow> fd_pico_socket_listen api fd n w = Done r w' \<Longrightarrow> wrap_inv w'"
  "wrap_inv w \<Longrightarrow> fd_pico_socket_write api fd buf n w = Done r w' \<Longrightarrow> wrap_inv w'"
  unfolding fd_pico_socket_listen_def fd_pico_socket_write_def
  by (auto simp: fail_def call_def wrap_simps split: option.splits)

section \<open>Reachable states\<close>

text \<open>
  The application thread makes calls, the stack thread delivers wake-ups and changes the stack, in
  any order. A call that is undefined or blocked gives no next state.
\<close>

inductive wstep :: "'s pico_api \<Rightarrow> 's wrapper \<Rightarrow> 's wrapper \<Rightarrow> bool" for api where
  open_: "pipe_fresh k w \<Longrightarrow> fd_pico_socket_open api k ip6 tcp w = Done r w' \<Longrightarrow> wstep api w w'"
| bind_: "fd_pico_socket_bind api polls fd a port w = Done r w' \<Longrightarrow> wstep api w w'"
| listen_: "fd_pico_socket_listen api fd n w = Done r w' \<Longrightarrow> wstep api w w'"
| connect_: "fd_pico_socket_connect api fd a port w = Done r w' \<Longrightarrow> wstep api w w'"
| accept_: "pipe_fresh k w \<Longrightarrow> fd_pico_socket_accept api k fd w = Done q w' \<Longrightarrow> wstep api w w'"
| write_: "fd_pico_socket_write api fd buf n w = Done r w' \<Longrightarrow> wstep api w w'"
| read_: "fd_pico_socket_read api fd n w = Done p w' \<Longrightarrow> wstep api w w'"
| wakeup: "handle_wakeup ev s w = Done u w' \<Longrightarrow> wstep api w w'"
| mac: "wstep api w (set_device_mac m w)"
| ifname: "set_interface_name n w = Done u w' \<Longrightarrow> wstep api w w'"
| devtype: "set_device_type ty w = Done i w' \<Longrightarrow> wstep api w w'"
| path: "set_switch_path n w = Done u w' \<Longrightarrow> wstep api w w'"
| mask4: "set_ipv4_netmask n w = Done u w' \<Longrightarrow> wstep api w w'"
| mask6: "set_ipv6_netmask n w = Done u w' \<Longrightarrow> wstep api w w'"
| tick: "wstep api w (w\<lparr>stack := s\<rparr>)"

definition initial :: "'s \<Rightarrow> 's wrapper" where
  "initial s = \<lparr>FD_TABLE_SIZE = 8, MAX_FD = 0, fd_table = None, fd_err = FD_OK, vde_switch_name = ''/tmp/vde.ctl'',
     macaddr = [0, 0, 0, 0xa, 0xb, 0xc], device_name = ''vd'', ipv4_mask_string = ''255.255.255.0'',
     ipv6_mask_string = ''::'', is_mac_changed = False, pico_dev = None, device_type = DEVICE_VDE,
     thread_launched = False, pipe_chars = (\<lambda>_. 0), stack = s\<rparr>"

inductive wreach :: "'s pico_api \<Rightarrow> 's wrapper \<Rightarrow> bool" for api where
  start: "wreach api (initial s)"
| more: "wreach api w \<Longrightarrow> wstep api w w' \<Longrightarrow> wreach api w'"

lemma settings_inv:
  "wrap_inv w \<Longrightarrow> wrap_inv (set_device_mac m w)"
  "wrap_inv w \<Longrightarrow> set_interface_name n w = Done u w' \<Longrightarrow> wrap_inv w'"
  "wrap_inv w \<Longrightarrow> set_device_type ty w = Done i w' \<Longrightarrow> wrap_inv w'"
  "wrap_inv w \<Longrightarrow> set_switch_path n w = Done u w' \<Longrightarrow> wrap_inv w'"
  "wrap_inv w \<Longrightarrow> set_ipv4_netmask n w = Done u w' \<Longrightarrow> wrap_inv w'"
  "wrap_inv w \<Longrightarrow> set_ipv6_netmask n w = Done u w' \<Longrightarrow> wrap_inv w'"
  by (auto simp: wrap_inv_def set_device_mac_def set_interface_name_def set_device_type_def set_switch_path_def
      set_ipv4_netmask_def set_ipv6_netmask_def split: if_splits option.splits)

lemma wstep_inv: "wstep api w w' \<Longrightarrow> wrap_inv w \<Longrightarrow> wrap_inv w'"
  by (induction rule: wstep.induct)
    (auto simp: wrap_simps intro: settings_inv open_inv accept_inv read_inv wakeup_inv bind_inv connect_inv listen_write_inv)

lemma wreach_inv: "wreach api w \<Longrightarrow> wrap_inv w"
proof (induction rule: wreach.induct)
  case (start s)
  then show ?case by (simp add: wrap_inv_def initial_def)
next
  case (more w w')
  then show ?case using wstep_inv by blast
qed

lemma close_deep: "wrap_inv w \<Longrightarrow> tbl fd w = Some (Some l) \<Longrightarrow> close_fd api sysc depth fd w = None"
proof (induction depth arbitrary: w)
  case (Suc d)
  obtain ret s1 where c: "pico_socket_close api (socket l) (stack w) = (ret, s1)"
    by (cases "pico_socket_close api (socket l) (stack w)")
  have t1: "tbl fd (w\<lparr>stack := s1\<rparr>) = Some (Some l)" using Suc.prems(2) by (simp add: tbl_def)
  have "close_fd api sysc d fd (w\<lparr>stack := s1\<rparr>) = None" using Suc.IH [OF _ t1] Suc.prems(1) by (simp add: wrap_simps)
  moreover have "int (fd0 l) = fd" using tblD [OF Suc.prems] by simp
  ultimately show ?case
    using Suc.prems(2) t1 c
    by (simp add: fd_pico_socket_close_def fd_elem_delete_def get_socket_from_fd_def then_close_def)
qed simp

lemma upd_socket_accept_twice: "upd_socket s unlock_accept (upd_socket s unlock_accept t) = upd_socket s unlock_accept t"
  by (induction t) (auto simp: unlock_accept_def sem_post_once_def split: option.splits)

section \<open>A concrete run\<close>

text \<open>One TCP socket opened on a stack that accepts every call, and the wake-ups that follow.\<close>

definition demo_api :: "unit pico_api" where
  "demo_api = \<lparr>pico_stack_init = id, create_device = (\<lambda>_ _ _ _ s. (Some 0, s)), pico_socket_open = (\<lambda>_ _ s. (Some 7, s)),
     pico_ipv4_link_find = (\<lambda>_ _. True), pico_ipv4_link_add = (\<lambda>_ _ _ s. (True, s)),
     pico_ipv6_link_find = (\<lambda>_ _. True), pico_ipv6_link_add = (\<lambda>_ _ _ s. (True, s)),
     pico_string_to_ipv6 = (\<lambda>_. None), pico_ipv6_to_string = (\<lambda>_. []), pico_socket_bind = (\<lambda>_ _ _ s. (0, s)),
     pico_socket_listen = (\<lambda>_ _ s. (0, s)), pico_socket_connect = (\<lambda>_ _ _ s. (0, s)),
     pico_socket_accept = (\<lambda>_ s. (None, s)), pico_socket_write = (\<lambda>_ _ n s. (n, s)),
     pico_socket_read = (\<lambda>_ _ s. ((2, [1, 2]), s)), pico_socket_close = (\<lambda>_ s. (0, s)),
     inet_ntop6 = (\<lambda>_. ''::''), inet_pton6 = (\<lambda>_. replicate 16 0)\<rparr>"

definition demo_mem :: create_mem where
  "demo_mem = \<lparr>mem_elem = True, mem_sems = True, sem_inits = True, mem_table = True\<rparr>"

definition demo_kernel :: kernel where
  "demo_kernel = \<lparr>pipe_fds = Some (3, 4), mem = demo_mem, mem_init = True, pthread_err = 0, rlim_cur = 1024, pid = 1234\<rparr>"

definition demo_elem :: fd_elem where
  "demo_elem = \<lparr>fd0 = 3, fd1 = 4, fd_write_count = 0, fd_char_count = 0, isIpv6 = False, accept_sem = 0, read_sem = 0, socket = 7\<rparr>"

definition demo_open :: "unit wrapper" where
  "demo_open = (initial ())\<lparr>MAX_FD := 1024, fd_table := Some [None, None, None, Some demo_elem, None, None, None, None],
     macaddr := [0, 0, 0, 0xa, 0xf, 0xde], device_name := ''vd1234'', pico_dev := Some 0, thread_launched := True,
     pipe_chars := (\<lambda>_. 0)(3 := 0)\<rparr>"

definition demo_elem_rd :: fd_elem where
  "demo_elem_rd = demo_elem\<lparr>fd_write_count := 1, read_sem := 1\<rparr>"

definition demo_rd :: "unit wrapper" where
  "demo_rd = demo_open\<lparr>fd_table := Some [None, None, None, Some demo_elem_rd, None, None, None, None],
     pipe_chars := ((\<lambda>_. 0)(3 := 0))(3 := 1)\<rparr>"

definition demo_conn :: "unit wrapper" where
  "demo_conn = demo_open\<lparr>fd_table := Some [None, None, None, Some (demo_elem\<lparr>accept_sem := 1\<rparr>), None, None, None, None]\<rparr>"

lemmas demo_defs = demo_api_def demo_mem_def demo_kernel_def demo_elem_def demo_open_def demo_elem_rd_def demo_rd_def
  demo_conn_def

lemma demo_decimal: "decimal 1234 = ''1234''"
  by code_simp

lemma demo_mac: "mac_of_pid 1234 [0, 0, 0, 0xa, 0xb, 0xc] = [0, 0, 0, 0xa, 0xf, 0xde]"
  by (simp add: mac_of_pid_def)

definition demo_init :: "unit wrapper" where
  "demo_init = demo_open\<lparr>fd_table := Some (replicate 8 None)\<rparr>"

lemma demo_inits: "init demo_api demo_kernel ((initial ())\<lparr>thread_launched := True\<rparr>) = Done () demo_init"
  by (simp add: init_def initial_def demo_kernel_def demo_api_def demo_open_def demo_init_def demo_decimal demo_mac
      fun_eq_iff)

lemma demo_creates: "fd_elem_create demo_mem 3 4 7 (demo_init\<lparr>pipe_chars := (pipe_chars demo_init)(3 := 0)\<rparr>) = Done 3 demo_open"
  by (simp add: fd_elem_create_def demo_mem_def demo_init_def demo_open_def initial_def tbl_def tbl_set_def demo_elem_def
      numeral_eq_Suc)

lemma demo_opens: "fd_pico_socket_open demo_api demo_kernel False True (initial ()) = Done 3 demo_open"
proof -
  have t: "\<not> thread_launched (initial ())" by (simp add: initial_def)
  have so: "pico_socket_open demo_api False True () = (Some 7, ())"
    by (simp add: demo_api_def)
  have k: "pipe_fds demo_kernel = Some (3, 4)" "mem demo_kernel = demo_mem" by (simp_all add: demo_kernel_def)
  have s: "demo_init\<lparr>stack := ()\<rparr> = demo_init" by (simp add: demo_init_def demo_open_def initial_def)
  have u: "tbl 3 demo_open = Some (Some demo_elem)" "tbl_set 3 (Some (demo_elem\<lparr>isIpv6 := False\<rparr>)) demo_open = demo_open"
    by (simp_all add: tbl_def tbl_set_def demo_open_def demo_elem_def)
  show ?thesis
    by (simp add: fd_pico_socket_open_def t demo_inits so k s demo_creates u)
qed

lemma demo_reach: "wreach demo_api demo_open"
proof (rule wreach.more [OF wreach.start])
  show "wstep demo_api (initial ()) demo_open"
    by (rule wstep.open_ [OF _ demo_opens]) (simp add: pipe_fresh_def tbl_def initial_def demo_kernel_def)
qed

lemma demo_find: "get_fd_elem_from_socket 7 demo_open = Some (Some demo_elem)"
  by (simp add: get_fd_elem_from_socket_def demo_defs)

lemma demo_wakes:
  "handle_wakeup PICO_SOCK_EV_RD 7 demo_open = Done () demo_rd"
  "handle_wakeup PICO_SOCK_EV_CONN 7 demo_open = Done () demo_conn"
  by (simp_all add: handle_wakeup_def demo_find)
    (simp_all add: upd_elem_def PICO_SOCK_EV_RD_def PICO_SOCK_EV_CONN_def demo_defs unlock_read_def unlock_accept_def sem_post_once_def)

lemma demo_tbl: "tbl 3 demo_open = Some (Some demo_elem)" "tbl 3 demo_rd = Some (Some demo_elem_rd)"
  by (simp_all add: tbl_def demo_open_def demo_rd_def)

lemma demo_rd_reach: "wreach demo_api demo_rd"
  by (rule wreach.more [OF demo_reach wstep.wakeup [OF demo_wakes(1)]])

section \<open>Properties\<close>

text \<open>C9: In every reachable state an entry stands at the index of its own descriptor, its semaphores are binary, and
  the count the reader drains by is the number of characters in its pipe.\<close>

theorem fd_table_invariant:
  assumes "wreach api w" "tbl fd w = Some (Some l)"
  shows "int (fd0 l) = fd \<and> accept_sem l \<le> 1 \<and> read_sem l \<le> 1 \<and> fd_write_count l = int (pipe_chars w (fd0 l))"
  using tblD [OF wreach_inv [OF assms(1)] assms(2)] by (auto simp: elem_ok_def)

theorem fd_table_invariant_witness: "fd_write_count demo_elem_rd = int (pipe_chars demo_rd (fd0 demo_elem_rd))"
  using fd_table_invariant [OF demo_rd_reach demo_tbl(2)] by blast

text \<open>C25: A read on a descriptor with a pending wake-up returns: the drain loop ends with the pipe empty and never waits
  on it, and the semaphore is left posted exactly when the buffer was filled.\<close>

theorem fd_pico_socket_read_returns:
  assumes "wreach api w" "tbl fd w = Some (Some l)" "read_sem l > 0"
  shows "\<exists>r w' l'. fd_pico_socket_read api fd len w = Done r w' \<and> pipe_chars w' (nat fd) = 0 \<and>
    tbl fd w' = Some (Some l') \<and> fd_write_count l' = 0 \<and> read_sem l' = (if fst r = len then 1 else 0)"
  using read_result [OF wreach_inv [OF assms(1)] assms(2,3), of api len] by blast

theorem fd_pico_socket_read_returns_witness:
  "\<exists>r w'. fd_pico_socket_read demo_api 3 2 demo_rd = Done r w' \<and> pipe_chars w' 3 = 0"
  using fd_pico_socket_read_returns [OF demo_rd_reach demo_tbl(2), of 2] by (auto simp: demo_elem_rd_def)

text \<open>C26: Closing a picoTCP descriptor never returns: however deep the call stack is, \<^verbatim>\<open>close\<close>,
  \<^verbatim>\<open>fd_pico_socket_close\<close> and \<^verbatim>\<open>fd_elem_delete\<close> call each other until it is exhausted.\<close>

theorem close_never_returns:
  assumes "wreach api w" "tbl fd w = Some (Some l)"
  shows "close_fd api sys_close depth fd w = None"
  by (rule close_deep [OF wreach_inv [OF assms(1)] assms(2)])

theorem close_never_returns_witness: "close_fd demo_api (\<lambda>_. 0) 1000000 3 demo_open = None"
  by (rule close_never_returns [OF demo_reach demo_tbl(1)])

text \<open>C27: With memory at hand, adding a descriptor to a reachable table is undefined exactly when the table has to grow, may
  be doubled, and the read end still lies beyond the doubled size; a table that may not be doubled is reported.\<close>

theorem fd_elem_create_overflow:
  assumes "wreach api w" "fd_table w = Some t" "mem_elem m" "mem_sems m" "sem_inits m" "mem_table m" "a < b"
  shows "(fd_elem_create m a b s w = UB \<longleftrightarrow> 2 * FD_TABLE_SIZE w \<le> MAX_FD w \<and> 2 * FD_TABLE_SIZE w \<le> a) \<and>
    (FD_TABLE_SIZE w \<le> b \<and> MAX_FD w < 2 * FD_TABLE_SIZE w \<longrightarrow>
       fd_elem_create m a b s w = Done (- 1) (w\<lparr>fd_err := FD_TABLE_MAX_SIZE_REACHED\<rparr>))"
proof -
  have len: "length t = FD_TABLE_SIZE w" using wreach_inv [OF assms(1)] assms(2) by (simp add: wrap_inv_def table_ok_def)
  show ?thesis
    using assms(2-) len
    by (auto simp: fd_elem_create_def fail_def tbl_def split: option.splits)
qed

theorem fd_elem_create_overflow_witness: "fd_elem_create demo_mem 16 17 9 demo_open = UB"
  using fd_elem_create_overflow [OF demo_reach, of _ demo_mem 16 17 9] by (simp add: demo_mem_def demo_open_def initial_def)

text \<open>A connection event that arrives while one is pending changes nothing: of two peers that connect before the
  server accepts, one wake-up is lost.\<close>

theorem connection_wakeup_idempotent:
  assumes "wreach api w" "handle_wakeup PICO_SOCK_EV_CONN s w = Done u w1"
  shows "handle_wakeup PICO_SOCK_EV_CONN s w1 = Done () w1"
proof -
  have bits: "PICO_SOCK_EV_CONN AND PICO_SOCK_EV_CONN \<noteq> 0" "PICO_SOCK_EV_CONN AND PICO_SOCK_EV_RD = 0"
    by (simp_all add: PICO_SOCK_EV_CONN_def PICO_SOCK_EV_RD_def)
  show ?thesis
  proof (cases "get_fd_elem_from_socket s w")
    case None
    then show ?thesis using assms(2) by (simp add: handle_wakeup_def)
  next
    case e: (Some e)
    show ?thesis
    proof (cases e)
      case None
      then show ?thesis using e assms(2) bits by (auto simp: handle_wakeup_def get_fd_elem_from_socket_def)
    next
      case (Some l)
      have w1: "w1 = upd_elem s unlock_accept w" using e Some assms(2) bits by (simp add: handle_wakeup_def)
      have "upd_elem s unlock_accept w1 = w1"
        unfolding w1 upd_elem_def by (simp add: option.map_comp comp_def upd_socket_accept_twice)
      then show ?thesis
        using upd_accept_inv(2) [OF wreach_inv [OF assms(1)]] e Some w1 bits by (simp add: handle_wakeup_def)
    qed
  qed
qed

theorem connection_wakeup_idempotent_witness: "handle_wakeup PICO_SOCK_EV_CONN 7 demo_conn = Done () demo_conn"
  by (rule connection_wakeup_idempotent [OF demo_reach demo_wakes(2)])

end
