(* ===== verification/FdSocket.thy ===== *)
theory FdSocket
  imports FdWrapper
begin

text \<open>
  \<^verbatim>\<open>socket.c\<close> (and its copy \<^verbatim>\<open>fede_socket.c\<close>): the functions that replace the C library's socket calls.
  Each looks its descriptor up in \<^verbatim>\<open>fd_table\<close> and either calls the adapter of \<^verbatim>\<open>fd_functions.c\<close> or
  issues the system call with the same arguments. A \<^verbatim>\<open>struct sockaddr\<close> is the memory it points to.
\<close>

section \<open>Results\<close>

datatype syscall = NR_read int int | NR_write int bytes int | NR_listen int int | NR_close int
  | NR_socket int int int | NR_bind int bytes nat | NR_connect int bytes nat | NR_accept int

text \<open>A call ends in a system call, whose result it returns, or in the wrapper.\<close>

datatype ('a, 's) out = Kernel syscall | Pico "('a, 's) res"

definition dispatch :: "int \<Rightarrow> 's wrapper \<Rightarrow> syscall \<Rightarrow> ('a, 's) res \<Rightarrow> ('a, 's) out" where
  "dispatch fd w sys r =
     (case get_socket_from_fd fd w of None \<Rightarrow> Pico UB | Some None \<Rightarrow> Kernel sys | Some (Some _) \<Rightarrow> Pico r)"

section \<open>Addresses in memory\<close>

definition SOCKADDR_IN :: nat where "SOCKADDR_IN = 16"
definition SOCKADDR_IN6 :: nat where "SOCKADDR_IN6 = 28"

definition sin_port :: "bytes \<Rightarrow> u16" where
  "sin_port m = short_from (drop 2 m)"

definition sin_addr :: "bytes \<Rightarrow> u32" where
  "sin_addr m = long_from (drop 4 m)"

definition sin6_addr :: "bytes \<Rightarrow> bytes" where
  "sin6_addr m = take 16 (drop 8 m)"

text \<open>The C library prints the octets of an address in decimal, in memory order, and reads them back.\<close>

definition inet_ntoa :: "u32 \<Rightarrow> string" where
  "inet_ntoa ip = (case bytes_of_u32 ip of
     [a, b, c, d] \<Rightarrow> decimal (unat a) @ ''.'' @ decimal (unat b) @ ''.'' @ decimal (unat c) @ ''.'' @ decimal (unat d)
   | _ \<Rightarrow> [])"

text \<open>On dotted quads without leading zeros, the only strings that reach it, \<^verbatim>\<open>inet_addr\<close> reads four decimal octets.\<close>

definition inet_addr :: "string \<Rightarrow> u32" where
  "inet_addr s = (case pico_string_to_ipv4 s of Some ip \<Rightarrow> ip | None \<Rightarrow> - 1)"

section \<open>The calls\<close>

definition sock_read :: "'s pico_api \<Rightarrow> int \<Rightarrow> int \<Rightarrow> 's wrapper \<Rightarrow> (int \<times> bytes, 's) out" where
  "sock_read api fd len w = dispatch fd w (NR_read fd len) (fd_pico_socket_read api fd len w)"

definition sock_write :: "'s pico_api \<Rightarrow> int \<Rightarrow> bytes \<Rightarrow> int \<Rightarrow> 's wrapper \<Rightarrow> (int, 's) out" where
  "sock_write api fd buf count w = dispatch fd w (NR_write fd buf count) (fd_pico_socket_write api fd buf count w)"

definition sock_listen :: "'s pico_api \<Rightarrow> int \<Rightarrow> int \<Rightarrow> 's wrapper \<Rightarrow> (int, 's) out" where
  "sock_listen api fd backlog w = dispatch fd w (NR_listen fd backlog) (fd_pico_socket_listen api fd backlog w)"

definition AF_PICO_INET :: int where "AF_PICO_INET = 1018"
definition AF_PICO_INET6 :: int where "AF_PICO_INET6 = 1019"
definition SOCK_STREAM :: int where "SOCK_STREAM = 1"
definition SOCK_DGRAM :: int where "SOCK_DGRAM = 2"

definition sock_socket :: "'s pico_api \<Rightarrow> kernel \<Rightarrow> int \<Rightarrow> int \<Rightarrow> int \<Rightarrow> 's wrapper \<Rightarrow> (int, 's) out" where
  "sock_socket api k domain type protocol w =
     (if domain = AF_PICO_INET then
        Pico (if type = SOCK_STREAM then fd_pico_socket_open api k False True w
              else if type = SOCK_DGRAM then fd_pico_socket_open api k False False w
              else Done (- 1) w)
      else if domain = AF_PICO_INET6 then
        Pico (if type = SOCK_STREAM then fd_pico_socket_open api k True True w
              else if type = SOCK_DGRAM then fd_pico_socket_open api k True False w
              else Done (- 1) w)
      else Kernel (NR_socket domain type protocol))"

text \<open>
  \<^verbatim>\<open>inet_ntop\<close> is given the length of the structure, 28, as the size of the buffer: a longer text is not
  written, and the buffer is then read uninitialised.
\<close>

definition sock_bind :: "'s pico_api \<Rightarrow> (nat \<times> 's) list \<Rightarrow> int \<Rightarrow> bytes \<Rightarrow> nat \<Rightarrow> 's wrapper \<Rightarrow> (int, 's) out" where
  "sock_bind api polls fd addr addrlen w =
     dispatch fd w (NR_bind fd addr addrlen)
       (if addrlen = SOCKADDR_IN then
          (if length addr < SOCKADDR_IN then UB
           else fd_pico_socket_bind api polls fd (inet_ntoa (sin_addr addr)) (sin_port addr) w)
        else if addrlen = SOCKADDR_IN6 then
          (if length addr < SOCKADDR_IN6 \<or> length (inet_ntop6 api (sin6_addr addr)) + 1 > addrlen then UB
           else fd_pico_socket_bind api polls fd (inet_ntop6 api (sin6_addr addr)) (sin_port addr) w)
        else Done (- 1) w)"

definition sock_connect :: "'s pico_api \<Rightarrow> int \<Rightarrow> bytes \<Rightarrow> nat \<Rightarrow> 's wrapper \<Rightarrow> (int, 's) out" where
  "sock_connect api fd addr addrlen w =
     dispatch fd w (NR_connect fd addr addrlen)
       (if addrlen = SOCKADDR_IN then
          (if length addr < SOCKADDR_IN then UB
           else fd_pico_socket_connect api fd (inet_ntoa (sin_addr addr)) (sin_port addr) w)
        else if addrlen = SOCKADDR_IN6 then
          (if length addr < SOCKADDR_IN6 \<or> length (inet_ntop6 api (sin6_addr addr)) + 1 > addrlen then UB
           else fd_pico_socket_connect api fd (inet_ntop6 api (sin6_addr addr)) (sin_port addr) w)
        else Done (- 1) w)"

text \<open>What \<^verbatim>\<open>accept\<close> writes through \<^verbatim>\<open>addr\<close> and \<^verbatim>\<open>addrlen\<close>.\<close>

datatype peer = No_peer | Peer4 u16 u32 | Peer6 u16 bytes

record accepted =
  ret_fd :: int
  peer_addr :: peer
  addrlen_out :: "nat option"

text \<open>
  The element of \<^verbatim>\<open>ret_fd\<close> is read before \<^verbatim>\<open>ret_fd\<close> is tested. \<open>ptrs\<close> says that \<^verbatim>\<open>addr\<close> and \<^verbatim>\<open>addrlen\<close>
  are not null, \<open>mem_port\<close> that the allocation of the port succeeds, \<open>len4\<close> that the IPv4 branch stores
  the length, which \<^verbatim>\<open>fede_socket.c\<close> does not.
\<close>

definition accept_with ::
  "bool \<Rightarrow> 's pico_api \<Rightarrow> kernel \<Rightarrow> bool \<Rightarrow> bool \<Rightarrow> int \<Rightarrow> 's wrapper \<Rightarrow> (accepted, 's) out" where
  "accept_with len4 api k ptrs mem_port fd w =
     dispatch fd w (NR_accept fd)
       (bind_res (fd_pico_socket_accept api k fd w) (\<lambda>(ret, written) w1.
          if written \<noteq> None \<and> \<not> mem_port then UB
          else case get_fd_elem_from_fd ret w1 of
            None \<Rightarrow> UB
          | Some None \<Rightarrow>
              if \<not> ptrs then UB else Done \<lparr>ret_fd = - 1, peer_addr = No_peer, addrlen_out = Some 0\<rparr> w1
          | Some (Some l) \<Rightarrow>
              if \<not> ptrs then UB
              else case written of
                None \<Rightarrow> UB
              | Some (str, port) \<Rightarrow>
                  if \<not> isIpv6 l
                  then Done \<lparr>ret_fd = ret, peer_addr = Peer4 port (inet_addr str),
                             addrlen_out = (if len4 then Some SOCKADDR_IN else None)\<rparr> w1
                  else Done \<lparr>ret_fd = ret, peer_addr = Peer6 port (inet_pton6 api str),
                             addrlen_out = Some SOCKADDR_IN6\<rparr> w1))"

definition sock_accept :: "'s pico_api \<Rightarrow> kernel \<Rightarrow> bool \<Rightarrow> bool \<Rightarrow> int \<Rightarrow> 's wrapper \<Rightarrow> (accepted, 's) out" where
  "sock_accept = accept_with True"

definition pico_accept :: "'s pico_api \<Rightarrow> kernel \<Rightarrow> bool \<Rightarrow> bool \<Rightarrow> int \<Rightarrow> 's wrapper \<Rightarrow> (accepted, 's) out" where
  "pico_accept = accept_with False"

section \<open>Lemmas\<close>

lemma byte_digits_decimal: "byte_digits b = decimal (unat b)"
proof -
  have h: "unat b < 256" by simp
  have d: "decimal n = [digit_char n]" if "n < 10" for n using that by (simp add: decimal.simps)
  have d2: "decimal n = [digit_char (n div 10), digit_char (n mod 10)]" if "\<not> n < 10" "n < 100" for n
    using that d [of "n div 10"] by (subst decimal.simps) auto
  have d3: "decimal n = [digit_char (n div 100), digit_char (n mod 100 div 10), digit_char (n mod 100 mod 10)]"
    if n: "\<not> n < 100" "n < 256" for n
  proof -
    have "decimal n = decimal (n div 10) @ [digit_char (n mod 10)]" using n by (subst decimal.simps) simp
    moreover have "\<not> n div 10 < 10" "n div 10 < 100" using n by linarith+
    moreover have "n div 10 div 10 = n div 100" "n div 10 mod 10 = n mod 100 div 10" "n mod 100 mod 10 = n mod 10"
      by (simp_all add: div_mult2_eq [symmetric] mod_mult2_eq [of n 10 10, simplified] mod_mod_cancel)
    ultimately show ?thesis using d2 [of "n div 10"] by simp
  qed
  show ?thesis unfolding byte_digits_def Let_def using h d d2 d3 by auto
qed

lemma inet_ntoa_eq: "inet_ntoa ip = pico_ipv4_to_string ip"
  by (simp add: inet_ntoa_def pico_ipv4_to_string_def bytes_of_u32_def byte_digits_decimal)

lemma ntoa_parses [simp]: "pico_string_to_ipv4 (inet_ntoa ip) = Some ip"
  by (simp add: inet_ntoa_eq parse_print)

lemma inet_addr_prints [simp]: "inet_addr (pico_ipv4_to_string ip) = ip"
  by (simp add: inet_addr_def parse_print)

lemma isIpv4_ntoa [simp]: "isIpv4_str (inet_ntoa ip)"
  by (simp add: isIpv4_str_def inet_ntoa_def bytes_of_u32_def)

definition sockaddr_in :: "u16 \<Rightarrow> u16 \<Rightarrow> u32 \<Rightarrow> bytes" where
  "sockaddr_in family port ip = bytes_of_u16 family @ bytes_of_u16 port @ bytes_of_u32 ip @ replicate 8 0"

lemma sockaddr_in_fields [simp]:
  "length (sockaddr_in family port ip) = SOCKADDR_IN" "sin_port (sockaddr_in family port ip) = port"
  "sin_addr (sockaddr_in family port ip) = ip"
  by (simp_all add: sockaddr_in_def SOCKADDR_IN_def sin_port_def sin_addr_def)

lemma dispatch_pico: "tbl fd w = Some (Some l) \<Longrightarrow> dispatch fd w sys r = Pico r"
  by (simp add: dispatch_def get_socket_from_fd_def)

lemma create_in_table:
  assumes "mem_elem m" "mem_sems m" "sem_inits m" "a < FD_TABLE_SIZE w" "b < FD_TABLE_SIZE w" "tbl (int a) w = Some None"
  shows "fd_elem_create m a b s w = Done (int a) (tbl_set (int a) (Some \<lparr>fd0 = a, fd1 = b, fd_write_count = 0,
    fd_char_count = 0, isIpv6 = False, accept_sem = 0, read_sem = 0, socket = s\<rparr>) w)"
  using assms by (simp add: fd_elem_create_def)

lemma tbl_tbl_set: "tbl i w = Some x \<Longrightarrow> tbl j (tbl_set i e w) = (if j = i then Some e else tbl j w)"
  by (auto simp: tbl_def tbl_set_def nth_list_update split: option.splits if_splits)

lemma tbl_other [simp]: "tbl i (w\<lparr>stack := s\<rparr>) = tbl i w" "tbl i (w\<lparr>pipe_chars := p\<rparr>) = tbl i w"
  by (simp_all add: tbl_def)

lemma size_tbl_set [simp]: "FD_TABLE_SIZE (tbl_set i e w) = FD_TABLE_SIZE w" "stack (tbl_set i e w) = stack w"
  by (simp_all add: tbl_set_def)

section \<open>Properties\<close>



text \<open>C29: \<^verbatim>\<open>connect\<close> and \<^verbatim>\<open>bind\<close> hand the stack exactly the IPv4 address and port of the structure the
  application passed, although the address travels through its printed form.\<close>

theorem connect_bind_exact_address:
  assumes "tbl fd w = Some (Some l)" "\<not> isIpv6 l" "pico_string_to_ipv4 (ipv4_mask_string w) = Some nm"
  shows "sock_connect api fd (sockaddr_in family port ip) SOCKADDR_IN w =
      Pico (call (pico_socket_connect api (socket l) (Inl ip) port (stack w)) w) \<and>
    sock_bind api polls fd (sockaddr_in family port ip) SOCKADDR_IN w =
      Pico (if pico_ipv4_link_find api ip (stack w) then call (pico_socket_bind api (socket l) (Inl ip) port (stack w)) w
            else let (ok, s) = pico_ipv4_link_add api (pico_dev w) ip nm (stack w)
                 in if ok then call (pico_socket_bind api (socket l) (Inl ip) port s) (w\<lparr>stack := s\<rparr>)
                    else fail FD_INTERFACE_NOT_LINKED (w\<lparr>stack := s\<rparr>))"
  using assms
  by (simp add: sock_connect_def sock_bind_def dispatch_pico fd_pico_socket_connect_def fd_pico_socket_bind_def
      get_fd_elem_from_fd_def get_socket_from_fd_def split: prod.split)

theorem connect_bind_exact_address_witness:
  "sock_connect demo_api 3 (sockaddr_in 2 0x5000 0x0100007F) SOCKADDR_IN demo_open = Pico (Done 0 demo_open)"
proof -
  have m: "pico_string_to_ipv4 (ipv4_mask_string demo_open) = Some 0x00FFFFFF"
    by (simp add: demo_open_def initial_def) code_simp
  have f: "\<not> isIpv6 demo_elem" by (simp add: demo_elem_def)
  have c: "call (pico_socket_connect demo_api (socket demo_elem) (Inl 0x0100007F) 0x5000 (stack demo_open)) demo_open = Done 0 demo_open"
    by (simp add: call_def demo_api_def demo_open_def initial_def)
  show ?thesis
    using conjunct1 [OF connect_bind_exact_address [OF demo_tbl(1) f m, of demo_api 2 "0x5000" "0x0100007F"]] c by simp
qed


definition demo_accept_api :: "unit pico_api" where
  "demo_accept_api = demo_api\<lparr>pico_socket_accept := (\<lambda>_ s. (Some (9, Inl 0x0100007F, 80), s))\<rparr>"

lemma demo_conn_tbl: "tbl 3 demo_conn = Some (Some (demo_elem\<lparr>accept_sem := 1\<rparr>))" "tbl 5 demo_conn = Some None"
  by (simp_all add: tbl_def demo_conn_def)


text \<open>C31: When the adapter's accept fails, for whatever reason, \<^verbatim>\<open>accept\<close> does not return the error: it reads the table
  at index -1.\<close>

theorem accept_failure_undefined:
  assumes "tbl fd w = Some (Some l)" "fd_pico_socket_accept api k fd w = Done (- 1, x) w'"
  shows "sock_accept api k ptrs mp fd w = Pico UB"
proof -
  have "tbl (- 1) w' = None" by (simp add: tbl_def split: option.split)
  then show ?thesis
    using assms by (simp add: sock_accept_def accept_with_def dispatch_pico get_fd_elem_from_fd_def)
qed

theorem accept_failure_undefined_witness: "sock_accept demo_api demo_kernel True True 3 demo_conn = Pico UB"
proof (rule accept_failure_undefined [OF demo_conn_tbl(1)])
  show "fd_pico_socket_accept demo_api demo_kernel 3 demo_conn =
      Done (- 1, None) (demo_open\<lparr>fd_err := FD_SOCKET_IS_NULL\<rparr>)"
    using demo_conn_tbl(1)
    by (simp add: fd_pico_socket_accept_def get_fd_elem_from_fd_def waiton_def)
       (simp add: demo_api_def demo_conn_def demo_open_def demo_elem_def initial_def fail_def tbl_set_def)
qed

end
