(* ===== verification/Spec2Isabelle.thy ===== *)
theory Spec2Isabelle
  imports PicoChecksum PicoHeap PicoTimers PicoStack PicoStrings PicoQueue PicoFrame PicoTree PicoIPv4Addr PicoIPv4Route
    PicoIpfilter PicoFragments PicoTcp PicoTcpPool PicoTcpOptions PicoTcpIn PicoTcpStream PicoTcpHandshake FdWrapper FdSocket
begin

text \<open>
  A verification development for \<^verbatim>\<open>fd_picotcp\<close>: a library that gives programs the socket calls of the C
  library on top of the user-space TCP/IP stack picoTCP. \<^verbatim>\<open>src/src/*.c\<close> is the wrapper (descriptor table,
  overridden calls); \<^verbatim>\<open>src/src/picotcp\<close> is the stack (\<^verbatim>\<open>stack/\<close>: frames, queues, timers, trees, the main
  loop; \<^verbatim>\<open>modules/\<close>: protocols and devices). The build is little-endian, with IPv4, IPv6, fragments,
  multicast, the packet filter and TCP, and without the memory manager.

  How the parts interact. A program calls \<^verbatim>\<open>read\<close>, \<^verbatim>\<open>accept\<close> and so on (\<^verbatim>\<open>socket.c\<close>); a descriptor known to the
  table goes to \<^verbatim>\<open>fd_functions.c\<close>, which waits on a semaphore and calls the stack's socket API;
  the stack's thread ticks timers and moves frames from device queues up through IPv4, the filter,
  reassembly and TCP to the sockets, and calls \<^verbatim>\<open>handle_wakeup\<close>, which posts the semaphores.

  Theories, from the bottom up:
  \<^item> \<open>Prelude\<close>: bytes, byte order, generic lemmas on lists, words and options, the shared collections.
  \<^item> \<open>PicoChecksum\<close>: \<^verbatim>\<open>pico_checksum\<close> and its two-buffer form (\<^verbatim>\<open>stack/pico_frame.c\<close>), equal to RFC 1071.
  \<^item> \<open>PicoHeap\<close>, \<open>PicoTimers\<close>: the array heap of \<^verbatim>\<open>include/heap.h\<close> as a priority queue; the timers of
    \<^verbatim>\<open>stack/pico_stack.c\<close>, whose callbacks may add and cancel timers while the list is walked.
  \<^item> \<open>PicoStack\<close>, \<open>PicoStrings\<close>: the random generator, wrapping sequence comparison, protocol scores, strings.
  \<^item> \<open>PicoQueue\<close>, \<open>PicoFrame\<close>: frame queues; reference-counted frames in an explicit store.
  \<^item> \<open>PicoTree\<close>, \<open>PicoTreeCong\<close>: the red-black tree of \<^verbatim>\<open>stack/pico_tree.c\<close> as pointers in a store. Its operations
    refine those of a sorted list; the second theory transfers this to comparisons that are an
    order only on the keys at hand.
  \<^item> \<open>PicoIPv4Addr\<close>, \<open>PicoIPv4Route\<close>: address text, netmasks; links, routes, source selection, multicast groups.
  \<^item> \<open>PicoIpfilter\<close>, \<open>PicoFragments\<close>: the packet filter on the tree; reassembly of IPv4 and IPv6.
  \<^item> \<open>PicoTcp\<close>, \<open>PicoTcpPool\<close>, \<open>PicoTcpOptions\<close>, \<open>PicoTcpIn\<close>, \<open>PicoTcpStream\<close>: TCP segment queues and their tree,
    options, the receiving side, and what the application reads.
  \<^item> \<open>PicoTcpOut\<close>, \<open>PicoTcpPush\<close>, \<open>PicoTcpAck\<close>, \<open>PicoTcpFsm\<close>: the sending side of TCP (output, splitting, retransmission,
    closing, pushing with and without Nagle), acknowledgements and congestion control, and the table of states with its handlers.
  \<^item> \<open>PicoTcpKeeps\<close>, \<open>PicoTcpSender\<close>, \<open>PicoTcpTrans\<close>, \<open>PicoTcpConn\<close>, \<open>PicoTcpHandshake\<close>: what each of these operations keeps; that
    everything a socket sends is the stream pushed into it; the edges of the state diagram; both sides composed, from one
    application to the other; and the three-way handshake.
  \<^item> \<open>FdWrapper\<close>, \<open>FdSocket\<close>: descriptor table, semaphores, pipes and wake-ups; the overridden calls.

  Conventions. Structures are records, machine integers words of their width, stored integers of the
  network the little-endian reading of their octets (\<^verbatim>\<open>long_be\<close> swaps). Allocation that can fail is a
  boolean argument; results that the operating system or a callback decides are arguments. Undefined
  behaviour (a read or write outside an object, a dangling pointer) is \<open>None\<close> or \<open>UB\<close>. Structures that the code reaches
  through pointers and shares (frames, tree nodes) live in explicit stores; a tree that holds
  values only is the list of its keys in order, the contract \<open>PicoTree\<close> proves.

  Loops that may not end are \<^verbatim>\<open>partial_function (option)\<close>, and that they return is proved; the loops with fuel
  are the option parser of TCP (one unit per octet is enough for well-formed options, and no
  amount is enough for an option of length 0, both proved) and loops over the segments of a
  queue, whose fuel is the number of segments.

  Not modelled: what the component table of the manifest lists as such, among it UDP, ICMP, IPv6, ARP, NAT, DHCP,
  DNS, routing daemons, PPP and the device drivers; the threads of the wrapper (its semaphores and wake-ups are modelled as events in sequence).
\<close>

end
